(* ===== verification/Prelude.thy ===== *)
theory Prelude
  imports Main "HOL-Library.Sublist" "HOL-Library.AList" "HOL-Library.Code_Target_Numeral"
begin

text \<open>
  Shared vocabulary of the development: Go's errors as values, Go maps that the
  code iterates over (association lists in the order of the iteration at hand),
  and the lemma collections the component theories fill.
\<close>

named_theorems decision_simps \<open>the four ways a rule builds its answer\<close>
named_theorems shape_simps \<open>evaluation of the request-shape recognisers\<close>
named_theorems path_simps \<open>evaluation of path normalisation\<close>

subsection \<open>Errors\<close>

text \<open>A Go \<open>error\<close> is known to its callers by the text of \<open>err.Error()\<close>.\<close>

type_synonym go_error = string
type_synonym 'a result = "go_error + 'a"

fun is_ok :: "'e + 'a \<Rightarrow> bool" where
  "is_ok (Inl _) = False"
| "is_ok (Inr _) = True"

lemma is_ok_iff: "is_ok r \<longleftrightarrow> (\<exists>x. r = Inr x)"
  by (cases r) auto

subsection \<open>Go maps\<close>

text \<open>
  A \<open>map[string]T\<close> over which the code ranges is an association list with
  distinct keys: the list order is the iteration order of that one \<open>range\<close>.
  A read of a missing key yields the zero value of \<open>T\<close>.
\<close>

type_synonym 'v go_map = "(string \<times> 'v) list"

definition well_keyed :: "'v go_map \<Rightarrow> bool" where
  "well_keyed m \<longleftrightarrow> distinct (map fst m)"

definition read_string :: "string go_map \<Rightarrow> string \<Rightarrow> string" where
  "read_string m k = (case map_of m k of None \<Rightarrow> '''' | Some v \<Rightarrow> v)"

definition read_list :: "(string \<rightharpoonup> 'a list) \<Rightarrow> string \<Rightarrow> 'a list" where
  "read_list m k = (case m k of None \<Rightarrow> [] | Some vs \<Rightarrow> vs)"

lemma read_list_empty [simp]: "read_list Map.empty k = []"
  by (simp add: read_list_def)

lemma read_list_upd [simp]:
  "read_list (m(k \<mapsto> vs)) k' = (if k' = k then vs else read_list m k')"
  by (simp add: read_list_def)

lemma well_keyed_Nil [simp]: "well_keyed []"
  by (simp add: well_keyed_def)

lemma well_keyed_Cons [simp]:
  "well_keyed ((k, v) # m) \<longleftrightarrow> k \<notin> fst ` set m \<and> well_keyed m"
  by (simp add: well_keyed_def)

lemma well_keyed_filter [intro]: "well_keyed m \<Longrightarrow> well_keyed (filter P m)"
  unfolding well_keyed_def by (induction m) auto

lemma well_keyed_update [intro]: "well_keyed m \<Longrightarrow> well_keyed (AList.update k v m)"
  unfolding well_keyed_def by (rule distinct_update)

lemma map_of_well_keyed:
  "well_keyed m \<Longrightarrow> (k, v) \<in> set m \<Longrightarrow> map_of m k = Some v"
  by (simp add: well_keyed_def)

subsection \<open>Lists\<close>

text \<open>Removing duplicates while keeping the first occurrence, as the \<open>seen\<close> sets do.\<close>

fun dedup_onto :: "'a list \<Rightarrow> 'a list \<Rightarrow> 'a list" where
  "dedup_onto acc [] = acc"
| "dedup_onto acc (x # xs) =
     (if x \<in> set acc then dedup_onto acc xs else dedup_onto (acc @ [x]) xs)"

lemma set_dedup_onto [simp]: "set (dedup_onto acc xs) = set acc \<union> set xs"
  by (induction acc xs rule: dedup_onto.induct) auto

lemma distinct_dedup_onto [simp]: "distinct (dedup_onto acc xs) \<longleftrightarrow> distinct acc"
  by (induction acc xs rule: dedup_onto.induct) auto

lemma prefix_dedup_onto: "prefix acc (dedup_onto acc xs)"
proof (induction acc xs rule: dedup_onto.induct)
  case (2 acc x xs)
  then show ?case
    by (auto intro: prefix_order.trans [of acc "acc @ [x]"])
qed simp

lemma dedup_onto_subset: "set xs \<subseteq> set acc \<Longrightarrow> dedup_onto acc xs = acc"
  by (induction acc xs rule: dedup_onto.induct) auto

lemma dedup_onto_append: "dedup_onto acc (xs @ ys) = dedup_onto (dedup_onto acc xs) ys"
  by (induction acc xs rule: dedup_onto.induct) auto

text \<open>An order in which \<open>n\<close> goroutines get to run, each once.\<close>

definition schedule :: "nat list \<Rightarrow> nat \<Rightarrow> bool" where
  "schedule order n \<longleftrightarrow> distinct order \<and> set order = {..<n}"

lemma schedule_upt [simp]: "schedule [0..<n] n"
  by (auto simp: schedule_def)

lemma takeWhile_prefix: "prefix (takeWhile P xs) xs"
  by (metis prefixI takeWhile_dropWhile_id)

lemma length_dropWhile_less:
  "xs \<noteq> [] \<Longrightarrow> P (hd xs) \<Longrightarrow> length (dropWhile P xs) < length xs"
  by (cases xs) (auto simp: le_imp_less_Suc length_dropWhile_le)

end
