(* ===== verification/Go_Strings.thy ===== *)
theory Go_Strings
  imports Prelude
begin

text \<open>
  The part of Go's \<open>strings\<close>, \<open>unicode\<close>, \<open>unicode/utf8\<close> and \<open>strconv\<close>
  the program uses. A Go string is a sequence of bytes, so it is a
  \<^typ>\<open>string\<close> here (an 8-bit \<^typ>\<open>char\<close> per byte); \<open>range\<close> over a
  string decodes UTF-8, and an invalid byte yields U+FFFD.
\<close>

subsection \<open>Bytes\<close>

abbreviation (input) byte :: "char \<Rightarrow> nat" where
  "byte c \<equiv> of_char c"

text \<open>\<open>strings.IndexByte\<close>, with \<open>None\<close> for -1.\<close>

fun index_byte :: "string \<Rightarrow> char \<Rightarrow> nat option" where
  "index_byte [] c = None"
| "index_byte (x # xs) c = (if x = c then Some 0 else map_option Suc (index_byte xs c))"

lemma index_byte_None: "index_byte s c = None \<longleftrightarrow> c \<notin> set s"
  by (induction s) auto

lemma take_index_byte:
  "index_byte s c = Some i \<Longrightarrow> take i s = takeWhile (\<lambda>x. x \<noteq> c) s"
  by (induction s arbitrary: i) (auto split: if_splits)

lemma takeWhile_no_sep: "c \<notin> set s \<Longrightarrow> takeWhile (\<lambda>x. x \<noteq> c) s = s"
  by (induction s) auto

text \<open>\<open>s[:i]\<close> up to the first \<open>c\<close>, the whole of \<open>s\<close> when there is none.\<close>

definition before_byte :: "string \<Rightarrow> char \<Rightarrow> string" where
  "before_byte s c = (case index_byte s c of None \<Rightarrow> s | Some i \<Rightarrow> take i s)"

lemma before_byte_takeWhile: "before_byte s c = takeWhile (\<lambda>x. x \<noteq> c) s"
  by (auto simp: before_byte_def index_byte_None take_index_byte takeWhile_no_sep
      split: option.splits)

lemma before_byte_append_byte [simp]: "before_byte (s @ c # t) c = before_byte s c"
  by (cases "c \<in> set s") (auto simp: before_byte_takeWhile takeWhile_append takeWhile_no_sep)

text \<open>\<open>strings.Split\<close> with a one-byte separator: n separators give n + 1 parts.\<close>

fun split_on :: "char \<Rightarrow> string \<Rightarrow> string list" where
  "split_on c [] = [[]]"
| "split_on c (x # xs) =
     (if x = c then [] # split_on c xs
      else (case split_on c xs of [] \<Rightarrow> [[x]] | y # ys \<Rightarrow> (x # y) # ys))"

lemma split_on_nonempty [simp]: "split_on c s \<noteq> []"
  by (induction s) (auto split: list.splits)

lemma split_on_no_sep: "p \<in> set (split_on c s) \<Longrightarrow> c \<notin> set p"
  by (induction s arbitrary: p) (fastforce split: if_splits list.splits)+

lemma split_on_single: "c \<notin> set s \<Longrightarrow> split_on c s = [s]"
  by (induction s) auto

lemma split_on_append_sep:
  "split_on c (a @ c # b) = split_on c a @ split_on c b"
  by (induction a) (auto split: list.splits)

text \<open>\<open>strings.Join\<close>.\<close>

fun join :: "string \<Rightarrow> string list \<Rightarrow> string" where
  "join sep [] = []"
| "join sep [x] = x"
| "join sep (x # xs) = x @ sep @ join sep xs"

lemma join_Cons: "xs \<noteq> [] \<Longrightarrow> join sep (x # xs) = x @ sep @ join sep xs"
  by (cases xs) auto

lemma join_split_on: "join [c] (split_on c s) = s"
proof (induction s)
  case (Cons x xs)
  then show ?case
    by (cases "split_on c xs"; cases "tl (split_on c xs)") (auto simp: join_Cons)
qed simp

lemma split_on_join:
  assumes "xs \<noteq> []" and "\<forall>x\<in>set xs. c \<notin> set x"
  shows "split_on c (join [c] xs) = xs"
  using assms
proof (induction xs)
  case (Cons x xs)
  then show ?case
    by (cases xs) (auto simp: split_on_single split_on_append_sep)
qed simp

lemma length_split_on: "length (split_on c s) = Suc (count_list s c)"
  by (induction s) (auto split: list.splits)

text \<open>\<open>strings.Trim(s, cutset)\<close> with a one-byte cutset; \<open>strings.TrimSuffix\<close>;
  \<open>strings.HasPrefix\<close>.\<close>

definition trim_byte :: "string \<Rightarrow> char \<Rightarrow> string" where
  "trim_byte s c = rev (dropWhile (\<lambda>x. x = c) (rev (dropWhile (\<lambda>x. x = c) s)))"

definition has_prefix :: "string \<Rightarrow> string \<Rightarrow> bool" where
  "has_prefix s p \<longleftrightarrow> take (length p) s = p"

definition has_suffix :: "string \<Rightarrow> string \<Rightarrow> bool" where
  "has_suffix s p \<longleftrightarrow> has_prefix (rev s) (rev p)"

definition trim_suffix :: "string \<Rightarrow> string \<Rightarrow> string" where
  "trim_suffix s p = (if has_suffix s p then take (length s - length p) s else s)"

lemma has_prefix_iff: "has_prefix s p \<longleftrightarrow> prefix p s"
  unfolding has_prefix_def by (metis append_eq_conv_conj append_take_drop_id prefixE prefixI)

lemma trim_byte_Cons [simp]: "trim_byte (c # s) c = trim_byte s c"
  by (simp add: trim_byte_def)

lemma trim_suffix_noop: "p \<noteq> [] \<Longrightarrow> last s \<noteq> last p \<Longrightarrow> s \<noteq> [] \<Longrightarrow> trim_suffix s p = s"
  by (cases s rule: rev_cases; cases p rule: rev_cases)
    (auto simp: trim_suffix_def has_suffix_def has_prefix_def)

text \<open>\<open>strings.ReplaceAll\<close> for a non-empty \<open>old\<close>: leftmost, non-overlapping.\<close>

function replace_all :: "string \<Rightarrow> string \<Rightarrow> string \<Rightarrow> string" where
  "replace_all old new [] = []"
| "replace_all old new (c # cs) =
     (if old \<noteq> [] \<and> has_prefix (c # cs) old
      then new @ replace_all old new (drop (length old) (c # cs))
      else c # replace_all old new cs)"
  by pat_completeness auto
termination
  by (relation "measure (\<lambda>(_, _, s). length s)") auto

end
