(* ===== verification/Go_Utf8.thy ===== *)
theory Go_Utf8
  imports Go_Strings
begin

text \<open>
  UTF-8 as \<open>range\<close> over a Go string and \<open>unicode/utf8\<close> decode and encode it,
  and the two \<open>unicode\<close> classes the program asks for: control characters and
  white space.
\<close>

subsection \<open>Decoding\<close>

definition rune_error :: nat where
  "rune_error = 0xFFFD"

definition is_cont :: "nat \<Rightarrow> bool" where
  "is_cont b \<longleftrightarrow> 0x80 \<le> b \<and> b \<le> 0xBF"

text \<open>The accept ranges of the second byte, by first byte (overlong forms, surrogates
  and values past U+10FFFF are refused).\<close>

definition accept2 :: "nat \<Rightarrow> nat \<Rightarrow> bool" where
  "accept2 b0 b1 \<longleftrightarrow>
     (if b0 = 0xE0 then 0xA0 \<le> b1 \<and> b1 \<le> 0xBF
      else if b0 = 0xED then 0x80 \<le> b1 \<and> b1 \<le> 0x9F
      else if b0 = 0xF0 then 0x90 \<le> b1 \<and> b1 \<le> 0xBF
      else if b0 = 0xF4 then 0x80 \<le> b1 \<and> b1 \<le> 0x8F
      else is_cont b1)"

text \<open>\<open>utf8.DecodeRuneInString\<close> of the non-empty string \<open>c # cs\<close>: the rune and the
  number of bytes after the first that belong to it. Anything malformed is U+FFFD,
  one byte wide.\<close>

definition decode_rune :: "char \<Rightarrow> string \<Rightarrow> nat \<times> nat" where
  "decode_rune c cs =
     (let b0 = byte c in
      if b0 < 0x80 then (b0, 0)
      else if 0xC2 \<le> b0 \<and> b0 \<le> 0xDF then
        (case cs of
           c1 # _ \<Rightarrow> if is_cont (byte c1) then ((b0 mod 32) * 64 + byte c1 mod 64, 1)
                     else (rune_error, 0)
         | _ \<Rightarrow> (rune_error, 0))
      else if 0xE0 \<le> b0 \<and> b0 \<le> 0xEF then
        (case cs of
           c1 # c2 # _ \<Rightarrow>
             if accept2 b0 (byte c1) \<and> is_cont (byte c2)
             then ((b0 mod 16) * 4096 + (byte c1 mod 64) * 64 + byte c2 mod 64, 2)
             else (rune_error, 0)
         | _ \<Rightarrow> (rune_error, 0))
      else if 0xF0 \<le> b0 \<and> b0 \<le> 0xF4 then
        (case cs of
           c1 # c2 # c3 # _ \<Rightarrow>
             if accept2 b0 (byte c1) \<and> is_cont (byte c2) \<and> is_cont (byte c3)
             then ((b0 mod 8) * 262144 + (byte c1 mod 64) * 4096 + (byte c2 mod 64) * 64
                     + byte c3 mod 64, 3)
             else (rune_error, 0)
         | _ \<Rightarrow> (rune_error, 0))
      else (rune_error, 0))"

text \<open>\<open>for _, r := range s\<close>: the runes of \<open>s\<close>, left to right.\<close>

function runes :: "string \<Rightarrow> nat list" where
  "runes [] = []"
| "runes (c # cs) = fst (decode_rune c cs) # runes (drop (snd (decode_rune c cs)) cs)"
  by pat_completeness auto
termination
  by (relation "measure length") auto

lemma decode_rune_ascii: "byte c < 0x80 \<Longrightarrow> decode_rune c cs = (byte c, 0)"
  by (simp add: decode_rune_def)

lemma runes_ascii_Cons [simp]: "byte c < 0x80 \<Longrightarrow> runes (c # cs) = byte c # runes cs"
  by (simp add: decode_rune_ascii)

lemma mod_block:
  fixes b k m :: nat
  assumes "k * m \<le> b" "b < k * m + m"
  shows "b mod m = b - k * m"
  by (rule mod_nat_eqI) (use assms in auto)

lemma mod_bounds:
  fixes b :: nat
  shows "0xC2 \<le> b \<Longrightarrow> b \<le> 0xDF \<Longrightarrow> 2 \<le> b mod 32"
    and "0xE1 \<le> b \<Longrightarrow> b \<le> 0xEF \<Longrightarrow> 1 \<le> b mod 16"
    and "0xA0 \<le> b \<Longrightarrow> b \<le> 0xBF \<Longrightarrow> 32 \<le> b mod 64"
    and "0x90 \<le> b \<Longrightarrow> b \<le> 0xBF \<Longrightarrow> 16 \<le> b mod 64"
    and "0xF1 \<le> b \<Longrightarrow> b \<le> 0xF4 \<Longrightarrow> 1 \<le> b mod 8"
  using mod_block [of 6 32 b] mod_block [of 14 16 b] mod_block [of 2 64 b] mod_block [of 30 8 b]
  by auto

lemma two_byte_ge: "2 \<le> a \<Longrightarrow> 0x80 \<le> a * 64 + (b :: nat)"
  by linarith

lemma three_byte_ge:
  assumes "0xE0 \<le> b0" "b0 \<le> 0xEF" "accept2 b0 b1"
  shows "0x80 \<le> (b0 mod 16) * 4096 + (b1 mod 64) * 64 + (b :: nat)"
proof (cases "b0 = 0xE0")
  case True
  with assms have "32 \<le> b1 mod 64" by (intro mod_bounds) (auto simp: accept2_def)
  then show ?thesis by linarith
next
  case False
  with assms have "1 \<le> b0 mod 16" by (intro mod_bounds) auto
  then show ?thesis by linarith
qed

lemma four_byte_ge:
  assumes "0xF0 \<le> b0" "b0 \<le> 0xF4" "accept2 b0 b1"
  shows "0x80 \<le> (b0 mod 8) * 262144 + (b1 mod 64) * 4096 + a + (b :: nat)"
proof (cases "b0 = 0xF0")
  case True
  with assms have "16 \<le> b1 mod 64" by (intro mod_bounds) (auto simp: accept2_def)
  then show ?thesis by linarith
next
  case False
  with assms have "1 \<le> b0 mod 8" by (intro mod_bounds) auto
  then show ?thesis by linarith
qed

text \<open>A multi-byte sequence never decodes to an ASCII rune, and never swallows an ASCII
  byte: this is what makes byte-level and rune-level tests for ASCII agree.\<close>

lemma decode_rune_not_ascii:
  "0x80 \<le> (byte c :: nat) \<Longrightarrow> 0x80 \<le> fst (decode_rune c cs)"
  by (auto simp: decode_rune_def Let_def rune_error_def two_byte_ge three_byte_ge four_byte_ge
      mod_bounds split: list.splits)

lemma accept2_cont: "accept2 b0 b1 \<Longrightarrow> 0x80 \<le> b1"
  by (auto simp: accept2_def is_cont_def split: if_splits)

lemma decode_rune_skips:
  "c' \<in> set (take (snd (decode_rune c cs)) cs) \<Longrightarrow> 0x80 \<le> (byte c' :: nat)"
  by (auto simp: decode_rune_def Let_def is_cont_def dest: accept2_cont
      split: list.splits if_splits)

lemma ascii_in_runes:
  "r < 0x80 \<Longrightarrow> r \<in> set (runes s) \<longleftrightarrow> (\<exists>c\<in>set s. byte c = r)"
proof (induction s rule: runes.induct)
  case (2 c cs)
  let ?w = "snd (decode_rune c cs)"
  have split: "set cs = set (take ?w cs) \<union> set (drop ?w cs)"
    by (metis append_take_drop_id set_append)
  have skip: "byte c' \<noteq> r" if "c' \<in> set (take ?w cs)" for c'
    using decode_rune_skips [OF that] 2(2) by simp
  have hd: "fst (decode_rune c cs) = r \<longleftrightarrow> byte c = r"
  proof (cases "byte c < (0x80 :: nat)")
    case False
    then show ?thesis using decode_rune_not_ascii [of c cs] 2(2) by auto
  qed (simp add: decode_rune_ascii)
  have "r \<in> set (runes (c # cs)) \<longleftrightarrow> byte c = r \<or> (\<exists>c'\<in>set (drop ?w cs). byte c' = r)"
    using 2 hd by auto
  also have "\<dots> \<longleftrightarrow> (\<exists>c'\<in>set (c # cs). byte c' = r)"
    using skip by (auto simp: split)
  finally show ?case .
qed simp

lemma runes_all_ascii: "\<forall>c\<in>set s. byte c < (0x80 :: nat) \<Longrightarrow> runes s = map of_char s"
  by (induction s) (simp_all del: runes.simps(2))

lemma runes_eq_Nil [simp]: "runes s = [] \<longleftrightarrow> s = []"
  by (cases s) auto

subsection \<open>Encoding\<close>

text \<open>\<open>utf8.AppendRune\<close>: surrogates and values out of range are written as U+FFFD.\<close>

fun encode_valid :: "nat \<Rightarrow> string" where
  "encode_valid r =
     (if r < 0x80 then [char_of r]
      else if r < 0x800 then [char_of (0xC0 + r div 64), char_of (0x80 + r mod 64)]
      else if r < 0x10000 then
        [char_of (0xE0 + r div 4096), char_of (0x80 + r div 64 mod 64), char_of (0x80 + r mod 64)]
      else
        [char_of (0xF0 + r div 262144), char_of (0x80 + r div 4096 mod 64),
         char_of (0x80 + r div 64 mod 64), char_of (0x80 + r mod 64)])"

definition encode_rune :: "nat \<Rightarrow> string" where
  "encode_rune r =
     encode_valid (if 0x10FFFF < r \<or> (0xD800 \<le> r \<and> r \<le> 0xDFFF) then rune_error else r)"

lemma byte_char_of [simp]: "byte (char_of n :: char) = (n mod 256 :: nat)"
  by simp

lemma encode_high:
  assumes "0x80 \<le> r" and "c \<in> set (encode_rune r)"
  shows "0x80 \<le> (byte c :: nat)"
proof -
  have "0x80 \<le> (byte c :: nat)" if "0x80 \<le> r'" "r' \<le> 0x10FFFF" "c \<in> set (encode_valid r')" for r'
  proof -
    have "x < 0x40 \<Longrightarrow> (0xC0 + x) mod 256 = 0xC0 + x" "y < 0x20 \<Longrightarrow> (0xE0 + y) mod 256 = 0xE0 + y"
      "z < 0x10 \<Longrightarrow> (0xF0 + z) mod 256 = 0xF0 + z" "(0x80 + u mod 64) mod 256 = 0x80 + u mod 64"
      for x y z u :: nat
      by (auto intro!: mod_less)
    then show ?thesis using that by (auto split: if_splits)
  qed
  moreover define r' where "r' = (if 0x10FFFF < r \<or> (0xD800 \<le> r \<and> r \<le> 0xDFFF) then rune_error else r)"
  moreover have "0x80 \<le> r'" "r' \<le> 0x10FFFF"
    using assms(1) by (auto simp: r'_def rune_error_def)
  moreover have "encode_rune r = encode_valid r'" by (simp add: encode_rune_def r'_def)
  ultimately show ?thesis using assms(2) by (simp del: encode_valid.simps)
qed

subsection \<open>Character classes\<close>

text \<open>\<open>unicode.IsControl\<close> (category Cc) and \<open>unicode.IsSpace\<close> (property White_Space).\<close>

definition is_control :: "nat \<Rightarrow> bool" where
  "is_control r \<longleftrightarrow> r < 0x20 \<or> (0x7F \<le> r \<and> r \<le> 0x9F)"

definition space_runes :: "nat list" where
  "space_runes =
     [0x09, 0x0A, 0x0B, 0x0C, 0x0D, 0x20, 0x85, 0xA0, 0x1680,
      0x2000, 0x2001, 0x2002, 0x2003, 0x2004, 0x2005, 0x2006, 0x2007, 0x2008, 0x2009, 0x200A,
      0x2028, 0x2029, 0x202F, 0x205F, 0x3000]"

text \<open>The loop \<open>for _, r := range s\<close> that looks for a control character.\<close>

definition has_control :: "string \<Rightarrow> bool" where
  "has_control s \<longleftrightarrow> list_ex is_control (runes s)"

lemma has_control_ascii:
  assumes "c \<in> set s" and "byte c < (0x20 :: nat) \<or> byte c = (0x7F :: nat)"
  shows "has_control s"
proof -
  have "byte c < (0x80 :: nat)" using assms(2) by auto
  then have "byte c \<in> set (runes s)" using assms(1) ascii_in_runes by blast
  then show ?thesis
    using assms(2) by (auto simp: has_control_def list_ex_iff is_control_def intro!: bexI [of _ "byte c"])
qed

text \<open>\<open>strings.TrimSpace\<close>. UTF-8 is self-synchronising: a string begins (ends) with the
  rune \<open>r\<close> exactly when its bytes begin (end) with the encoding of \<open>r\<close>, so trimming
  strips encodings.\<close>

function strip_prefixes :: "string list \<Rightarrow> string \<Rightarrow> string" where
  "strip_prefixes ws s =
     (case find (\<lambda>w. w \<noteq> [] \<and> has_prefix s w) ws of
        None \<Rightarrow> s
      | Some w \<Rightarrow> strip_prefixes ws (drop (length w) s))"
  by pat_completeness auto
termination
  by (relation "measure (\<lambda>(_, s). length s)")
    (auto simp: find_Some_iff has_prefix_iff intro!: diff_less)

declare strip_prefixes.simps [simp del]

definition trim_space :: "string \<Rightarrow> string" where
  "trim_space s =
     (let ws = map encode_rune space_runes
      in rev (strip_prefixes (map rev ws) (rev (strip_prefixes ws s))))"

text \<open>Sizes: of what is encoded, and of what is decoded.\<close>

lemma length_encode_rune: "length (encode_rune r) \<le> 4"
  by (simp add: encode_rune_def)

lemma length_encode_runes: "length (concat (map encode_rune rs)) \<le> 4 * length rs"
  using length_encode_rune by (induction rs) (simp_all add: add_le_mono)

lemma decode_rune_width:
  assumes "decode_rune c cs = (r, w)"
  shows "w \<le> length cs" and "0x80 \<le> r \<Longrightarrow> r \<noteq> rune_error \<or> w \<noteq> 0 \<Longrightarrow> 1 \<le> w" and "0x10000 \<le> r \<Longrightarrow> 2 \<le> w"
proof -
  have "x mod 32 * 64 + y mod 64 < (0x10000 :: nat)" for x y :: nat
    using mod_less_divisor [of 32 x] mod_less_divisor [of 64 y] by linarith
  then show "w \<le> length cs" "0x80 \<le> r \<Longrightarrow> r \<noteq> rune_error \<or> w \<noteq> 0 \<Longrightarrow> 1 \<le> w" "0x10000 \<le> r \<Longrightarrow> 2 \<le> w"
    using assms
    by (auto simp: decode_rune_def Let_def rune_error_def not_le split: if_splits list.splits)
qed

text \<open>Decoding what was encoded.\<close>

lemma encode_offsets:
  fixes x :: nat
  shows "x < 32 \<Longrightarrow> (0xC0 + x) mod 256 = 0xC0 + x \<and> (0xC0 + x) mod 32 = x"
    and "x < 16 \<Longrightarrow> (0xE0 + x) mod 256 = 0xE0 + x \<and> (0xE0 + x) mod 16 = x"
    and "x < 8 \<Longrightarrow> (0xF0 + x) mod 256 = 0xF0 + x \<and> (0xF0 + x) mod 8 = x"
    and "x < 64 \<Longrightarrow> (0x80 + x) mod 256 = 0x80 + x \<and> (0x80 + x) mod 64 = x"
  using mod_block [of 6 32 "0xC0 + x"] mod_block [of 14 16 "0xE0 + x"] mod_block [of 30 8 "0xF0 + x"]
    mod_block [of 2 64 "0x80 + x"]
  by simp_all

lemma runes_of_digits:
  fixes r :: nat
  shows "r div 64 * 64 + r mod 64 = r"
    and "r div 4096 * 4096 + r div 64 mod 64 * 64 + r mod 64 = r"
    and "r div 262144 * 262144 + r div 4096 mod 64 * 4096 + r div 64 mod 64 * 64 + r mod 64 = r"
proof -
  have d: "r div 4096 = r div 64 div 64" "r div 262144 = r div 64 div 64 div 64"
    by (simp_all add: div_mult2_eq [symmetric])
  have digits: "n div 64 * 64 + n mod 64 = n" for n :: nat by simp
  show "r div 64 * 64 + r mod 64 = r" by (rule digits)
  have two: "a * 4096 + b * 64 + c = (a * 64 + b) * 64 + c"
    and three: "a * 262144 + e * 4096 + b * 64 + c = ((a * 64 + e) * 64 + b) * 64 + c" for a b c e :: nat
    by simp_all
  show "r div 4096 * 4096 + r div 64 mod 64 * 64 + r mod 64 = r"
    unfolding d two digits ..
  show "r div 262144 * 262144 + r div 4096 mod 64 * 4096 + r div 64 mod 64 * 64 + r mod 64 = r"
    unfolding d three digits ..
qed

definition repaired :: "nat \<Rightarrow> nat" where
  "repaired r = (if 0x10FFFF < r \<or> (0xD800 \<le> r \<and> r \<le> 0xDFFF) then rune_error else r)"

lemma repaired_range: "repaired r \<le> 0x10FFFF" "\<not> (0xD800 \<le> repaired r \<and> repaired r \<le> 0xDFFF)"
  by (auto simp: repaired_def rune_error_def)

lemma decode_encode_valid:
  assumes "r \<le> 0x10FFFF" and "\<not> (0xD800 \<le> r \<and> r \<le> 0xDFFF)"
  shows "\<exists>c cs. encode_valid r = c # cs \<and> decode_rune c (cs @ s) = (r, length cs)"
proof -
  have m: "r mod 64 < 64" "r div 64 mod 64 < 64" "r div 4096 mod 64 < 64" by simp_all
  note cont = m [THEN encode_offsets(4)]
  have le: "r mod 64 \<le> 63" "r div 64 mod 64 \<le> 63" using m by linarith+
  consider "r < 0x80" | "0x80 \<le> r" "r < 0x800" | "0x800 \<le> r" "r < 0x10000" | "0x10000 \<le> r" by linarith
  then show ?thesis
  proof cases
    case 1
    then show ?thesis by (simp add: decode_rune_def)
  next
    case 2
    then have d: "2 \<le> r div 64" "r div 64 < 32" by (simp_all add: div_less_iff_less_mult less_eq_div_iff_mult_less_eq)
    have "encode_valid r = [char_of (0xC0 + r div 64), char_of (0x80 + r mod 64)]" using 2 by simp
    then show ?thesis
      using d runes_of_digits(1) [of r]
      by (simp add: encode_offsets(1) [OF d(2)] cont(1) le decode_rune_def is_cont_def Let_def del: encode_valid.simps)
  next
    case 3
    then have d: "r div 4096 < 16" by (simp add: div_less_iff_less_mult)
    have e: "encode_valid r = [char_of (0xE0 + r div 4096), char_of (0x80 + r div 64 mod 64), char_of (0x80 + r mod 64)]"
      using 3 by simp
    have "accept2 (0xE0 + r div 4096) (0x80 + r div 64 mod 64)"
    proof -
      have "r div 4096 = 0 \<Longrightarrow> 32 \<le> r div 64 mod 64" "r div 4096 = 13 \<Longrightarrow> r div 64 mod 64 < 32"
        using 3 assms(2) runes_of_digits(2) [of r] m(1,2) by linarith+
      with m(2) d show ?thesis by (auto simp: accept2_def is_cont_def)
    qed
    with e d show ?thesis
      using runes_of_digits(2) [of r]
      by (simp add: encode_offsets(2) [OF d] cont(1,2) le decode_rune_def is_cont_def Let_def del: encode_valid.simps)
  next
    case 4
    have d: "r div 262144 \<le> 4" using assms(1) runes_of_digits(3) [of r] by linarith
    then have d': "r div 262144 < 8" by simp
    have e: "encode_valid r = [char_of (0xF0 + r div 262144), char_of (0x80 + r div 4096 mod 64),
        char_of (0x80 + r div 64 mod 64), char_of (0x80 + r mod 64)]"
      using 4 by simp
    have "accept2 (0xF0 + r div 262144) (0x80 + r div 4096 mod 64)"
    proof -
      have "r div 262144 = 0 \<Longrightarrow> 16 \<le> r div 4096 mod 64" "r div 262144 = 4 \<Longrightarrow> r div 4096 mod 64 < 16"
        using 4 assms(1) runes_of_digits(3) [of r] m by linarith+
      with m(3) show ?thesis by (auto simp: accept2_def is_cont_def)
    qed
    with e d show ?thesis
      using runes_of_digits(3) [of r]
      by (simp add: encode_offsets(3) [OF d'] cont le decode_rune_def is_cont_def Let_def del: encode_valid.simps)
  qed
qed

lemma decode_encode: "\<exists>c cs. encode_rune r = c # cs \<and> decode_rune c (cs @ s) = (repaired r, length cs)"
  using decode_encode_valid [OF repaired_range, of r s]
  by (simp add: encode_rune_def repaired_def [symmetric] del: encode_valid.simps)

end
