(* ===== verification/Logging.thy ===== *)
theory Logging
  imports Go_Utf8
begin

text \<open>
  \<open>internal/logging\<close>: the five levels, their names, and the threshold; and the
  quoting (\<open>strconv.Quote\<close>, \<open>%q\<close>) the program applies to untrusted values before they
  reach a log.
\<close>

subsection \<open>Levels\<close>

type_synonym level = int

definition LevelTrace :: level where "LevelTrace = -8"
definition LevelDebug :: level where "LevelDebug = -4"
definition LevelInfo :: level where "LevelInfo = 0"
definition LevelWarn :: level where "LevelWarn = 4"
definition LevelError :: level where "LevelError = 8"

lemmas level_defs = LevelTrace_def LevelDebug_def LevelInfo_def LevelWarn_def LevelError_def

definition level_names :: "(string \<times> level) list" where
  "level_names =
     [(''TRACE'', LevelTrace), (''DEBUG'', LevelDebug), (''INFO'', LevelInfo),
      (''WARN'', LevelWarn), (''ERROR'', LevelError)]"

text \<open>\<open>strings.ToUpper\<close>, rune by rune, exact where the result is ASCII: outside ASCII only
  U+0131 (dotless i) and U+017F (long s) have an ASCII upper case.\<close>

definition upper_rune :: "nat \<Rightarrow> nat" where
  "upper_rune r =
     (if 0x61 \<le> r \<and> r \<le> 0x7A then r - 0x20
      else if r = 0x131 then 0x49
      else if r = 0x17F then 0x53
      else r)"

definition to_upper_runes :: "string \<Rightarrow> nat list" where
  "to_upper_runes s = map upper_rune (runes s)"

definition parse_level :: "string \<Rightarrow> level option" where
  "parse_level name =
     map_option snd
       (find (\<lambda>(n, _). to_upper_runes (trim_space name) = map of_char n) level_names)"

definition valid_level_name :: "string \<Rightarrow> bool" where
  "valid_level_name name \<longleftrightarrow> parse_level name \<noteq> None"

definition level_name :: "level \<Rightarrow> string" where
  "level_name l =
     (if l < LevelDebug then ''TRACE''
      else if l < LevelInfo then ''DEBUG''
      else if l < LevelWarn then ''INFO''
      else if l < LevelError then ''WARN''
      else ''ERROR'')"

text \<open>The threshold of the logger \<open>New\<close> builds: an unknown name falls back to INFO.\<close>

definition logger_threshold :: "string \<Rightarrow> level" where
  "logger_threshold level = (case parse_level level of None \<Rightarrow> LevelInfo | Some l \<Rightarrow> l)"

definition enabled :: "level \<Rightarrow> level \<Rightarrow> bool" where
  "enabled threshold l \<longleftrightarrow> threshold \<le> l"

lemma level_name_of_table: "(n, l) \<in> set level_names \<Longrightarrow> level_name l = n"
  by (auto simp: level_names_def level_name_def level_defs)

lemma parse_level_in_table:
  "parse_level name = Some l \<Longrightarrow> \<exists>n. (n, l) \<in> set level_names"
  by (auto simp: parse_level_def find_Some_iff set_conv_nth)

lemma level_name_in_table: "\<exists>l'. (level_name l, l') \<in> set level_names"
  by (auto simp: level_name_def level_names_def)

lemma parse_level_name: "parse_level (level_name l) \<noteq> None"
proof -
  have "parse_level ''TRACE'' = Some LevelTrace" "parse_level ''DEBUG'' = Some LevelDebug"
    "parse_level ''INFO'' = Some LevelInfo" "parse_level ''WARN'' = Some LevelWarn"
    "parse_level ''ERROR'' = Some LevelError"
    by code_simp+
  then show ?thesis by (simp add: level_name_def)
qed

subsection \<open>Quoting\<close>

fun hex_digit :: "nat \<Rightarrow> char" where
  "hex_digit n = (if n < 10 then char_of (0x30 + n) else char_of (0x57 + n))"

text \<open>\<open>n\<close> lower-case hex digits of \<open>r\<close>.\<close>

fun hex_digits :: "nat \<Rightarrow> nat \<Rightarrow> string" where
  "hex_digits 0 r = []"
| "hex_digits (Suc n) r = hex_digits n (r div 16) @ [hex_digit (r mod 16)]"

text \<open>\<open>strconv.IsPrint\<close>: spelled out for Latin-1, a table of the Go runtime
  (\<open>is_print\<close>) beyond it.\<close>

definition printable :: "(nat \<Rightarrow> bool) \<Rightarrow> nat \<Rightarrow> bool" where
  "printable is_print r =
     (if r \<le> 0xFF then (0x20 \<le> r \<and> r < 0x7F) \<or> (0xA1 \<le> r \<and> r \<noteq> 0xAD)
      else is_print r)"

definition escape_rune :: "(nat \<Rightarrow> bool) \<Rightarrow> nat \<Rightarrow> string" where
  "escape_rune is_print r =
     (let bs = char_of (0x5C :: nat) in
      if r = 0x22 \<or> r = 0x5C then [bs, char_of r]
      else if printable is_print r then encode_rune r
      else if r = 0x07 then [bs, CHR ''a'']
      else if r = 0x08 then [bs, CHR ''b'']
      else if r = 0x0C then [bs, CHR ''f'']
      else if r = 0x0A then [bs, CHR ''n'']
      else if r = 0x0D then [bs, CHR ''r'']
      else if r = 0x09 then [bs, CHR ''t'']
      else if r = 0x0B then [bs, CHR ''v'']
      else if r < 0x20 \<or> r = 0x7F then bs # CHR ''x'' # hex_digits 2 r
      else if r < 0x10000 then bs # CHR ''u'' # hex_digits 4 r
      else bs # CHR ''U'' # hex_digits 8 r)"

text \<open>\<open>strconv.Quote\<close>: a byte that starts no valid rune is written \<open>\xNN\<close>.\<close>

function quote_body :: "(nat \<Rightarrow> bool) \<Rightarrow> string \<Rightarrow> string" where
  "quote_body is_print [] = []"
| "quote_body is_print (c # cs) =
     (case decode_rune c cs of (r, w) \<Rightarrow>
        (if r = rune_error \<and> w = 0
         then char_of (0x5C :: nat) # CHR ''x'' # hex_digits 2 (byte c)
         else escape_rune is_print r) @ quote_body is_print (drop w cs))"
  by pat_completeness auto
termination
  by (relation "measure (\<lambda>(_, s). length s)") auto

definition quote :: "(nat \<Rightarrow> bool) \<Rightarrow> string \<Rightarrow> string" where
  "quote is_print s = [char_of (0x22 :: nat)] @ quote_body is_print s @ [char_of (0x22 :: nat)]"

text \<open>What is quoted can be written to a line of a log: it holds no control byte.\<close>

definition visible :: "char \<Rightarrow> bool" where
  "visible c \<longleftrightarrow> 0x20 \<le> (byte c :: nat) \<and> byte c \<noteq> (0x7F :: nat)"

lemma visible_hex_digits: "c \<in> set (hex_digits n r) \<Longrightarrow> visible c"
  by (induction n r arbitrary: c rule: hex_digits.induct)
    (auto simp: visible_def split: if_splits)

lemma visible_encode:
  assumes "printable is_print r" and "c \<in> set (encode_rune r)"
  shows "visible c"
proof (cases "r < 0x80")
  case True
  then show ?thesis using assms by (auto simp: printable_def encode_rune_def visible_def)
next
  case False
  then have "0x80 \<le> (byte c :: nat)" using encode_high [of r c] assms(2) by simp
  then show ?thesis by (simp add: visible_def)
qed

lemma visible_escape: "c \<in> set (escape_rune is_print r) \<Longrightarrow> visible c"
  by (auto simp: escape_rune_def Let_def visible_encode visible_hex_digits split: if_splits)
    (auto simp: visible_def)

lemma visible_quote_body: "c \<in> set (quote_body is_print s) \<Longrightarrow> visible c"
proof (induction is_print s rule: quote_body.induct)
  case (2 is_print d ds)
  obtain r w where "decode_rune d ds = (r, w)" by fastforce
  with 2 show ?case
    by (auto simp: visible_escape visible_hex_digits split: if_splits) (auto simp: visible_def)
qed simp

lemma visible_quote: "c \<in> set (quote is_print s) \<Longrightarrow> visible c"
  by (auto simp: quote_def dest: visible_quote_body) (auto simp: visible_def)

lemma length_hex_digits: "length (hex_digits n r) = n"
  by (induction n r rule: hex_digits.induct) simp_all

lemma length_escape_rune:
  "length (escape_rune is_print r) \<le> (if r < 0x80 then 4 else if r < 0x10000 then 6 else 10)"
proof -
  have "r < 0x80 \<Longrightarrow> length (encode_rune r) \<le> 1" by (simp add: encode_rune_def)
  moreover note length_encode_rune [of r]
  ultimately show ?thesis by (auto simp: escape_rune_def length_hex_digits Let_def printable_def)
qed

text \<open>No byte takes more than four when it is quoted.\<close>

lemma length_quote_body: "length (quote_body is_print s) \<le> 4 * length s"
proof (induction is_print s rule: quote_body.induct)
  case (2 is_print c cs)
  obtain r w where d: "decode_rune c cs = (r, w)" by fastforce
  note w = decode_rune_width [OF d]
  define out where "out = (if r = rune_error \<and> w = 0 then char_of (0x5C :: nat) # CHR ''x'' # hex_digits 2 (byte c)
    else escape_rune is_print r)"
  have "length out \<le> 4 * Suc w"
    using length_escape_rune [of is_print r] w(2,3) by (auto simp: out_def length_hex_digits split: if_splits)
  moreover have "length (quote_body is_print (drop w cs)) \<le> 4 * (length cs - w)"
    using 2 [OF d [symmetric]] by simp
  moreover have "quote_body is_print (c # cs) = out @ quote_body is_print (drop w cs)" by (simp add: d out_def)
  ultimately show ?case using w(1) by simp
qed simp

text \<open>And no rune takes more than ten, when it was encoded before.\<close>

lemma quote_encoded:
  "quote_body is_print (encode_rune r @ s) = escape_rune is_print (repaired r) @ quote_body is_print s"
proof -
  obtain c cs where c: "encode_rune r = c # cs" "decode_rune c (cs @ s) = (repaired r, length cs)"
    using decode_encode by blast
  have "encode_rune r = encode_valid (repaired r)"
    by (simp add: encode_rune_def repaired_def del: encode_valid.simps)
  moreover have "length (encode_valid rune_error) = 3" by (simp add: rune_error_def)
  ultimately have "repaired r = rune_error \<Longrightarrow> length (c # cs) = 3" using c(1) by metis
  with c(2) show ?thesis by (auto simp: c(1) simp del: encode_valid.simps)
qed

lemma length_quote_encoded:
  "length (quote_body is_print (concat (map encode_rune rs))) \<le> 10 * length rs"
proof (induction rs)
  case (Cons r rs)
  have "length (escape_rune is_print (repaired r)) \<le> 10"
    using length_escape_rune [of is_print "repaired r"] by (simp split: if_splits)
  with Cons show ?case by (simp add: quote_encoded)
qed simp

end
