(* ===== verification/Go_Json.thy ===== *)
theory Go_Json
  imports Go_Utf8
begin

text \<open>
  \<open>encoding/json\<close> as the program uses it: \<open>json.Unmarshal\<close> of a body into a
  struct. Three stages: a lexer that reads the bytes one by one in the scanner's
  states, a parser of the tokens with an explicit stack of open containers (as the
  scanner's \<open>parseState\<close>, with its depth limit), and decoders into Go values that
  follow \<open>Unmarshal\<close>'s rules (case-folded keys, \<open>null\<close> leaves a value alone, a type
  mismatch anywhere makes the call fail).
\<close>

subsection \<open>Lexer\<close>

datatype token =
    TOpenObj | TCloseObj | TOpenArr | TCloseArr | TColon | TComma
  | TNull | TBool bool
  | TNum string
  | TStr string \<comment> \<open>the raw bytes between the quotes\<close>

text \<open>Scanner states. Inside a string or a number the bytes read so far are kept,
  last one first.\<close>

datatype num_state = NNeg | NZero | NInt | NDot | NFrac | NE | NESign | NExp

datatype lex_state =
    LStart
  | LStr string
  | LEsc string
  | LHex nat string \<comment> \<open>hex digits still expected\<close>
  | LNum num_state string
  | LWord string token \<comment> \<open>the rest of \<open>true\<close>, \<open>false\<close> or \<open>null\<close>\<close>

definition is_json_space :: "char \<Rightarrow> bool" where
  "is_json_space c \<longleftrightarrow> byte c \<in> {0x20, 0x09, 0x0D, 0x0A :: nat}"

definition is_digit :: "char \<Rightarrow> bool" where
  "is_digit c \<longleftrightarrow> (0x30 :: nat) \<le> byte c \<and> byte c \<le> (0x39 :: nat)"

fun hex_val :: "char \<Rightarrow> nat option" where
  "hex_val c =
     (let b = byte c in
      if 0x30 \<le> b \<and> b \<le> 0x39 then Some (b - 0x30)
      else if 0x41 \<le> b \<and> b \<le> 0x46 then Some (b - 0x37)
      else if 0x61 \<le> b \<and> b \<le> 0x66 then Some (b - 0x57)
      else None)"

definition backslash :: char where
  "backslash = char_of (0x5C :: nat)"

definition dquote :: char where
  "dquote = char_of (0x22 :: nat)"

text \<open>What a byte does where a value or punctuation may start.\<close>

definition lex_start :: "char \<Rightarrow> (token list \<times> lex_state) option" where
  "lex_start c =
     (if is_json_space c then Some ([], LStart)
      else if c = CHR ''{'' then Some ([TOpenObj], LStart)
      else if c = CHR ''}'' then Some ([TCloseObj], LStart)
      else if c = CHR ''['' then Some ([TOpenArr], LStart)
      else if c = CHR '']'' then Some ([TCloseArr], LStart)
      else if c = CHR '':'' then Some ([TColon], LStart)
      else if c = CHR '','' then Some ([TComma], LStart)
      else if c = dquote then Some ([], LStr [])
      else if c = CHR ''-'' then Some ([], LNum NNeg [c])
      else if c = CHR ''0'' then Some ([], LNum NZero [c])
      else if is_digit c then Some ([], LNum NInt [c])
      else if c = CHR ''t'' then Some ([], LWord ''rue'' (TBool True))
      else if c = CHR ''f'' then Some ([], LWord ''alse'' (TBool False))
      else if c = CHR ''n'' then Some ([], LWord ''ull'' TNull)
      else None)"

text \<open>The number grammar: the next state on a byte that continues the number.\<close>

definition num_next :: "num_state \<Rightarrow> char \<Rightarrow> num_state option" where
  "num_next st c =
     (let dot = (c = CHR ''.''); ex = (c = CHR ''e'' \<or> c = CHR ''E'')
      in case st of
           NNeg \<Rightarrow> if c = CHR ''0'' then Some NZero else if is_digit c then Some NInt else None
         | NZero \<Rightarrow> if dot then Some NDot else if ex then Some NE else None
         | NInt \<Rightarrow> if is_digit c then Some NInt else if dot then Some NDot
                   else if ex then Some NE else None
         | NDot \<Rightarrow> if is_digit c then Some NFrac else None
         | NFrac \<Rightarrow> if is_digit c then Some NFrac else if ex then Some NE else None
         | NE \<Rightarrow> if c = CHR ''+'' \<or> c = CHR ''-'' then Some NESign
                 else if is_digit c then Some NExp else None
         | NESign \<Rightarrow> if is_digit c then Some NExp else None
         | NExp \<Rightarrow> if is_digit c then Some NExp else None)"

fun num_complete :: "num_state \<Rightarrow> bool" where
  "num_complete st = (st = NZero \<or> st = NInt \<or> st = NFrac \<or> st = NExp)"

fun lex_step :: "lex_state \<Rightarrow> char \<Rightarrow> (token list \<times> lex_state) option" where
  "lex_step LStart c = lex_start c"
| "lex_step (LStr acc) c =
     (if c = dquote then Some ([TStr (rev acc)], LStart)
      else if c = backslash then Some ([], LEsc (c # acc))
      else if byte c < (0x20 :: nat) then None
      else Some ([], LStr (c # acc)))"
| "lex_step (LEsc acc) c =
     (if c \<in> {CHR ''b'', CHR ''f'', CHR ''n'', CHR ''r'', CHR ''t'', CHR ''/'', backslash, dquote}
      then Some ([], LStr (c # acc))
      else if c = CHR ''u'' then Some ([], LHex 4 (c # acc))
      else None)"
| "lex_step (LHex n acc) c =
     (if hex_val c = None then None
      else if n \<le> 1 then Some ([], LStr (c # acc))
      else Some ([], LHex (n - 1) (c # acc)))"
| "lex_step (LNum st acc) c =
     (case num_next st c of
        Some st' \<Rightarrow> Some ([], LNum st' (c # acc))
      | None \<Rightarrow>
          if num_complete st
          then map_option (\<lambda>(ts, s). (TNum (rev acc) # ts, s)) (lex_start c)
          else None)"
| "lex_step (LWord w tok) c =
     (case w of
        [] \<Rightarrow> None
      | x # xs \<Rightarrow> if c \<noteq> x then None
                  else if xs = [] then Some ([tok], LStart)
                  else Some ([], LWord xs tok))"

fun lex_end :: "lex_state \<Rightarrow> token list option" where
  "lex_end LStart = Some []"
| "lex_end (LNum st acc) = (if num_complete st then Some [TNum (rev acc)] else None)"
| "lex_end _ = None"

fun lex_from :: "lex_state \<Rightarrow> string \<Rightarrow> token list option" where
  "lex_from st [] = lex_end st"
| "lex_from st (c # cs) =
     (case lex_step st c of
        None \<Rightarrow> None
      | Some (ts, st') \<Rightarrow> map_option (append ts) (lex_from st' cs))"

definition lex :: "string \<Rightarrow> token list option" where
  "lex s = lex_from LStart s"

subsection \<open>String literals\<close>

text \<open>The code unit of \<open>\uXXXX\<close>, given the four characters.\<close>

definition hex4 :: "string \<Rightarrow> nat option" where
  "hex4 s =
     (case map hex_val s of
        [Some a, Some b, Some c, Some d] \<Rightarrow> Some (a * 4096 + b * 256 + c * 16 + d)
      | _ \<Rightarrow> None)"

definition is_surrogate :: "nat \<Rightarrow> bool" where
  "is_surrogate r \<longleftrightarrow> 0xD800 \<le> r \<and> r \<le> 0xDFFF"

text \<open>A second \<open>\uXXXX\<close> at the front of what follows the first one.\<close>

definition next_unit :: "string \<Rightarrow> nat option" where
  "next_unit s =
     (case s of
        b # u # rest \<Rightarrow> if b = backslash \<and> u = CHR ''u'' then hex4 (take 4 rest) else None
      | _ \<Rightarrow> None)"

definition decode_pair :: "nat \<Rightarrow> nat \<Rightarrow> nat option" where
  "decode_pair hi lo =
     (if 0xD800 \<le> hi \<and> hi \<le> 0xDBFF \<and> 0xDC00 \<le> lo \<and> lo \<le> 0xDFFF
      then Some ((hi - 0xD800) * 1024 + (lo - 0xDC00) + 0x10000) else None)"

definition simple_escape :: "char \<Rightarrow> char" where
  "simple_escape c =
     (if c = CHR ''b'' then char_of (0x08 :: nat)
      else if c = CHR ''f'' then char_of (0x0C :: nat)
      else if c = CHR ''n'' then char_of (0x0A :: nat)
      else if c = CHR ''r'' then char_of (0x0D :: nat)
      else if c = CHR ''t'' then char_of (0x09 :: nat)
      else c)"

text \<open>The value of a string literal the lexer accepted: escapes resolved, an unpaired
  surrogate and every byte that is not valid UTF-8 replaced by U+FFFD.\<close>

function unquote :: "string \<Rightarrow> string" where
  "unquote [] = []"
| "unquote (c # cs) =
     (if c = backslash then
        (case cs of
           [] \<Rightarrow> []
         | e # es \<Rightarrow>
             if e \<noteq> CHR ''u'' then simple_escape e # unquote es
             else
               (let r = (case hex4 (take 4 es) of None \<Rightarrow> rune_error | Some r \<Rightarrow> r);
                    es' = drop 4 es
                in if is_surrogate r then
                     (case Option.bind (next_unit es') (decode_pair r) of
                        Some r' \<Rightarrow> encode_rune r' @ unquote (drop 6 es')
                      | None \<Rightarrow> encode_rune rune_error @ unquote es')
                   else encode_rune r @ unquote es'))
      else encode_rune (fst (decode_rune c cs)) @ unquote (drop (snd (decode_rune c cs)) cs))"
  by pat_completeness auto
termination
  by (relation "measure length") auto

declare unquote.simps(2) [simp del]

subsection \<open>Parser\<close>

datatype json =
    JNull
  | JBool bool
  | JNum string
  | JStr string
  | JArr "json list"
  | JObj "(string \<times> json) list"

text \<open>Open containers, innermost first; their contents so far, last one first.\<close>

datatype frame = FArr "json list" | FObj "(string \<times> json) list" string

datatype parse_state =
    PValue \<comment> \<open>a value must follow\<close>
  | PFirstElem \<comment> \<open>after \<open>[\<close>: a value or \<open>]\<close>\<close>
  | PFirstKey \<comment> \<open>after \<open>{\<close>: a key or \<open>}\<close>\<close>
  | PKey "(string \<times> json) list" \<comment> \<open>after a comma in an object: a key\<close>
  | PColon "(string \<times> json) list" string
  | PDone json \<comment> \<open>a value has just ended\<close>

definition max_depth :: nat where
  "max_depth = 10000"

fun parse_value_token :: "frame list \<Rightarrow> token \<Rightarrow> (frame list \<times> parse_state) option" where
  "parse_value_token fs TNull = Some (fs, PDone JNull)"
| "parse_value_token fs (TBool b) = Some (fs, PDone (JBool b))"
| "parse_value_token fs (TNum n) = Some (fs, PDone (JNum n))"
| "parse_value_token fs (TStr s) = Some (fs, PDone (JStr (unquote s)))"
| "parse_value_token fs TOpenArr =
     (if length fs < max_depth then Some (FArr [] # fs, PFirstElem) else None)"
| "parse_value_token fs TOpenObj =
     (if length fs < max_depth then Some (FObj [] '''' # fs, PFirstKey) else None)"
| "parse_value_token fs _ = None"

fun parse_step :: "frame list \<Rightarrow> parse_state \<Rightarrow> token \<Rightarrow> (frame list \<times> parse_state) option" where
  "parse_step fs PValue t = parse_value_token fs t"
| "parse_step fs PFirstElem t =
     (if t = TCloseArr then (case fs of FArr [] # fs' \<Rightarrow> Some (fs', PDone (JArr [])) | _ \<Rightarrow> None)
      else parse_value_token fs t)"
| "parse_step fs PFirstKey t =
     (case fs of
        FObj kvs _ # fs' \<Rightarrow>
          (case t of
             TCloseObj \<Rightarrow> Some (fs', PDone (JObj []))
           | TStr k \<Rightarrow> Some (fs', PColon [] (unquote k))
           | _ \<Rightarrow> None)
      | _ \<Rightarrow> None)"
| "parse_step fs (PKey kvs) t =
     (case t of TStr k \<Rightarrow> Some (fs, PColon kvs (unquote k)) | _ \<Rightarrow> None)"
| "parse_step fs (PColon kvs k) t =
     (if t = TColon then Some (FObj kvs k # fs, PValue) else None)"
| "parse_step fs (PDone v) t =
     (case fs of
        [] \<Rightarrow> None
      | FArr es # fs' \<Rightarrow>
          (if t = TComma then Some (FArr (v # es) # fs', PValue)
           else if t = TCloseArr then Some (fs', PDone (JArr (rev (v # es))))
           else None)
      | FObj kvs k # fs' \<Rightarrow>
          (if t = TComma then Some (fs', PKey ((k, v) # kvs))
           else if t = TCloseObj then Some (fs', PDone (JObj (rev ((k, v) # kvs))))
           else None))"

fun parse_from :: "frame list \<Rightarrow> parse_state \<Rightarrow> token list \<Rightarrow> json option" where
  "parse_from fs st [] = (case (fs, st) of ([], PDone v) \<Rightarrow> Some v | _ \<Rightarrow> None)"
| "parse_from fs st (t # ts) =
     (case parse_step fs st t of
        None \<Rightarrow> None
      | Some (fs', st') \<Rightarrow> parse_from fs' st' ts)"

text \<open>A whole body: exactly one value, nothing but white space around it.\<close>

definition parse_json :: "string \<Rightarrow> json option" where
  "parse_json s = (case lex s of None \<Rightarrow> None | Some ts \<Rightarrow> parse_from [] PValue ts)"

subsection \<open>Decoding into Go values\<close>

text \<open>
  A decoder takes the JSON value and the Go value already in place and gives the new
  one; \<open>None\<close> is a type mismatch. (\<open>Unmarshal\<close> goes on after a mismatch but then
  returns an error, and the program drops the whole result on any error.)
\<close>

type_synonym 'a decoder = "json \<Rightarrow> 'a \<Rightarrow> 'a option"

fun dec_string :: "string decoder" where
  "dec_string JNull old = Some old"
| "dec_string (JStr s) old = Some s"
| "dec_string _ old = None"

fun dec_bool :: "bool decoder" where
  "dec_bool JNull old = Some old"
| "dec_bool (JBool b) old = Some b"
| "dec_bool _ old = None"

text \<open>A pointer: \<open>null\<close> makes it nil, any other value is decoded into its target.\<close>

definition dec_pointer :: "'a \<Rightarrow> 'a decoder \<Rightarrow> 'a option decoder" where
  "dec_pointer zero dec j old =
     (case j of
        JNull \<Rightarrow> Some None
      | _ \<Rightarrow> map_option Some (dec j (case old of None \<Rightarrow> zero | Some v \<Rightarrow> v)))"

text \<open>A slice: its length and its cells, those past the length included, since decoding a
  second array into it reuses the cells of the first.\<close>

datatype 'a go_slice = Slice (slice_len: nat) (slice_cells: "'a list")

definition elems :: "'a go_slice \<Rightarrow> 'a list" where
  "elems s = take (slice_len s) (slice_cells s)"

abbreviation nil_slice :: "'a go_slice" where
  "nil_slice \<equiv> Slice 0 []"

fun dec_cells :: "'a \<Rightarrow> 'a decoder \<Rightarrow> json list \<Rightarrow> 'a list \<Rightarrow> 'a list option" where
  "dec_cells zero dec [] cells = Some cells"
| "dec_cells zero dec (j # js) cells =
     (case dec j (case cells of [] \<Rightarrow> zero | c # _ \<Rightarrow> c) of
        None \<Rightarrow> None
      | Some v \<Rightarrow> map_option (Cons v) (dec_cells zero dec js (drop 1 cells)))"

fun dec_slice :: "'a \<Rightarrow> 'a decoder \<Rightarrow> 'a go_slice decoder" where
  "dec_slice zero dec JNull old = Some nil_slice"
| "dec_slice zero dec (JArr []) old = Some nil_slice"
| "dec_slice zero dec (JArr js) old =
     map_option (Slice (length js)) (dec_cells zero dec js (slice_cells old))"
| "dec_slice zero dec _ old = None"

lemma dec_cells_fresh:
  "dec_cells zero dec js [] = Some vs \<Longrightarrow> length vs = length js"
  by (induction js arbitrary: vs) (auto split: option.splits)

text \<open>\<open>map[string]string\<close>: \<open>null\<close> makes it nil, an object is added key by key, each value
  decoded into the empty string.\<close>

fun dec_entries :: "(string \<times> json) list \<Rightarrow> (string \<rightharpoonup> string) \<Rightarrow> (string \<rightharpoonup> string) option" where
  "dec_entries [] m = Some m"
| "dec_entries ((k, j) # kvs) m =
     (case dec_string j [] of None \<Rightarrow> None | Some v \<Rightarrow> dec_entries kvs (m(k \<mapsto> v)))"

fun dec_string_map :: "(string \<rightharpoonup> string) decoder" where
  "dec_string_map JNull old = Some Map.empty"
| "dec_string_map (JObj kvs) old = dec_entries kvs old"
| "dec_string_map _ old = None"

text \<open>
  Struct fields are found by their name under \<open>foldName\<close>: every rune is replaced by the
  smallest one of its case-folding orbit. The program's names are ASCII, and the only
  runes outside ASCII whose orbit meets ASCII are U+017F (long s) and U+212A (kelvin).
\<close>

definition fold_rune :: "nat \<Rightarrow> nat" where
  "fold_rune r =
     (if 0x61 \<le> r \<and> r \<le> 0x7A then r - 0x20
      else if r = 0x17F then 0x53
      else if r = 0x212A then 0x4B
      else r)"

definition key_is :: "string \<Rightarrow> string \<Rightarrow> bool" where
  "key_is name k \<longleftrightarrow> map fold_rune (runes k) = map fold_rune (runes name)"

lemma key_is_refl [simp]: "key_is name name"
  by (simp add: key_is_def)

text \<open>A struct: \<open>null\<close> leaves it alone, the members of an object are stored one after the
  other by \<open>store\<close> (which skips the keys it does not know).\<close>

fun dec_members :: "(string \<Rightarrow> 's decoder) \<Rightarrow> (string \<times> json) list \<Rightarrow> 's \<Rightarrow> 's option" where
  "dec_members store [] s = Some s"
| "dec_members store ((k, j) # kvs) s =
     (case store k j s of None \<Rightarrow> None | Some s' \<Rightarrow> dec_members store kvs s')"

fun dec_struct :: "(string \<Rightarrow> 's decoder) \<Rightarrow> 's decoder" where
  "dec_struct store JNull s = Some s"
| "dec_struct store (JObj kvs) s = dec_members store kvs s"
| "dec_struct store _ s = None"

text \<open>\<open>json.Unmarshal(body, &v)\<close> with \<open>v\<close> at its zero value.\<close>

definition unmarshal :: "'s decoder \<Rightarrow> 's \<Rightarrow> string \<Rightarrow> 's option" where
  "unmarshal dec zero body =
     (case parse_json body of None \<Rightarrow> None | Some j \<Rightarrow> dec j zero)"

lemma dec_members_append:
  "dec_members store (as @ bs) s =
     (case dec_members store as s of None \<Rightarrow> None | Some s' \<Rightarrow> dec_members store bs s')"
  by (induction as arbitrary: s) (auto split: option.splits)

lemma dec_members_skip:
  "(\<And>k j s. (k, j) \<in> set kvs \<Longrightarrow> store k j s = Some s) \<Longrightarrow> dec_members store kvs s = Some s"
  by (induction kvs) (auto split: option.splits)

end
