(* ===== verification/Docker_Types.thy ===== *)
theory Docker_Types
  imports Go_Json
begin

text \<open>
  The wire types of the authorization plugin protocol (\<open>internal/dockerapi/types.go\<close>).
  Bodies are byte strings; the headers are maps the program never reads.
\<close>

record authz_req =
  User :: string
  UserAuthNMethod :: string
  RequestMethod :: string
  RequestURI :: string
  RequestBody :: string
  RequestHeaders :: "string \<rightharpoonup> string"
  ResponseStatusCode :: int
  ResponseBody :: string
  ResponseHeaders :: "string \<rightharpoonup> string"

record authz_res =
  ResAllow :: bool
  ResMsg :: string
  ResErr :: string

record plugin_activate_res =
  Implements :: "string list"

text \<open>The zero value of \<open>AuthZReq\<close>.\<close>

definition zero_req :: authz_req where
  "zero_req =
     \<lparr>User = [], UserAuthNMethod = [], RequestMethod = [], RequestURI = [], RequestBody = [],
      RequestHeaders = Map.empty, ResponseStatusCode = 0, ResponseBody = [],
      ResponseHeaders = Map.empty\<rparr>"

end
