(* ===== verification/World.thy ===== *)
theory World
  imports Logging Docker_Types
begin

text \<open>
  What the program observes and causes outside its own memory: the clock (one reading
  per call of \<open>now\<close>), the log and metrics it emits, in order, and the state of the
  directory servers behind the datasources. A request context carries the
  \<open>requestInfo\<close> and the deadline attached to it.
\<close>

datatype event =
    Log level string "(string \<times> string) list" \<comment> \<open>message and attributes\<close>
  | TraceReq authz_req \<comment> \<open>the TRACE lines whose attribute is a whole struct\<close>
  | TraceRes authz_res
  | Metric string "(string \<times> string) list" int \<comment> \<open>instrument, labels, amount\<close>

record 'b world =
  clock :: "nat \<Rightarrow> int" \<comment> \<open>nanoseconds since Go's zero time\<close>
  ticks :: nat
  trace :: "event list"
  print_table :: "nat \<Rightarrow> bool"
  backend :: 'b

record go_ctx =
  ctx_request :: "(string \<times> string) option"
  ctx_deadline :: "int option"

definition background :: go_ctx where
  "background = \<lparr>ctx_request = None, ctx_deadline = None\<rparr>"

definition now :: "'b world \<Rightarrow> int \<times> 'b world" where
  "now w = (clock w (ticks w), w\<lparr>ticks := Suc (ticks w)\<rparr>)"

definition emit :: "event \<Rightarrow> 'b world \<Rightarrow> 'b world" where
  "emit ev w = w\<lparr>trace := trace w @ [ev]\<rparr>"

definition emit_all :: "event list \<Rightarrow> 'b world \<Rightarrow> 'b world" where
  "emit_all evs w = w\<lparr>trace := trace w @ evs\<rparr>"

lemma emit_fields [simp]:
  "backend (emit ev w) = backend w" "clock (emit ev w) = clock w"
  "ticks (emit ev w) = ticks w" "trace (emit ev w) = trace w @ [ev]"
  "print_table (emit ev w) = print_table w"
  by (simp_all add: emit_def)

lemma emit_all_fields [simp]:
  "backend (emit_all evs w) = backend w" "clock (emit_all evs w) = clock w"
  "ticks (emit_all evs w) = ticks w" "trace (emit_all evs w) = trace w @ evs"
  "print_table (emit_all evs w) = print_table w"
  by (simp_all add: emit_all_def)

lemma emit_all_Nil [simp]: "emit_all [] w = w"
  by (simp add: emit_all_def)

subsection \<open>Durations\<close>

text \<open>\<open>time.Time.Sub\<close> saturates at the range of \<open>time.Duration\<close>, an \<open>int64\<close>.\<close>

definition max_duration :: int where
  "max_duration = 2 ^ 63 - 1"

definition min_duration :: int where
  "min_duration = - (2 ^ 63)"

definition time_sub :: "int \<Rightarrow> int \<Rightarrow> int" where
  "time_sub a b = max min_duration (min max_duration (a - b))"

lemma time_sub_less:
  "min_duration < ttl \<Longrightarrow> ttl \<le> max_duration \<Longrightarrow> time_sub a b < ttl \<longleftrightarrow> a - b < ttl"
  by (auto simp: time_sub_def)


abbreviation (input) second :: int where "second \<equiv> 1000000000"
abbreviation (input) minute :: int where "minute \<equiv> 60 * second"

end
