(* ===== verification/Cache.thy ===== *)
theory Cache
  imports World
begin

text \<open>
  The caching decorator around every datasource (\<open>internal/datasources/cache.go\<close>, with
  the instruments of \<open>metrics.go\<close>). The bounded LRU it stores entries in is a library:
  its three operations are the argument \<open>ops\<close>, and the locale \<open>lru\<close> states what the
  code relies on. \<open>peek\<close> is what the LRU currently holds, without touching it.
\<close>

subsection \<open>Entries\<close>

type_synonym resolved = "(string list) go_map"

record cache_entry =
  entry_value :: resolved
  hasValue :: bool
  fetchedAt :: int
  negUntil :: int \<comment> \<open>0 is Go's zero time\<close>

definition identityVar :: string where
  "identityVar = ''IDENTITY''"

definition defaultCacheTTL :: int where
  "defaultCacheTTL = 10 * minute"

definition defaultNegativeCacheTTL :: int where
  "defaultNegativeCacheTTL = 30 * second"

definition defaultCacheSize :: nat where
  "defaultCacheSize = 4096"

definition errUnresolved :: go_error where
  "errUnresolved = ''datasources: identity did not resolve''"

text \<open>\<open>None\<close> when the entry cannot answer and the caller must go live.\<close>

definition servedFresh :: "cache_entry \<Rightarrow> int \<Rightarrow> int \<Rightarrow> resolved result option" where
  "servedFresh e t ttl =
     (if hasValue e \<and> time_sub t (fetchedAt e) < ttl then Some (Inr (entry_value e))
      else if \<not> hasValue e \<and> negUntil e \<noteq> 0 \<and> t < negUntil e then Some (Inl errUnresolved)
      else None)"

definition positive_entry :: "resolved \<Rightarrow> int \<Rightarrow> cache_entry" where
  "positive_entry v t = \<lparr>entry_value = v, hasValue = True, fetchedAt = t, negUntil = 0\<rparr>"

definition negative_entry :: "int \<Rightarrow> cache_entry" where
  "negative_entry t = \<lparr>entry_value = [], hasValue = False, fetchedAt = 0, negUntil = t\<rparr>"

subsection \<open>The LRU\<close>

record 'c lru_ops =
  lru_get :: "'c \<Rightarrow> string \<Rightarrow> cache_entry option \<times> 'c"
  lru_add :: "'c \<Rightarrow> string \<Rightarrow> cache_entry \<Rightarrow> 'c"
  lru_purge :: "'c \<Rightarrow> 'c"

locale lru =
  fixes ops :: "'c lru_ops" and peek :: "'c \<Rightarrow> string \<Rightarrow> cache_entry option"
  assumes get_result: "fst (lru_get ops c k) = peek c k"
    and get_keeps: "peek (snd (lru_get ops c k)) = peek c"
    and add_same: "peek (lru_add ops c k e) k = Some e"
    and add_other: "k' \<noteq> k \<Longrightarrow> peek (lru_add ops c k e) k' \<in> {None, peek c k'}"
    and purged: "peek (lru_purge ops c) k = None"

subsection \<open>The decorator\<close>

type_synonym 'b provider = "go_ctx \<Rightarrow> string go_map \<Rightarrow> 'b world \<Rightarrow> resolved result \<times> 'b world"

record ('c, 'b) cached_provider =
  cp_name :: string
  cp_typ :: string
  cp_ttl :: int
  cp_negTTL :: int
  cp_provider :: "'b provider"
  cp_cache :: 'c

text \<open>Making an instrument may fail; a meter says of each name with which error.\<close>

type_synonym meter = "string \<Rightarrow> go_error option"

fun make_instruments :: "meter \<Rightarrow> string list \<Rightarrow> go_error option" where
  "make_instruments meter [] = None"
| "make_instruments meter (name # names) =
     (case meter name of Some e \<Rightarrow> Some e | None \<Rightarrow> make_instruments meter names)"

definition newDatasourceMetrics :: "meter \<Rightarrow> go_error option" where
  "newDatasourceMetrics meter =
     make_instruments meter
       [''authzmtls.datasource.cache.hits'', ''authzmtls.datasource.cache.misses'',
        ''authzmtls.datasource.inflight'', ''authzmtls.datasource.resolve.duration'']"

definition decorated ::
  "string \<Rightarrow> string \<Rightarrow> int \<Rightarrow> int \<Rightarrow> 'b provider \<Rightarrow> 'c \<Rightarrow> ('c, 'b) cached_provider" where
  "decorated name typ cacheTTL negTTL p empty_cache =
     \<lparr>cp_name = name, cp_typ = typ,
      cp_ttl = (if cacheTTL \<le> 0 then defaultCacheTTL else cacheTTL),
      cp_negTTL = negTTL, cp_provider = p, cp_cache = empty_cache\<rparr>"

definition newCachedProviderWithClock ::
  "meter \<Rightarrow> string \<Rightarrow> string \<Rightarrow> int \<Rightarrow> int \<Rightarrow> 'b provider \<Rightarrow> 'c \<Rightarrow> ('c, 'b) cached_provider result" where
  "newCachedProviderWithClock meter name typ cacheTTL negTTL p empty_cache =
     (case newDatasourceMetrics meter of
        Some e \<Rightarrow> Inl e
      | None \<Rightarrow> Inr (decorated name typ cacheTTL negTTL p empty_cache))"

definition newCachedProvider ::
  "meter \<Rightarrow> string \<Rightarrow> string \<Rightarrow> int \<Rightarrow> 'b provider \<Rightarrow> 'c \<Rightarrow> ('c, 'b) cached_provider result" where
  "newCachedProvider meter name typ cacheTTL p empty_cache =
     newCachedProviderWithClock meter name typ cacheTTL defaultNegativeCacheTTL p empty_cache"

definition metric_labels :: "('c, 'b) cached_provider \<Rightarrow> (string \<times> string) list" where
  "metric_labels cp = [(''datasource'', cp_name cp), (''type'', cp_typ cp)]"

definition recordHit :: "('c, 'b) cached_provider \<Rightarrow> event" where
  "recordHit cp = Metric ''authzmtls.datasource.cache.hits'' (metric_labels cp) 1"

definition recordMiss :: "('c, 'b) cached_provider \<Rightarrow> event" where
  "recordMiss cp = Metric ''authzmtls.datasource.cache.misses'' (metric_labels cp) 1"

definition addInflight :: "('c, 'b) cached_provider \<Rightarrow> int \<Rightarrow> event" where
  "addInflight cp delta = Metric ''authzmtls.datasource.inflight'' (metric_labels cp) delta"

text \<open>The elapsed time is kept in nanoseconds (\<open>msSince\<close> divides it by a million).\<close>

definition recordDuration :: "('c, 'b) cached_provider \<Rightarrow> string \<Rightarrow> int \<Rightarrow> event" where
  "recordDuration cp outcome elapsed =
     Metric ''authzmtls.datasource.resolve.duration''
       (metric_labels cp @ [(''result'', outcome)]) elapsed"

definition refresh_failed :: "('c, 'b) cached_provider \<Rightarrow> string \<Rightarrow> go_error \<Rightarrow> event" where
  "refresh_failed cp identity err =
     Log LevelWarn ''datasource resolution attempt failed''
       [(''datasource'', cp_name cp), (''datasource_type'', cp_typ cp),
        (''identity'', identity), (''error'', err)]"

text \<open>\<open>refresh\<close> up to the live call, and after it.\<close>

definition start_refresh ::
  "'c lru_ops \<Rightarrow> string \<Rightarrow> ('c, 'b) cached_provider \<Rightarrow> 'b world \<Rightarrow>
     cache_entry option \<times> ('c, 'b) cached_provider \<times> 'b world" where
  "start_refresh ops identity cp w =
     (case lru_get ops (cp_cache cp) identity of
        (prev, c) \<Rightarrow> (prev, cp\<lparr>cp_cache := c\<rparr>, emit (addInflight cp 1) w))"

definition settle ::
  "'c lru_ops \<Rightarrow> string \<Rightarrow> cache_entry option \<Rightarrow> resolved result \<Rightarrow> ('c, 'b) cached_provider \<Rightarrow>
     'b world \<Rightarrow> resolved result \<times> ('c, 'b) cached_provider \<times> 'b world" where
  "settle ops identity prev result cp w0 =
     (let (t, w1) = now w0;
          (res, c, w2) =
            (case result of
               Inr v \<Rightarrow> (Inr v, lru_add ops (cp_cache cp) identity (positive_entry v t), w1)
             | Inl err \<Rightarrow>
                 (let w = emit (refresh_failed cp identity err) w1
                  in case prev of
                       Some e \<Rightarrow>
                         if hasValue e then (Inr (entry_value e), cp_cache cp, w)
                         else (Inl errUnresolved,
                               lru_add ops (cp_cache cp) identity (negative_entry (t + cp_negTTL cp)), w)
                     | None \<Rightarrow>
                         (Inl errUnresolved,
                          lru_add ops (cp_cache cp) identity (negative_entry (t + cp_negTTL cp)), w)))
      in (res, cp\<lparr>cp_cache := c\<rparr>, emit (addInflight cp (-1)) w2))"

definition refresh ::
  "'c lru_ops \<Rightarrow> go_ctx \<Rightarrow> string \<Rightarrow> string go_map \<Rightarrow> ('c, 'b) cached_provider \<Rightarrow> 'b world \<Rightarrow>
     resolved result \<times> ('c, 'b) cached_provider \<times> 'b world" where
  "refresh ops ctx identity vars cp w0 =
     (let (prev, cp1, w1) = start_refresh ops identity cp w0;
          (result, w2) = cp_provider cp1 ctx vars w1
      in settle ops identity prev result cp1 w2)"

text \<open>The two halves of \<open>Resolve\<close>: looking in the cache, and what follows a miss. One
  caller's \<open>group.Do\<close> is a call of \<open>refresh\<close>.\<close>

definition resolve_miss ::
  "'c lru_ops \<Rightarrow> go_ctx \<Rightarrow> string \<Rightarrow> string go_map \<Rightarrow> int \<Rightarrow> ('c, 'b) cached_provider \<Rightarrow>
     'b world \<Rightarrow> resolved result \<times> ('c, 'b) cached_provider \<times> 'b world" where
  "resolve_miss ops ctx identity vars start cp w0 =
     (let (r, cp', w1) = refresh ops ctx identity vars cp (emit (recordMiss cp) w0);
          (t, w2) = now w1
      in (r, cp', emit (recordDuration cp ''miss'' (time_sub t start)) w2))"

definition cached_resolve ::
  "'c lru_ops \<Rightarrow> go_ctx \<Rightarrow> string go_map \<Rightarrow> ('c, 'b) cached_provider \<Rightarrow> 'b world \<Rightarrow>
     resolved result \<times> ('c, 'b) cached_provider \<times> 'b world" where
  "cached_resolve ops ctx vars cp w0 =
     (let identity = read_string vars identityVar
      in if identity = [] then (Inl errUnresolved, cp, w0)
         else
           (let (start, w1) = now w0;
                (found, c1) = lru_get ops (cp_cache cp) identity;
                cp1 = cp\<lparr>cp_cache := c1\<rparr>
            in case found of
                 None \<Rightarrow> resolve_miss ops ctx identity vars start cp1 w1
               | Some e \<Rightarrow>
                   (let (t, w2) = now w1
                    in case servedFresh e t (cp_ttl cp) of
                         None \<Rightarrow> resolve_miss ops ctx identity vars start cp1 w2
                       | Some r \<Rightarrow>
                           (let (t', w3) = now (emit (recordHit cp) w2)
                            in (r, cp1, emit (recordDuration cp ''hit'' (time_sub t' start)) w3)))))"

definition cache_flush :: "'c lru_ops \<Rightarrow> ('c, 'b) cached_provider \<Rightarrow> ('c, 'b) cached_provider" where
  "cache_flush ops cp = cp\<lparr>cp_cache := lru_purge ops (cp_cache cp)\<rparr>"

subsection \<open>Invariants\<close>

text \<open>Everything the cache would serve for an identity satisfies \<open>P\<close>.\<close>

definition cache_inv ::
  "('c \<Rightarrow> string \<Rightarrow> cache_entry option) \<Rightarrow> (string \<Rightarrow> resolved \<Rightarrow> bool) \<Rightarrow> ('c, 'b) cached_provider \<Rightarrow> bool" where
  "cache_inv peek P cp \<longleftrightarrow>
     (\<forall>k e. peek (cp_cache cp) k = Some e \<longrightarrow> hasValue e \<longrightarrow> P k (entry_value e))"

text \<open>Every answer of the live provider satisfies \<open>P\<close> of the identity asked for.\<close>

definition provider_answers :: "(string \<Rightarrow> resolved \<Rightarrow> bool) \<Rightarrow> 'b provider \<Rightarrow> bool" where
  "provider_answers P p \<longleftrightarrow>
     (\<forall>ctx vars w v w'. p ctx vars w = (Inr v, w') \<longrightarrow> P (read_string vars identityVar) v)"

text \<open>The fields no operation changes.\<close>

definition same_setup :: "('c, 'b) cached_provider \<Rightarrow> ('c, 'b) cached_provider \<Rightarrow> bool" where
  "same_setup cp cp' \<longleftrightarrow> cp' = cp\<lparr>cp_cache := cp_cache cp'\<rparr>"

lemmas refresh_unfold = refresh_def start_refresh_def settle_def

lemma same_setup_refl [simp]: "same_setup cp cp"
  by (simp add: same_setup_def)

lemma same_setup_cache [simp]: "same_setup cp (cp\<lparr>cp_cache := c\<rparr>)"
  by (simp add: same_setup_def)

lemma same_setup_trans: "same_setup a b \<Longrightarrow> same_setup b c \<Longrightarrow> same_setup a c"
  by (cases a; cases b; cases c) (simp add: same_setup_def)

lemma same_setup_fields:
  "same_setup cp cp' \<Longrightarrow> cp_provider cp' = cp_provider cp \<and> cp_name cp' = cp_name cp \<and>
     cp_typ cp' = cp_typ cp \<and> cp_ttl cp' = cp_ttl cp \<and> cp_negTTL cp' = cp_negTTL cp"
  by (cases cp; cases cp') (simp add: same_setup_def)

lemma entry_simps [simp]:
  "hasValue (positive_entry v t)" "entry_value (positive_entry v t) = v"
  "fetchedAt (positive_entry v t) = t" "\<not> hasValue (negative_entry t)"
  "negUntil (negative_entry t) = t"
  by (simp_all add: positive_entry_def negative_entry_def)

lemma now_fields [simp]:
  "backend (snd (now w)) = backend w" "fst (now w) = clock w (ticks w)"
  "clock (snd (now w)) = clock w" "ticks (snd (now w)) = Suc (ticks w)"
  "trace (snd (now w)) = trace w"
  by (simp_all add: now_def)

context lru
begin

lemma lru_getE:
  assumes "lru_get ops c k = (r, c')"
  shows "r = peek c k" and "peek c' = peek c"
  using get_result [of c k] get_keeps [of c k] assms by simp_all

lemma refresh_ok:
  assumes "refresh ops ctx k vars cp w = (r, cp', w')"
    and "cp_provider cp ctx vars (emit (addInflight cp 1) w) = (Inr v, w2)"
  shows "r = Inr v"
    and "peek (cp_cache cp') k = Some (positive_entry v (clock w2 (ticks w2)))"
  using assms by (auto simp: refresh_unfold now_def add_same split: prod.splits)

lemma refresh_stale:
  assumes "refresh ops ctx k vars cp w = (r, cp', w')"
    and "cp_provider cp ctx vars (emit (addInflight cp 1) w) = (Inl err, w2)"
    and "peek (cp_cache cp) k = Some e" and "hasValue e"
  shows "r = Inr (entry_value e)" and "peek (cp_cache cp') = peek (cp_cache cp)"
proof -
  obtain prev c1 where g: "lru_get ops (cp_cache cp) k = (prev, c1)" by fastforce
  with assms lru_getE [OF g]
  show "r = Inr (entry_value e)" and "peek (cp_cache cp') = peek (cp_cache cp)"
    by (auto simp: refresh_unfold Let_def split: prod.splits)
qed

lemma refresh_negative:
  assumes "refresh ops ctx k vars cp w = (r, cp', w')"
    and "cp_provider cp ctx vars (emit (addInflight cp 1) w) = (Inl err, w2)"
    and "\<And>e. peek (cp_cache cp) k = Some e \<Longrightarrow> \<not> hasValue e"
  shows "r = Inl errUnresolved"
    and "peek (cp_cache cp') k = Some (negative_entry (clock w2 (ticks w2) + cp_negTTL cp))"
proof -
  obtain prev c1 where g: "lru_get ops (cp_cache cp) k = (prev, c1)" by fastforce
  have "\<not> hasValue e" if "prev = Some e" for e
    using assms(3) lru_getE(1) [OF g] that by simp
  then show "r = Inl errUnresolved"
    and "peek (cp_cache cp') k = Some (negative_entry (clock w2 (ticks w2) + cp_negTTL cp))"
    using assms(1,2) g
    by (auto simp: refresh_unfold now_def Let_def add_same split: prod.splits option.splits if_splits)
qed

lemma refresh_setup: "refresh ops ctx k vars cp w = (r, cp', w') \<Longrightarrow> same_setup cp cp'"
  by (auto simp: refresh_unfold Let_def split: prod.splits)

lemma cache_inv_add:
  assumes "cache_inv peek P cp" and "peek c = peek (cp_cache cp)" and "hasValue e \<Longrightarrow> P k (entry_value e)"
  shows "cache_inv peek P (cp\<lparr>cp_cache := lru_add ops c k e\<rparr>)"
  unfolding cache_inv_def
proof (intro allI impI)
  fix k' e' assume e': "peek (cp_cache (cp\<lparr>cp_cache := lru_add ops c k e\<rparr>)) k' = Some e'" "hasValue e'"
  show "P k' (entry_value e')"
  proof (cases "k' = k")
    case True
    with e' assms(3) show ?thesis by (simp add: add_same)
  next
    case False
    with e' add_other [OF False, of c e] have "peek c k' = Some e'" by auto
    with assms(1,2) e'(2) show ?thesis by (auto simp: cache_inv_def)
  qed
qed

lemma cache_inv_same: "cache_inv peek P cp \<Longrightarrow> peek c = peek (cp_cache cp) \<Longrightarrow>
  cache_inv peek P (cp\<lparr>cp_cache := c\<rparr>)"
  by (simp add: cache_inv_def)

lemma refresh_sound:
  assumes "refresh ops ctx k vars cp w = (r, cp', w')"
    and "cache_inv peek P cp" and "provider_answers P (cp_provider cp)"
    and "k = read_string vars identityVar"
  shows "cache_inv peek P cp' \<and> (\<forall>v. r = Inr v \<longrightarrow> P k v)"
proof (cases "cp_provider cp ctx vars (emit (addInflight cp 1) w)")
  case (Pair res w2)
  obtain prev c1 where g: "lru_get ops (cp_cache cp) k = (prev, c1)" by fastforce
  note g' = lru_getE [OF g]
  show ?thesis
  proof (cases res)
    case (Inr v)
    with Pair assms(3,4) have "P k v" unfolding provider_answers_def by blast
    with Inr Pair assms(1,2) g g' show ?thesis
      by (auto simp: refresh_unfold Let_def intro: cache_inv_add split: prod.splits)
  next
    case (Inl err)
    with Pair assms(1,2) g g' show ?thesis
      by (auto simp: refresh_unfold Let_def cache_inv_def [of peek P cp] intro: cache_inv_add cache_inv_same
          split: prod.splits option.splits if_splits)
  qed
qed

lemma resolve_miss_refresh:
  assumes "resolve_miss ops ctx k vars start cp w = (r, cp', w')"
  obtains w1 where "refresh ops ctx k vars cp (emit (recordMiss cp) w) = (r, cp', w1)"
    and "backend w' = backend w1"
  using assms by (auto simp: resolve_miss_def Let_def now_def split: prod.splits)

lemma goes_live:
  assumes "read_string vars identityVar = k" and "k \<noteq> []"
    and "\<And>e. peek (cp_cache cp) k = Some e \<Longrightarrow>
           servedFresh e (clock w (Suc (ticks w))) (cp_ttl cp) = None"
  obtains start cp1 w1 where
    "cached_resolve ops ctx vars cp w = resolve_miss ops ctx k vars start cp1 w1"
    and "peek (cp_cache cp1) = peek (cp_cache cp)" and "same_setup cp cp1"
    and "backend w1 = backend w"
proof -
  obtain found c1 where g: "lru_get ops (cp_cache cp) k = (found, c1)" by fastforce
  note f = lru_getE [OF g]
  let ?cp1 = "cp\<lparr>cp_cache := c1\<rparr>"
  show ?thesis
  proof (cases found)
    case None
    then show ?thesis
      using assms g f
      by (intro that [of "clock w (ticks w)" ?cp1 "snd (now w)"])
        (auto simp: cached_resolve_def Let_def now_def)
  next
    case (Some e)
    then show ?thesis
      using assms g f
      by (intro that [of "clock w (ticks w)" ?cp1 "snd (now (snd (now w)))"])
        (auto simp: cached_resolve_def Let_def now_def)
  qed
qed

lemma cached_resolve_served:
  assumes "read_string vars identityVar = k" and "k \<noteq> []"
    and "peek (cp_cache cp) k = Some e"
    and "servedFresh e (clock w (Suc (ticks w))) (cp_ttl cp) = Some r"
    and "cached_resolve ops ctx vars cp w = (r', cp', w')"
  shows "r' = r \<and> peek (cp_cache cp') = peek (cp_cache cp) \<and> same_setup cp cp' \<and>
         backend w' = backend w"
proof -
  obtain found c1 where g: "lru_get ops (cp_cache cp) k = (found, c1)" by fastforce
  with assms lru_getE [OF g] show ?thesis
    by (auto simp: cached_resolve_def Let_def now_def)
qed

lemma cached_resolve_cases:
  assumes "cached_resolve ops ctx vars cp w = (r, cp', w')"
  obtains (empty) "read_string vars identityVar = []" "r = Inl errUnresolved" "cp' = cp" "w' = w"
  | (served) e where "peek (cp_cache cp) (read_string vars identityVar) = Some e"
      "servedFresh e (clock w (Suc (ticks w))) (cp_ttl cp) = Some r"
      "peek (cp_cache cp') = peek (cp_cache cp)" "same_setup cp cp'" "backend w' = backend w"
  | (live) start cp1 w1 where
      "resolve_miss ops ctx (read_string vars identityVar) vars start cp1 w1 = (r, cp', w')"
      "peek (cp_cache cp1) = peek (cp_cache cp)" "same_setup cp cp1" "backend w1 = backend w"
proof (cases "read_string vars identityVar = []")
  case True
  with assms show ?thesis by (intro empty) (auto simp: cached_resolve_def)
next
  case ne: False
  let ?k = "read_string vars identityVar"
  show ?thesis
  proof (cases "\<exists>e r'. peek (cp_cache cp) ?k = Some e \<and>
      servedFresh e (clock w (Suc (ticks w))) (cp_ttl cp) = Some r'")
    case True
    then obtain e r' where e: "peek (cp_cache cp) ?k = Some e"
      and r': "servedFresh e (clock w (Suc (ticks w))) (cp_ttl cp) = Some r'" by blast
    from cached_resolve_served [OF refl ne e r' assms] e r' show ?thesis by (auto intro: served)
  next
    case False
    with goes_live [OF refl ne, of cp w ctx] assms show ?thesis
      by (metis live option.exhaust)
  qed
qed

lemma servedFresh_value: "servedFresh e t ttl = Some (Inr v) \<Longrightarrow> hasValue e \<and> v = entry_value e"
  by (auto simp: servedFresh_def split: if_splits)

lemma cached_resolve_setup:
  assumes "cached_resolve ops ctx vars cp w = (r, cp', w')"
  shows "same_setup cp cp'"
  using assms
proof (cases rule: cached_resolve_cases)
  case (live start cp1 w1)
  then show ?thesis
    by (auto elim!: resolve_miss_refresh dest!: refresh_setup intro: same_setup_trans)
qed simp_all

lemma cached_resolve_sound:
  assumes "cached_resolve ops ctx vars cp w = (r, cp', w')"
    and inv: "cache_inv peek P cp" and sound: "provider_answers P (cp_provider cp)"
  shows "cache_inv peek P cp' \<and> (\<forall>v. r = Inr v \<longrightarrow> P (read_string vars identityVar) v)"
  using assms(1)
proof (cases rule: cached_resolve_cases)
  case (served e)
  then show ?thesis using inv by (auto simp: cache_inv_def dest: servedFresh_value)
next
  case (live start cp1 w1)
  have "cache_inv peek P cp1" using inv live(2) by (simp add: cache_inv_def)
  moreover have "provider_answers P (cp_provider cp1)"
    using sound same_setup_fields [OF live(3)] by simp
  ultimately show ?thesis
    using live(1) by (elim resolve_miss_refresh) (auto dest: refresh_sound)
qed (use inv in simp_all)

lemma cache_flush_inv: "cache_inv peek P (cache_flush ops cp)"
  by (simp add: cache_inv_def cache_flush_def purged)

lemma cached_resolve_stale:
  assumes "cached_resolve ops ctx vars cp w = (r, cp', w')"
    and "read_string vars identityVar = k" and "k \<noteq> []"
    and e: "peek (cp_cache cp) k = Some e" "hasValue e"
    and due: "cp_ttl cp \<le> time_sub (clock w (Suc (ticks w))) (fetchedAt e)"
    and fails: "\<And>u. \<exists>err u'. cp_provider cp ctx vars u = (Inl err, u')"
  shows "r = Inr (entry_value e) \<and> peek (cp_cache cp') = peek (cp_cache cp)"
proof -
  have "servedFresh e (clock w (Suc (ticks w))) (cp_ttl cp) = None"
    using e due by (simp add: servedFresh_def)
  with goes_live [OF assms(2,3)] e(1) obtain start cp1 w1 where
    l: "cached_resolve ops ctx vars cp w = resolve_miss ops ctx k vars start cp1 w1"
    and p: "peek (cp_cache cp1) = peek (cp_cache cp)" and s: "same_setup cp cp1"
    by (metis option.inject)
  from l assms(1) obtain w2 where
    f: "refresh ops ctx k vars cp1 (emit (recordMiss cp1) w1) = (r, cp', w2)"
    by (metis resolve_miss_refresh)
  obtain err u' where
    "cp_provider cp1 ctx vars (emit (addInflight cp1 1) (emit (recordMiss cp1) w1)) = (Inl err, u')"
    using fails same_setup_fields [OF s] by metis
  from refresh_stale [OF f this] p e show ?thesis by simp
qed

lemma cached_resolve_negative:
  assumes "cached_resolve ops ctx vars cp w = (r, cp', w')"
    and "read_string vars identityVar = k" and "k \<noteq> []"
    and none: "peek (cp_cache cp) k = None"
    and fails: "\<And>u. \<exists>err u'. cp_provider cp ctx vars u = (Inl err, u')"
  shows "r = Inl errUnresolved \<and>
         (\<exists>t. peek (cp_cache cp') k = Some (negative_entry (t + cp_negTTL cp)))"
proof -
  from goes_live [OF assms(2,3)] none obtain start cp1 w1 where
    l: "cached_resolve ops ctx vars cp w = resolve_miss ops ctx k vars start cp1 w1"
    and p: "peek (cp_cache cp1) = peek (cp_cache cp)" and s: "same_setup cp cp1"
    by (metis option.distinct(1))
  from l assms(1) obtain w2 where
    f: "refresh ops ctx k vars cp1 (emit (recordMiss cp1) w1) = (r, cp', w2)"
    by (metis resolve_miss_refresh)
  obtain err u' where
    "cp_provider cp1 ctx vars (emit (addInflight cp1 1) (emit (recordMiss cp1) w1)) = (Inl err, u')"
    using fails same_setup_fields [OF s] by metis
  from refresh_negative [OF f this] p none same_setup_fields [OF s] show ?thesis by auto
qed

end

end
