(* ===== verification/Cache_Lru.thy ===== *)
theory Cache_Lru
  imports Cache
begin

text \<open>
  The documented behaviour of the LRU the cache is built on (bounded, least recently
  used entry evicted first, no expiry since its TTL is 0), as an instance of the
  interface; and histories of one datasource: any sequence of lookups and flushes.
\<close>

subsection \<open>A bounded list, most recently used first\<close>

type_synonym lru_list = "(string \<times> cache_entry) list"

definition without :: "string \<Rightarrow> lru_list \<Rightarrow> lru_list" where
  "without k c = filter (\<lambda>(k', _). k' \<noteq> k) c"

definition list_get :: "lru_list \<Rightarrow> string \<Rightarrow> cache_entry option \<times> lru_list" where
  "list_get c k =
     (case map_of c k of None \<Rightarrow> (None, c) | Some e \<Rightarrow> (Some e, (k, e) # without k c))"

definition list_add :: "nat \<Rightarrow> lru_list \<Rightarrow> string \<Rightarrow> cache_entry \<Rightarrow> lru_list" where
  "list_add cap c k e = take cap ((k, e) # without k c)"

definition list_lru :: "nat \<Rightarrow> lru_list lru_ops" where
  "list_lru cap = \<lparr>lru_get = list_get, lru_add = list_add cap, lru_purge = (\<lambda>_. [])\<rparr>"

lemma map_of_without: "map_of (without k c) k' = (if k' = k then None else map_of c k')"
  by (induction c) (auto simp: without_def)

lemma map_of_take: "map_of (take n c) k \<in> {None, map_of c k}"
  by (induction c arbitrary: n) (auto simp: take_Cons')

lemma list_get_keeps: "map_of (snd (list_get c k)) = map_of c"
  by (rule ext) (auto simp: list_get_def map_of_without split: option.splits)

lemma list_add_same: "0 < cap \<Longrightarrow> map_of (list_add cap c k e) k = Some e"
  by (cases cap) (simp_all add: list_add_def)

lemma list_add_other: "k' \<noteq> k \<Longrightarrow> map_of (list_add cap c k e) k' \<in> {None, map_of c k'}"
  using map_of_take [of cap "(k, e) # without k c" k'] by (simp add: list_add_def map_of_without)

lemma list_lru_laws:
  assumes "0 < cap"
  shows "lru (list_lru cap) map_of"
  by unfold_locales
    (use assms list_add_other list_get_keeps in
      \<open>auto simp: list_lru_def list_add_same list_get_def split: option.splits\<close>)

interpretation lru4096: lru "list_lru defaultCacheSize" map_of
  by (rule list_lru_laws) (simp add: defaultCacheSize_def)

text \<open>The bound: however many identities are looked up, at most \<open>cap\<close> stay.\<close>

lemma length_list_add: "length (list_add cap c k e) \<le> cap"
  by (simp add: list_add_def)

lemma length_without: "length (without k c) \<le> length c"
  by (simp add: without_def)

lemma length_list_get: "well_keyed c \<Longrightarrow> length (snd (list_get c k)) = length c"
proof (induction c)
  case (Cons x c)
  obtain k' e where x: "x = (k', e)" by fastforce
  show ?case
  proof (cases "k' = k")
    case True
    with Cons.prems x have "without k c = c" by (force simp: without_def filter_id_conv)
    with True x show ?thesis by (simp add: list_get_def without_def)
  next
    case False
    with Cons x show ?thesis
      by (auto simp: list_get_def without_def split: option.splits)
  qed
qed (simp add: list_get_def)

subsection \<open>Histories\<close>

datatype cache_op = Lookup go_ctx "string go_map" | Flush

text \<open>The outcome of every lookup of a history, with the identity it was for, and the
  state after it.\<close>

fun run_cache ::
  "'c lru_ops \<Rightarrow> cache_op list \<Rightarrow> ('c, 'b) cached_provider \<Rightarrow> 'b world \<Rightarrow>
     (string \<times> resolved result) list \<times> ('c, 'b) cached_provider \<times> 'b world" where
  "run_cache ops [] cp w = ([], cp, w)"
| "run_cache ops (Flush # os) cp w = run_cache ops os (cache_flush ops cp) w"
| "run_cache ops (Lookup ctx vars # os) cp w =
     (let (r, cp1, w1) = cached_resolve ops ctx vars cp w;
          (rs, cp2, w2) = run_cache ops os cp1 w1
      in ((read_string vars identityVar, r) # rs, cp2, w2))"

context lru
begin

lemma run_cache_sound:
  assumes "run_cache ops hist cp w = (rs, cp', w')"
    and "cache_inv peek P cp" and "provider_answers P (cp_provider cp)"
  shows "cache_inv peek P cp' \<and> (\<forall>k v. (k, Inr v) \<in> set rs \<longrightarrow> P k v)"
  using assms
proof (induction hist arbitrary: cp w rs cp' w')
  case (Cons a hist)
  show ?case
  proof (cases a)
    case Flush
    then show ?thesis
      using Cons.IH [of "cache_flush ops cp" w rs] Cons.prems
      by (simp add: cache_flush_inv) (simp add: cache_flush_def)
  next
    case (Lookup ctx vars)
    obtain r cp1 w1 where r: "cached_resolve ops ctx vars cp w = (r, cp1, w1)"
      by (cases "cached_resolve ops ctx vars cp w") auto
    obtain rs2 cp2 w2 where rest: "run_cache ops hist cp1 w1 = (rs2, cp2, w2)"
      by (cases "run_cache ops hist cp1 w1") auto
    have same: "cp_provider cp1 = cp_provider cp"
      using same_setup_fields [OF cached_resolve_setup [OF r]] by simp
    note one = cached_resolve_sound [OF r Cons.prems(2,3)]
    have "cache_inv peek P cp2 \<and> (\<forall>k v. (k, Inr v) \<in> set rs2 \<longrightarrow> P k v)"
      using Cons.IH [OF rest] one Cons.prems(3) same by simp
    moreover have "rs = (read_string vars identityVar, r) # rs2" "cp' = cp2"
      using Cons.prems(1) Lookup r rest by auto
    ultimately show ?thesis using one by auto
  qed
qed simp

end

end
