(* ===== verification/Go_Path.thy ===== *)
theory Go_Path
  imports Go_Utf8
begin

text \<open>
  The part of \<open>path/filepath\<close> the program uses, for Unix: \<open>Clean\<close>, \<open>Join\<close>,
  \<open>IsAbs\<close>, \<open>Abs\<close> and \<open>EvalSymlinks\<close>. The operating system below it is the
  record \<open>os_env\<close>: what \<open>Getwd\<close>, \<open>Lstat\<close> and \<open>Readlink\<close> answer. Canonical
  absolute paths are the image of \<open>abs_path\<close> on lists of proper components, and the
  prefix order on those lists is the "is below" order on paths.
\<close>

abbreviation (input) slash :: char where
  "slash \<equiv> CHR ''/''"

subsection \<open>Lexical normalisation\<close>

text \<open>\<open>filepath.Clean\<close> keeps the components seen so far on a stack, last one first.\<close>

fun clean_step :: "bool \<Rightarrow> string \<Rightarrow> string list \<Rightarrow> string list" where
  "clean_step rooted c st =
     (if c = '''' \<or> c = ''.'' then st
      else if c = ''..'' then
        (case st of
           [] \<Rightarrow> if rooted then [] else [''..'']
         | t # ts \<Rightarrow> if t = ''..'' then c # st else ts)
      else c # st)"

declare clean_step.simps [simp del]

definition clean_stack :: "bool \<Rightarrow> string list \<Rightarrow> string list \<Rightarrow> string list" where
  "clean_stack rooted cs st = fold (clean_step rooted) cs st"

definition is_abs :: "string \<Rightarrow> bool" where
  "is_abs p \<longleftrightarrow> (case p of [] \<Rightarrow> False | c # _ \<Rightarrow> c = slash)"

lemma is_abs_Nil [simp]: "\<not> is_abs []"
  by (simp add: is_abs_def)

definition clean :: "string \<Rightarrow> string" where
  "clean p =
     (if p = [] then ''.''
      else
        (let out = rev (clean_stack (is_abs p) (split_on slash p) [])
         in if is_abs p then ''/'' @ join ''/'' out
            else if out = [] then ''.''
            else join ''/'' out))"

text \<open>\<open>filepath.Join\<close> of two elements: empty leading elements are dropped.\<close>

definition path_join :: "string \<Rightarrow> string \<Rightarrow> string" where
  "path_join a b =
     (if a \<noteq> [] then clean (a @ ''/'' @ b)
      else if b \<noteq> [] then clean b
      else [])"

subsection \<open>Components and canonical paths\<close>

definition proper_comp :: "string \<Rightarrow> bool" where
  "proper_comp c \<longleftrightarrow> c \<noteq> '''' \<and> c \<noteq> ''.'' \<and> c \<noteq> ''..'' \<and> slash \<notin> set c"

definition abs_path :: "string list \<Rightarrow> string" where
  "abs_path cs = ''/'' @ join ''/'' cs"

definition canonical :: "string \<Rightarrow> bool" where
  "canonical p \<longleftrightarrow> p = ''/'' \<or> (is_abs p \<and> list_all proper_comp (split_on slash (tl p)))"

definition components :: "string \<Rightarrow> string list" where
  "components p = filter (\<lambda>c. c \<noteq> []) (split_on slash p)"

lemma clean_step_proper [simp]: "proper_comp c \<Longrightarrow> clean_step rooted c st = c # st"
  by (simp add: clean_step.simps proper_comp_def)

lemma clean_step_invar:
  "list_all proper_comp st \<Longrightarrow> slash \<notin> set c \<Longrightarrow> list_all proper_comp (clean_step True c st)"
  by (auto simp: clean_step.simps proper_comp_def split: list.splits)

lemma clean_stack_invar:
  "list_all proper_comp st \<Longrightarrow> \<forall>c\<in>set cs. slash \<notin> set c \<Longrightarrow>
     list_all proper_comp (clean_stack True cs st)"
  unfolding clean_stack_def
  by (induction cs arbitrary: st) (auto intro: clean_step_invar)

lemma clean_stack_proper:
  "list_all proper_comp cs \<Longrightarrow> clean_stack rooted cs st = rev cs @ st"
  unfolding clean_stack_def by (induction cs arbitrary: st) auto

lemma clean_stack_Nil_comp [simp]: "clean_stack rooted ([] # cs) st = clean_stack rooted cs st"
  by (simp add: clean_stack_def clean_step.simps)

lemma clean_stack_append:
  "clean_stack rooted (xs @ ys) st = clean_stack rooted ys (clean_stack rooted xs st)"
  by (simp add: clean_stack_def)

lemma clean_stack_components:
  "clean_stack rooted (filter (\<lambda>c. c \<noteq> []) cs) st = clean_stack rooted cs st"
  unfolding clean_stack_def
  by (induction cs arbitrary: st) (auto simp: clean_step.simps)

text \<open>The components of a rooted path after normalisation.\<close>

definition clean_comps :: "string \<Rightarrow> string list" where
  "clean_comps p = rev (clean_stack True (split_on slash p) [])"

lemma clean_comps_proper: "list_all proper_comp (clean_comps p)"
  using clean_stack_invar [of "[]" "split_on slash p"] split_on_no_sep
  by (auto simp: clean_comps_def list_all_iff)

lemma clean_rooted: "is_abs p \<Longrightarrow> clean p = abs_path (clean_comps p)"
  by (auto simp: clean_def clean_comps_def abs_path_def is_abs_def Let_def)

lemma is_abs_abs_path [simp]: "is_abs (abs_path cs)"
  by (simp add: is_abs_def abs_path_def)

lemma proper_no_slash: "list_all proper_comp cs \<Longrightarrow> \<forall>c\<in>set cs. slash \<notin> set c"
  by (auto simp: list_all_iff proper_comp_def)

lemma split_on_abs_path:
  assumes "list_all proper_comp cs"
  shows "split_on slash (abs_path cs) = (if cs = [] then [[], []] else [] # cs)"
  using split_on_join [of cs slash] proper_no_slash [OF assms]
  by (auto simp: abs_path_def)

lemma clean_comps_abs_path:
  "list_all proper_comp cs \<Longrightarrow> clean_comps (abs_path cs) = cs"
  by (cases "cs = []") (simp_all add: clean_comps_def split_on_abs_path clean_stack_proper)

lemma components_abs_path:
  "list_all proper_comp cs \<Longrightarrow> components (abs_path cs) = cs"
  by (auto simp: components_def split_on_abs_path list_all_iff proper_comp_def filter_id_conv)

lemma clean_abs_path: "list_all proper_comp cs \<Longrightarrow> clean (abs_path cs) = abs_path cs"
  by (simp add: clean_rooted clean_comps_abs_path)

lemma abs_path_inject:
  "list_all proper_comp as \<Longrightarrow> list_all proper_comp bs \<Longrightarrow> abs_path as = abs_path bs \<longleftrightarrow> as = bs"
  by (metis clean_comps_abs_path)

lemma clean_idem_rooted: "is_abs p \<Longrightarrow> clean (clean p) = clean p"
  by (simp add: clean_rooted clean_comps_abs_path clean_comps_proper)

lemma canonical_abs_path: "list_all proper_comp cs \<Longrightarrow> canonical (abs_path cs)"
  using split_on_join [of cs slash] proper_no_slash [of cs]
  by (cases "cs = []") (auto simp: canonical_def abs_path_def is_abs_def)

lemma canonical_clean: "is_abs p \<Longrightarrow> canonical (clean p)"
  by (simp add: clean_rooted canonical_abs_path clean_comps_proper)

lemma canonicalE:
  assumes "canonical p"
  obtains cs where "list_all proper_comp cs" and "p = abs_path cs"
proof (cases "p = ''/''")
  case True
  then have "p = abs_path []" by (simp add: abs_path_def)
  then show ?thesis by (intro that [of "[]"]) simp_all
next
  case False
  with assms have "list_all proper_comp (split_on slash (tl p))" and "p = slash # tl p"
    by (auto simp: canonical_def is_abs_def split: list.splits)
  then show ?thesis
    using join_split_on [of slash "tl p"] by (intro that) (auto simp: abs_path_def)
qed

lemma canonical_clean_id: "canonical p \<Longrightarrow> clean p = p"
  by (elim canonicalE) (simp add: clean_abs_path)

lemma canonical_is_abs: "canonical p \<Longrightarrow> is_abs p"
  by (auto simp: canonical_def is_abs_def)

lemma abs_path_append:
  "as \<noteq> [] \<Longrightarrow> bs \<noteq> [] \<Longrightarrow> abs_path (as @ bs) = abs_path as @ ''/'' @ join ''/'' bs"
proof (induction as)
  case (Cons a as)
  then show ?case
    by (cases "as = []") (auto simp: abs_path_def join_Cons)
qed simp

text \<open>Byte-level "begins with \<open>q/\<close>" on canonical paths is the proper-prefix order on
  their components.\<close>

lemma prefix_boundary_abs_path:
  assumes as: "list_all proper_comp as" "as \<noteq> []" and bs: "list_all proper_comp bs"
  shows "prefix (abs_path as @ ''/'') (abs_path bs) \<longleftrightarrow> strict_prefix as bs"
proof
  assume "prefix (abs_path as @ ''/'') (abs_path bs)"
  then obtain r where "abs_path bs = abs_path as @ slash # r"
    by (auto simp: prefix_def)
  then have "split_on slash (abs_path bs) = split_on slash (abs_path as) @ split_on slash r"
    by (simp add: split_on_append_sep)
  then have "bs = as @ split_on slash r"
    using as bs by (auto simp: split_on_abs_path Cons_eq_append_conv list_all_iff proper_comp_def
        split: if_splits)
  then show "strict_prefix as bs" by (auto simp: strict_prefix_def)
next
  assume "strict_prefix as bs"
  then obtain cs where "bs = as @ cs" "cs \<noteq> []"
    by (auto simp: strict_prefix_def prefix_def)
  then show "prefix (abs_path as @ ''/'') (abs_path bs)"
    using as(2) by (simp add: abs_path_append)
qed

end
