(* ===== verification/Go_Symlinks.thy ===== *)
theory Go_Symlinks
  imports Go_Path
begin

text \<open>
  \<open>filepath.Abs\<close> and \<open>filepath.EvalSymlinks\<close> (the \<open>walkSymlinks\<close> loop of the
  standard library, for Unix) over an operating system that answers \<open>Getwd\<close>,
  \<open>Lstat\<close> and \<open>Readlink\<close>. The answers of one walk are those of one snapshot of
  the file system. The same environment says in which order \<open>n\<close> goroutines started
  together get to run.
\<close>

datatype file_kind = Regular | Directory | Symlink

record os_env =
  os_getwd :: "string result"
  os_lstat :: "string \<Rightarrow> file_kind result"
  os_readlink :: "string \<Rightarrow> string result"
  os_schedule :: "nat \<Rightarrow> nat list"

text \<open>Every goroutine a wait group waits for runs, once.\<close>

definition fair :: "os_env \<Rightarrow> bool" where
  "fair os \<longleftrightarrow> (\<forall>n. schedule (os_schedule os n) n)"

text \<open>\<open>os.Getwd\<close> refuses a working directory that is not absolute.\<close>

definition go_getwd :: "os_env \<Rightarrow> string result" where
  "go_getwd os =
     (case os_getwd os of
        Inl e \<Rightarrow> Inl e
      | Inr wd \<Rightarrow> if is_abs wd then Inr wd else Inl ''getwd: no such file or directory'')"

definition path_abs :: "os_env \<Rightarrow> string \<Rightarrow> string result" where
  "path_abs os p =
     (if is_abs p then Inr (clean p)
      else (case go_getwd os of Inl e \<Rightarrow> Inl e | Inr wd \<Rightarrow> Inr (path_join wd p)))"

subsection \<open>The loop\<close>

text \<open>
  \<open>dest\<close> cut at its last separator at or after the volume \<open>vol\<close> (which is \<open>/\<close> for a
  rooted path and empty otherwise): what is before it and what is after it.
\<close>

definition last_sep :: "string \<Rightarrow> string \<Rightarrow> (string \<times> string) option" where
  "last_sep vol dest =
     (let t = rev (drop (length vol) dest)
      in if slash \<in> set t
         then Some (take (length vol) dest @ rev (tl (dropWhile (\<lambda>c. c \<noteq> slash) t)),
                    rev (takeWhile (\<lambda>c. c \<noteq> slash) t))
         else None)"

text \<open>A \<open>..\<close> component: back up when possible, else keep it.\<close>

definition step_up :: "string \<Rightarrow> string \<Rightarrow> string" where
  "step_up vol dest =
     (let keep = (if length vol < length dest then dest @ ''/'' else dest) @ ''..''
      in case last_sep vol dest of
           None \<Rightarrow> keep
         | Some (base, lst) \<Rightarrow> if lst = ''..'' then keep else base)"

definition max_links :: nat where
  "max_links = 255"

definition too_many_links :: go_error where
  "too_many_links = ''EvalSymlinks: too many links''"

definition err_notdir :: go_error where
  "err_notdir = ''not a directory''"

definition push_comp :: "string \<Rightarrow> string \<Rightarrow> string" where
  "push_comp dest c = (if dest \<noteq> [] \<and> last dest \<noteq> slash then dest @ ''/'' else dest) @ c"

text \<open>The variables of the loop; \<open>path\<close> is what is still to be walked, and one
  iteration either ends the walk or yields the variables of the next.\<close>

record walk_state =
  wk_vol :: string
  wk_dest :: string
  wk_links :: nat
  wk_path :: string

definition next_comp :: "string \<Rightarrow> string \<times> string" where
  "next_comp p =
     (let p = dropWhile (\<lambda>c. c = slash) p
      in (takeWhile (\<lambda>c. c \<noteq> slash) p, dropWhile (\<lambda>c. c \<noteq> slash) p))"

definition walk_iter :: "os_env \<Rightarrow> walk_state \<Rightarrow> string result + walk_state" where
  "walk_iter os w =
     (case next_comp (wk_path w) of (seg, rest) \<Rightarrow>
        if seg = [] then Inl (Inr (clean (wk_dest w)))
         else if seg = ''.'' then Inr (w\<lparr>wk_path := rest\<rparr>)
         else if seg = ''..'' then Inr (w\<lparr>wk_dest := step_up (wk_vol w) (wk_dest w), wk_path := rest\<rparr>)
         else
           (let dest' = push_comp (wk_dest w) seg
            in case os_lstat os dest' of
                 Inl e \<Rightarrow> Inl (Inl e)
               | Inr Regular \<Rightarrow>
                   if rest \<noteq> [] then Inl (Inl err_notdir) else Inr (w\<lparr>wk_dest := dest', wk_path := rest\<rparr>)
               | Inr Directory \<Rightarrow> Inr (w\<lparr>wk_dest := dest', wk_path := rest\<rparr>)
               | Inr Symlink \<Rightarrow>
                   if max_links < Suc (wk_links w) then Inl (Inl too_many_links)
                   else
                     (case os_readlink os dest' of
                        Inl e \<Rightarrow> Inl (Inl e)
                      | Inr link \<Rightarrow>
                          if is_abs link
                          then Inr \<lparr>wk_vol = ''/'', wk_dest = ''/'', wk_links = Suc (wk_links w),
                                    wk_path = tl link @ rest\<rparr>
                          else Inr (w\<lparr>wk_dest := (case last_sep (wk_vol w) dest' of
                                                 None \<Rightarrow> wk_vol w | Some (base, _) \<Rightarrow> base),
                                      wk_links := Suc (wk_links w), wk_path := link @ rest\<rparr>))))"

lemma next_comp_Nil [simp]: "next_comp [] = ([], [])"
  by (simp add: next_comp_def)

lemma next_comp_shorter:
  assumes "next_comp xs = (seg, rest)" and "seg \<noteq> []"
  shows "length rest < length xs"
proof -
  let ?p = "dropWhile (\<lambda>c. c = slash) xs"
  have "length rest < length ?p"
    using assms by (cases ?p) (auto simp: next_comp_def le_imp_less_Suc length_dropWhile_le
        split: if_splits)
  also have "\<dots> \<le> length xs" by (rule length_dropWhile_le)
  finally show ?thesis .
qed

text \<open>The loop ends on every file system: an iteration consumes a component or follows
  one of at most 255 links.\<close>

lemma walk_iter_decreases:
  "walk_iter os w = Inr w' \<Longrightarrow>
     max_links - wk_links w' < max_links - wk_links w \<or>
     wk_links w' = wk_links w \<and> length (wk_path w') < length (wk_path w)"
  by (auto simp: walk_iter_def Let_def next_comp_shorter
      split: prod.splits if_splits sum.splits file_kind.splits)

function walk_symlinks :: "os_env \<Rightarrow> walk_state \<Rightarrow> string result" where
  "walk_symlinks os w =
     (case walk_iter os w of Inl r \<Rightarrow> r | Inr w' \<Rightarrow> walk_symlinks os w')"
  by pat_completeness auto

termination
  by (relation "measures [\<lambda>(_, w). max_links - wk_links w, \<lambda>(_, w). length (wk_path w)]")
    (auto dest: walk_iter_decreases)

declare walk_symlinks.simps [simp del]

definition eval_symlinks :: "os_env \<Rightarrow> string \<Rightarrow> string result" where
  "eval_symlinks os p =
     (let v = (if is_abs p then ''/'' else '''')
      in walk_symlinks os \<lparr>wk_vol = v, wk_dest = v, wk_links = 0, wk_path = drop (length v) p\<rparr>)"

subsection \<open>Results are canonical\<close>

lemma is_abs_append [simp]: "is_abs a \<Longrightarrow> is_abs (a @ b)"
  by (auto simp: is_abs_def split: list.splits)

lemma is_abs_slash [simp]: "is_abs ''/''"
  by (simp add: is_abs_def)

lemma is_abs_take1: "is_abs d \<Longrightarrow> is_abs (take (Suc 0) d)"
  by (auto simp: is_abs_def split: list.splits)

lemma last_sep_is_abs: "is_abs dest \<Longrightarrow> last_sep ''/'' dest = Some (base, lst) \<Longrightarrow> is_abs base"
  by (auto simp: last_sep_def Let_def is_abs_take1 split: if_splits)

lemma step_up_is_abs: "is_abs dest \<Longrightarrow> is_abs (step_up ''/'' dest)"
  by (auto simp: step_up_def Let_def dest: last_sep_is_abs split: option.splits)

lemma push_comp_is_abs: "is_abs dest \<Longrightarrow> is_abs (push_comp dest c)"
  by (simp add: push_comp_def)

definition rooted_walk :: "walk_state \<Rightarrow> bool" where
  "rooted_walk w \<longleftrightarrow> wk_vol w = ''/'' \<and> is_abs (wk_dest w)"

lemma walk_iter_rooted:
  "walk_iter os w = Inr w' \<Longrightarrow> rooted_walk w \<Longrightarrow> rooted_walk w'"
  by (auto simp: walk_iter_def Let_def rooted_walk_def step_up_is_abs push_comp_is_abs
      dest: last_sep_is_abs [OF push_comp_is_abs, rotated]
      split: prod.splits if_splits sum.splits file_kind.splits option.splits)

lemma walk_iter_result:
  "walk_iter os w = Inl (Inr r) \<Longrightarrow> r = clean (wk_dest w)"
  by (auto simp: walk_iter_def Let_def split: prod.splits if_splits sum.splits file_kind.splits)

lemma walk_symlinks_canonical:
  "walk_symlinks os w = Inr r \<Longrightarrow> rooted_walk w \<Longrightarrow> canonical r"
proof (induction os w rule: walk_symlinks.induct)
  case (1 os w)
  show ?case
  proof (cases "walk_iter os w")
    case (Inl res)
    then have "r = clean (wk_dest w)"
      using 1(2) walk_iter_result [of os w r] by (simp add: walk_symlinks.simps)
    then show ?thesis using 1(3) by (simp add: rooted_walk_def canonical_clean)
  next
    case (Inr w')
    then show ?thesis
      using 1 walk_iter_rooted [OF Inr] by (simp add: walk_symlinks.simps [of os w])
  qed
qed

lemma eval_symlinks_canonical: "eval_symlinks os p = Inr r \<Longrightarrow> is_abs p \<Longrightarrow> canonical r"
  by (auto simp: eval_symlinks_def rooted_walk_def Let_def elim!: walk_symlinks_canonical)

lemma path_abs_is_abs: "path_abs os p = Inr a \<Longrightarrow> is_abs a"
  by (auto simp: path_abs_def go_getwd_def path_join_def clean_rooted split: if_splits sum.splits)

end
