(* ===== verification/Datasources.thy ===== *)
theory Datasources
  imports Cache_Lru Go_Symlinks
begin

text \<open>
  The merged view over all datasources (\<open>internal/datasources/provider.go\<close>): every
  variable is sanitized once, every provider is asked, and the answers are unioned per
  variable name in the configured order.
\<close>

subsection \<open>Sanitizing\<close>

definition maxVarValueLen :: nat where
  "maxVarValueLen = 4 * 1024"

text \<open>\<open>None\<close> for a valid value, else the reason.\<close>

definition validVarValue :: "string \<Rightarrow> string option" where
  "validVarValue v =
     (if v = [] then Some ''empty''
      else if maxVarValueLen < length v then Some ''too long''
      else if has_control v then Some ''contains control characters''
      else None)"

definition maxLoggedRunes :: nat where
  "maxLoggedRunes = 80"

definition sanitizeForLog :: "(nat \<Rightarrow> bool) \<Rightarrow> string \<Rightarrow> string" where
  "sanitizeForLog is_print v =
     (let rs = runes v;
          truncated = maxLoggedRunes < length rs;
          rs' = (if truncated then take maxLoggedRunes rs else rs);
          quoted = quote is_print (concat (map encode_rune rs'))
      in if truncated then quoted @ ''...(truncated)'' else quoted)"

definition WithRequestContext :: "go_ctx \<Rightarrow> string \<Rightarrow> string \<Rightarrow> go_ctx" where
  "WithRequestContext ctx mth uri = ctx\<lparr>ctx_request := Some (mth, uri)\<rparr>"

definition requestInfoFrom :: "go_ctx \<Rightarrow> (string \<times> string) option" where
  "requestInfoFrom ctx = ctx_request ctx"

definition warnRejected :: "(nat \<Rightarrow> bool) \<Rightarrow> go_ctx \<Rightarrow> string \<Rightarrow> string \<Rightarrow> string \<Rightarrow> event" where
  "warnRejected is_print ctx name v reason =
     Log LevelWarn ''rejected untrusted datasource input variable''
       ([(''variable'', name), (''reason'', reason), (''value'', sanitizeForLog is_print v)] @
        (case requestInfoFrom ctx of
           None \<Rightarrow> []
         | Some (mth, uri) \<Rightarrow> [(''request_method'', mth), (''request_uri'', uri)]))"

text \<open>The loop of \<open>sanitize\<close> over \<open>vars\<close>: what is kept, and the warnings.\<close>

fun sanitize_vars :: "(nat \<Rightarrow> bool) \<Rightarrow> go_ctx \<Rightarrow> string go_map \<Rightarrow> string go_map \<times> event list" where
  "sanitize_vars is_print ctx [] = ([], [])"
| "sanitize_vars is_print ctx ((name, v) # vars) =
     (let (kept, evs) = sanitize_vars is_print ctx vars
      in if name = identityVar then ((name, v) # kept, evs)
         else
           (case validVarValue v of
              Some reason \<Rightarrow> (kept, warnRejected is_print ctx name v reason # evs)
            | None \<Rightarrow> ((name, v) # kept, evs)))"

definition sanitize :: "(nat \<Rightarrow> bool) \<Rightarrow> go_ctx \<Rightarrow> string go_map \<Rightarrow> string go_map option \<times> event list" where
  "sanitize is_print ctx vars =
     (let identity = read_string vars identityVar
      in case validVarValue identity of
           Some reason \<Rightarrow> (None, [warnRejected is_print ctx identityVar identity reason])
         | None \<Rightarrow>
             (let (kept, evs) = sanitize_vars is_print ctx vars in (Some kept, evs)))"

subsection \<open>Union\<close>

text \<open>\<open>dst\<close> and \<open>seen\<close> of \<open>unionInto\<close>, which mutates both.\<close>

type_synonym merge_state = "(string \<rightharpoonup> string list) \<times> (string \<rightharpoonup> string set)"

fun union_values :: "string \<Rightarrow> string list \<Rightarrow> merge_state \<Rightarrow> merge_state" where
  "union_values name [] st = st"
| "union_values name (v # vs) (dst, seen) =
     (let dup = (case seen name of None \<Rightarrow> {} | Some s \<Rightarrow> s)
      in if v \<in> dup then union_values name vs (dst, seen)
         else union_values name vs
                (dst(name \<mapsto> read_list dst name @ [v]), seen(name \<mapsto> insert v dup)))"

definition union_entry :: "string \<times> string list \<Rightarrow> merge_state \<Rightarrow> merge_state" where
  "union_entry entry st =
     (case (entry, st) of
        ((name, vs), (dst, seen)) \<Rightarrow>
          union_values name vs
            (dst, case seen name of None \<Rightarrow> seen(name \<mapsto> {}) | Some _ \<Rightarrow> seen))"

definition unionInto :: "resolved \<Rightarrow> merge_state \<Rightarrow> merge_state" where
  "unionInto src st = fold union_entry src st"

definition merge_results :: "resolved list \<Rightarrow> (string \<rightharpoonup> string list)" where
  "merge_results results = fst (fold unionInto results (Map.empty, Map.empty))"

subsection \<open>The set\<close>

record ('c, 'b) ds_set =
  providers :: "('c, 'b) cached_provider list"

definition set_flush :: "'c lru_ops \<Rightarrow> ('c, 'b) ds_set \<Rightarrow> ('c, 'b) ds_set" where
  "set_flush ops s = s\<lparr>providers := map (cache_flush ops) (providers s)\<rparr>"

text \<open>One goroutine per provider: the \<open>i\<close>-th resolves and writes \<open>results[i]\<close>, which stays
  nil when it fails. \<open>order\<close> is the order in which the goroutines get to run.\<close>

definition ask_provider ::
  "'c lru_ops \<Rightarrow> go_ctx \<Rightarrow> string go_map \<Rightarrow> nat \<Rightarrow>
     ('c, 'b) cached_provider list \<times> resolved list \<times> 'b world \<Rightarrow>
     ('c, 'b) cached_provider list \<times> resolved list \<times> 'b world" where
  "ask_provider ops ctx vars i st =
     (case st of
        (ps, results, w) \<Rightarrow>
          (case cached_resolve ops ctx vars (ps ! i) w of
             (r, p', w') \<Rightarrow>
               (ps[i := p'],
                (case r of Inl _ \<Rightarrow> results | Inr v \<Rightarrow> results[i := v]),
                w')))"

definition set_resolve_in_order ::
  "nat list \<Rightarrow> 'c lru_ops \<Rightarrow> go_ctx \<Rightarrow> string go_map \<Rightarrow> ('c, 'b) ds_set \<Rightarrow> 'b world \<Rightarrow>
     (string \<rightharpoonup> string list) \<times> ('c, 'b) ds_set \<times> 'b world" where
  "set_resolve_in_order order ops ctx vars s w =
     (case sanitize (print_table w) ctx vars of
        (None, evs) \<Rightarrow> (Map.empty, s, emit_all evs w)
      | (Some kept, evs) \<Rightarrow>
          if providers s = [] then (Map.empty, s, emit_all evs w)
          else
            (case fold (ask_provider ops ctx kept) order
                    (providers s, replicate (length (providers s)) [], emit_all evs w) of
               (ps, results, w') \<Rightarrow> (merge_results results, s\<lparr>providers := ps\<rparr>, w')))"

definition set_resolve ::
  "os_env \<Rightarrow> 'c lru_ops \<Rightarrow> go_ctx \<Rightarrow> string go_map \<Rightarrow> ('c, 'b) ds_set \<Rightarrow> 'b world \<Rightarrow>
     (string \<rightharpoonup> string list) \<times> ('c, 'b) ds_set \<times> 'b world" where
  "set_resolve os ops ctx vars s w =
     set_resolve_in_order (os_schedule os (length (providers s))) ops ctx vars s w"

subsection \<open>Building the set\<close>

text \<open>A configured entry; \<open>Raw\<close> is the undecoded rest, of the type \<open>'r\<close> of YAML nodes. A
  factory is what a provider package registered under a type name.\<close>

record 'r ds_config =
  Name :: string
  Typ :: string
  CacheTTL :: int
  Raw :: 'r

type_synonym ('r, 'b) factory = "string \<Rightarrow> 'r \<Rightarrow> 'b provider result"
type_synonym ('r, 'b) registry = "string \<rightharpoonup> ('r, 'b) factory"

definition register :: "string \<Rightarrow> ('r, 'b) factory \<Rightarrow> ('r, 'b) registry \<Rightarrow> ('r, 'b) registry" where
  "register typeName f reg = reg(typeName \<mapsto> f)"

definition lookup :: "string \<Rightarrow> ('r, 'b) registry \<Rightarrow> ('r, 'b) factory option" where
  "lookup typeName reg = reg typeName"

definition errUnknownType :: "(nat \<Rightarrow> bool) \<Rightarrow> string \<Rightarrow> string \<Rightarrow> go_error" where
  "errUnknownType is_print name typeName =
     ''datasources: datasource '' @ quote is_print name @ '': unknown type '' @
     quote is_print typeName @ '' (no Factory registered)''"

definition new_provider ::
  "(nat \<Rightarrow> bool) \<Rightarrow> meter \<Rightarrow> ('r, 'b) registry \<Rightarrow> 'c \<Rightarrow> 'r ds_config \<Rightarrow> ('c, 'b) cached_provider result" where
  "new_provider is_print meter reg empty_cache cfg =
     (case lookup (Typ cfg) reg of
        None \<Rightarrow> Inl (errUnknownType is_print (Name cfg) (Typ cfg))
      | Some f \<Rightarrow>
          (case f (Name cfg) (Raw cfg) of
             Inl e \<Rightarrow> Inl (''datasources: constructing datasource '' @ quote is_print (Name cfg) @
                        '' (type '' @ quote is_print (Typ cfg) @ ''): '' @ e)
           | Inr p \<Rightarrow>
               (case newCachedProvider meter (Name cfg) (Typ cfg) (CacheTTL cfg) p empty_cache of
                  Inl e \<Rightarrow> Inl (''datasources: wiring cache for datasource '' @ quote is_print (Name cfg) @ '': '' @ e)
                | Inr cached \<Rightarrow> Inr cached)))"

fun new_providers ::
  "(nat \<Rightarrow> bool) \<Rightarrow> meter \<Rightarrow> ('r, 'b) registry \<Rightarrow> 'c \<Rightarrow> 'r ds_config list \<Rightarrow>
     ('c, 'b) cached_provider list result" where
  "new_providers is_print meter reg empty_cache [] = Inr []"
| "new_providers is_print meter reg empty_cache (cfg # cfgs) =
     (case new_provider is_print meter reg empty_cache cfg of
        Inl e \<Rightarrow> Inl e
      | Inr p \<Rightarrow>
          (case new_providers is_print meter reg empty_cache cfgs of
             Inl e \<Rightarrow> Inl e
           | Inr ps \<Rightarrow> Inr (p # ps)))"

definition NewSet ::
  "(nat \<Rightarrow> bool) \<Rightarrow> meter \<Rightarrow> ('r, 'b) registry \<Rightarrow> 'c \<Rightarrow> 'r ds_config list \<Rightarrow> ('c, 'b) ds_set result" where
  "NewSet is_print meter reg empty_cache cfgs =
     (case new_providers is_print meter reg empty_cache cfgs of
        Inl e \<Rightarrow> Inl e
      | Inr ps \<Rightarrow> Inr \<lparr>providers = ps\<rparr>)"

subsection \<open>What the union holds\<close>

definition seen_of :: "(string \<rightharpoonup> string set) \<Rightarrow> string \<Rightarrow> string set" where
  "seen_of seen name = (case seen name of None \<Rightarrow> {} | Some s \<Rightarrow> s)"

definition merge_ok :: "merge_state \<Rightarrow> bool" where
  "merge_ok st \<longleftrightarrow> (\<forall>name. seen_of (snd st) name = set (read_list (fst st) name))"

definition values_of :: "resolved \<Rightarrow> string \<Rightarrow> string list" where
  "values_of r name = concat (map snd (filter (\<lambda>(n, _). n = name) r))"

lemma seen_of_upd [simp]:
  "seen_of (seen(n \<mapsto> s)) name = (if name = n then s else seen_of seen name)"
  by (simp add: seen_of_def)

lemma union_values_spec:
  "merge_ok st \<Longrightarrow>
     merge_ok (union_values name vs st) \<and>
     (\<forall>n. read_list (fst (union_values name vs st)) n =
        (if n = name then dedup_onto (read_list (fst st) n) vs else read_list (fst st) n))"
proof (induction name vs st rule: union_values.induct)
  case (2 name v vs dst seen)
  have dup: "(case seen name of None \<Rightarrow> {} | Some s \<Rightarrow> s) = set (read_list dst name)"
    using 2(3) by (simp add: merge_ok_def seen_of_def)
  show ?case
  proof (cases "v \<in> set (read_list dst name)")
    case True
    with 2 dup show ?thesis by (simp add: Let_def)
  next
    case False
    have "merge_ok (dst(name \<mapsto> read_list dst name @ [v]),
        seen(name \<mapsto> insert v (set (read_list dst name))))"
      using 2(3) by (auto simp: merge_ok_def)
    with 2(2) [OF dup [symmetric]] False dup show ?thesis by (simp add: Let_def)
  qed
qed simp

lemma union_entry_spec:
  assumes "merge_ok st"
  shows "merge_ok (union_entry (name, vs) st) \<and>
     (\<forall>n. read_list (fst (union_entry (name, vs) st)) n =
        (if n = name then dedup_onto (read_list (fst st) n) vs else read_list (fst st) n))"
proof -
  obtain dst seen where st: "st = (dst, seen)" by fastforce
  let ?seen = "case seen name of None \<Rightarrow> seen(name \<mapsto> {}) | Some _ \<Rightarrow> seen"
  have "seen_of ?seen n = seen_of seen n" for n
    by (auto simp: seen_of_def split: option.splits)
  then have "merge_ok (dst, ?seen)" using assms st by (simp add: merge_ok_def)
  from union_values_spec [OF this, of name vs] show ?thesis
    by (simp add: union_entry_def st)
qed

lemma unionInto_spec:
  "merge_ok st \<Longrightarrow>
     merge_ok (unionInto src st) \<and>
     (\<forall>n. read_list (fst (unionInto src st)) n =
        dedup_onto (read_list (fst st) n) (values_of src n))"
proof (induction src arbitrary: st)
  case (Cons e src)
  obtain name vs where e: "e = (name, vs)" by fastforce
  note one = union_entry_spec [OF Cons.prems, of name vs]
  from one Cons.IH [of "union_entry e st"] show ?case
    by (auto simp: unionInto_def e values_of_def dedup_onto_append)
qed (simp add: unionInto_def values_of_def)

lemma merge_fold_spec:
  "merge_ok st \<Longrightarrow>
     merge_ok (fold unionInto rs st) \<and>
     (\<forall>n. read_list (fst (fold unionInto rs st)) n =
        dedup_onto (read_list (fst st) n) (concat (map (\<lambda>r. values_of r n) rs)))"
proof (induction rs arbitrary: st)
  case (Cons r rs)
  from unionInto_spec [OF Cons.prems, of r] Cons.IH [of "unionInto r st"] show ?case
    by (auto simp: dedup_onto_append)
qed simp

lemma merge_results_spec:
  "read_list (merge_results rs) n = dedup_onto [] (concat (map (\<lambda>r. values_of r n) rs))"
proof -
  have "merge_ok (Map.empty, Map.empty)" by (simp add: merge_ok_def seen_of_def)
  from merge_fold_spec [OF this, of rs] show ?thesis by (simp add: merge_results_def)
qed

lemma values_of_well_keyed:
  "well_keyed r \<Longrightarrow> values_of r n = read_list (map_of r) n"
proof (induction r)
  case (Cons e r)
  obtain k vs where e: "e = (k, vs)" by fastforce
  have "values_of r k = []" if "k \<notin> fst ` set r"
    using that by (force simp: values_of_def filter_empty_conv)
  with Cons e show ?case by (auto simp: values_of_def read_list_def)
qed (simp add: values_of_def)

lemma values_of_Nil [simp]: "values_of [] n = []"
  by (simp add: values_of_def)

subsection \<open>Asking the providers in any order\<close>

abbreviation (input) slot :: "resolved \<Rightarrow> resolved result \<Rightarrow> resolved" where
  "slot old r \<equiv> (case r of Inl _ \<Rightarrow> old | Inr v \<Rightarrow> v)"

text \<open>Whatever the order, provider \<open>i\<close> is asked once, in its own initial state, and only
  its answer reaches slot \<open>i\<close>.\<close>

lemma ask_order:
  assumes "fold (ask_provider ops ctx vars) order (ps, results, w) = (ps', results', w')"
    and "distinct order" and "set order \<subseteq> {..<length ps}" and "length results = length ps"
  shows "length ps' = length ps \<and> length results' = length ps \<and>
    (\<forall>i<length ps.
       if i \<in> set order then
         \<exists>u r u'. cached_resolve ops ctx vars (ps ! i) u = (r, ps' ! i, u') \<and>
                  results' ! i = slot (results ! i) r
       else ps' ! i = ps ! i \<and> results' ! i = results ! i)"
  using assms
proof (induction order arbitrary: ps results w)
  case (Cons j order)
  obtain r p1 w1 where r: "cached_resolve ops ctx vars (ps ! j) w = (r, p1, w1)"
    by (cases "cached_resolve ops ctx vars (ps ! j) w") auto
  have j: "j < length ps" "j \<notin> set order" using Cons.prems by auto
  define ps1 where "ps1 = ps[j := p1]"
  define res1 where "res1 = (case r of Inl _ \<Rightarrow> results | Inr v \<Rightarrow> results[j := v])"
  have ask: "ask_provider ops ctx vars j (ps, results, w) = (ps1, res1, w1)"
    using r by (simp add: ask_provider_def ps1_def res1_def)
  have "fold (ask_provider ops ctx vars) order (ps1, res1, w1) = (ps', results', w')"
    using Cons.prems(1) ask by simp
  moreover have "length ps1 = length ps" "length res1 = length ps"
    using Cons.prems(4) by (auto simp: ps1_def res1_def split: sum.splits)
  moreover have at_j: "ps1 ! j = p1" "res1 ! j = slot (results ! j) r"
    using j Cons.prems(4) by (auto simp: ps1_def res1_def split: sum.splits)
  moreover have off: "ps1 ! i = ps ! i" "res1 ! i = results ! i" if "i \<noteq> j" for i
    using that by (auto simp: ps1_def res1_def split: sum.splits)
  ultimately have IH: "length ps' = length ps" "length results' = length ps"
    "\<And>i. i < length ps \<Longrightarrow> (if i \<in> set order then
         \<exists>u r u'. cached_resolve ops ctx vars (ps1 ! i) u = (r, ps' ! i, u') \<and>
                  results' ! i = slot (res1 ! i) r
       else ps' ! i = ps1 ! i \<and> results' ! i = res1 ! i)"
    using Cons.IH [of ps1 res1 w1] Cons.prems by auto
  have "if i \<in> set (j # order) then
         \<exists>u r u'. cached_resolve ops ctx vars (ps ! i) u = (r, ps' ! i, u') \<and>
                  results' ! i = slot (results ! i) r
       else ps' ! i = ps ! i \<and> results' ! i = results ! i" if i: "i < length ps" for i
  proof (cases "i = j")
    case True
    with IH(3) [OF i] j(2) at_j r show ?thesis by auto
  next
    case False
    then have "i \<in> set (j # order) \<longleftrightarrow> i \<in> set order" by simp
    with IH(3) [OF i] show ?thesis by (simp only: off [OF False])
  qed
  with IH(1,2) show ?case by blast
qed auto

lemma sanitize_invalid:
  "validVarValue (read_string vars identityVar) = Some reason \<Longrightarrow>
     fst (sanitize is_print ctx vars) = None"
  by (simp add: sanitize_def)

lemma sanitize_valid:
  "validVarValue (read_string vars identityVar) = None \<Longrightarrow>
     fst (sanitize is_print ctx vars) = Some (fst (sanitize_vars is_print ctx vars))"
  by (simp add: sanitize_def split: prod.splits)

lemma sanitize_vars_filter:
  "fst (sanitize_vars is_print ctx vars) =
     filter (\<lambda>(n, v). n = identityVar \<or> validVarValue v = None) vars"
proof (induction vars)
  case (Cons e vars)
  obtain n v where e: "e = (n, v)" by fastforce
  obtain kept evs where "sanitize_vars is_print ctx vars = (kept, evs)" by fastforce
  with Cons e show ?case by (auto split: option.splits)
qed simp

lemma map_of_filter_key:
  "P k \<Longrightarrow> map_of (filter (\<lambda>(n, v). P n \<or> Q n v) m) k = map_of m k"
  by (induction m) auto

lemma sanitize_keeps_identity:
  "read_string (fst (sanitize_vars is_print ctx vars)) identityVar = read_string vars identityVar"
  by (simp add: sanitize_vars_filter read_string_def map_of_filter_key)

lemma set_resolve_invalid:
  assumes "validVarValue (read_string vars identityVar) = Some reason"
  shows "set_resolve_in_order order ops ctx vars s w =
    (Map.empty, s, emit (warnRejected (print_table w) ctx identityVar
                           (read_string vars identityVar) reason) w)"
  using assms by (simp add: set_resolve_in_order_def sanitize_def emit_def emit_all_def)

text \<open>The invariant of a whole set, and what it gives for the merged result.\<close>

definition set_inv ::
  "('c \<Rightarrow> string \<Rightarrow> cache_entry option) \<Rightarrow> (string \<Rightarrow> resolved \<Rightarrow> bool) \<Rightarrow> ('c, 'b) ds_set \<Rightarrow> bool" where
  "set_inv peek P s \<longleftrightarrow>
     (\<forall>cp\<in>set (providers s). cache_inv peek P cp \<and> provider_answers P (cp_provider cp))"

text \<open>A whole resolution: every provider is asked once, in its own cache, and the answers are
  merged in the configured order.\<close>

lemma set_resolve_asked:
  assumes "set_resolve_in_order order ops ctx vars s w = (m, s', w')"
    and "schedule order (length (providers s))"
    and "validVarValue (read_string vars identityVar) = None"
  shows "providers s = [] \<and> m = Map.empty \<and> s' = s \<or>
    (\<exists>answers kept. length answers = length (providers s) \<and>
    length (providers s') = length (providers s) \<and> m = merge_results (map (slot []) answers) \<and>
    read_string kept identityVar = read_string vars identityVar \<and>
    (\<forall>i<length (providers s). \<exists>u u'.
       cached_resolve ops ctx kept (providers s ! i) u = (answers ! i, providers s' ! i, u')))"
proof (cases "providers s = []")
  case False
  obtain kept evs where sv: "sanitize_vars (print_table w) ctx vars = (kept, evs)" by fastforce
  let ?n = "length (providers s)"
  obtain ps results w1 where f: "fold (ask_provider ops ctx kept) order
      (providers s, replicate ?n [], emit_all evs w) = (ps, results, w1)"
    by (metis surj_pair)
  have m: "m = merge_results results" and s': "s' = s\<lparr>providers := ps\<rparr>"
    using assms(1,3) False sv f by (auto simp: set_resolve_in_order_def sanitize_def)
  have id: "read_string kept identityVar = read_string vars identityVar"
    using sanitize_keeps_identity [of "print_table w" ctx vars] sv by simp
  have asked: "length results = ?n" "length ps = ?n" "\<forall>i<?n. \<exists>u r u'.
      cached_resolve ops ctx kept (providers s ! i) u = (r, ps ! i, u') \<and> results ! i = slot [] r"
    using ask_order [OF f] assms(2) by (auto simp: schedule_def cong: sum.case_cong)
  then obtain f where f: "\<forall>i<?n. (\<exists>u u'.
      cached_resolve ops ctx kept (providers s ! i) u = (f i, ps ! i, u')) \<and> results ! i = slot [] (f i)"
    by metis
  let ?answers = "map f [0..<?n]"
  have "results = map (slot []) ?answers" using f asked(1) by (intro nth_equalityI) simp_all
  moreover have "length ?answers = ?n" by simp
  moreover have "\<forall>i<?n. \<exists>u u'. cached_resolve ops ctx kept (providers s ! i) u =
      (?answers ! i, providers s' ! i, u')"
    using f s' by simp
  moreover have "length (providers s') = ?n" using s' asked(2) by simp
  ultimately show ?thesis using m id by blast
qed (use assms(1,3) in \<open>auto simp: set_resolve_in_order_def sanitize_def split: prod.splits\<close>)

context lru
begin

lemma set_resolve_sound:
  assumes "set_resolve_in_order order ops ctx vars s w = (m, s', w')"
    and "schedule order (length (providers s))" and "set_inv peek P s"
  shows "set_inv peek P s' \<and>
    (\<forall>n. \<forall>v\<in>set (read_list m n). \<exists>r. P (read_string vars identityVar) r \<and> v \<in> set (values_of r n))"
proof (cases "m = Map.empty \<and> s' = s")
  case True
  with assms(3) show ?thesis by simp
next
  case False
  then have valid: "validVarValue (read_string vars identityVar) = None"
    using assms(1)
    by (cases "validVarValue (read_string vars identityVar)") (auto simp: set_resolve_invalid)
  from set_resolve_asked [OF assms(1,2) valid] False obtain answers kept where
    len: "length answers = length (providers s)" "length (providers s') = length (providers s)"
    and m: "m = merge_results (map (slot []) answers)"
    and kept: "read_string kept identityVar = read_string vars identityVar"
    and asked: "\<And>i. i < length (providers s) \<Longrightarrow> \<exists>u u'.
       cached_resolve ops ctx kept (providers s ! i) u = (answers ! i, providers s' ! i, u')"
    by blast
  have ok: "cache_inv peek P (providers s' ! i) \<and> provider_answers P (cp_provider (providers s' ! i)) \<and>
      (\<forall>v. answers ! i = Inr v \<longrightarrow> P (read_string vars identityVar) v)"
    if i: "i < length (providers s)" for i
  proof -
    from asked [OF i] obtain u u' where
      r: "cached_resolve ops ctx kept (providers s ! i) u = (answers ! i, providers s' ! i, u')" by blast
    have inv: "cache_inv peek P (providers s ! i)" "provider_answers P (cp_provider (providers s ! i))"
      using assms(3) i by (simp_all add: set_inv_def)
    show ?thesis
      using cached_resolve_sound [OF r inv] inv(2) kept same_setup_fields [OF cached_resolve_setup [OF r]]
      by simp
  qed
  have "\<exists>r. P (read_string vars identityVar) r \<and> v \<in> set (values_of r n)"
    if "v \<in> set (read_list m n)" for n v
  proof -
    from that obtain a where "a \<in> set answers" "v \<in> set (values_of (slot [] a) n)"
      by (auto simp: m merge_results_spec)
    moreover from this obtain r where "a = Inr r" by (auto split: sum.splits)
    moreover from calculation obtain i where "i < length (providers s)" "answers ! i = Inr r"
      using len(1) by (metis in_set_conv_nth)
    ultimately show ?thesis using ok by fastforce
  qed
  moreover have "set_inv peek P s'"
    using ok len(2) by (auto simp: set_inv_def in_set_conv_nth)
  ultimately show ?thesis by blast
qed

lemma set_flush_inv:
  "\<forall>cp\<in>set (providers s). provider_answers P (cp_provider cp) \<Longrightarrow> set_inv peek P (set_flush ops s)"
  by (auto simp: set_inv_def set_flush_def cache_flush_inv) (simp add: cache_flush_def)

end

end
