(* ===== verification/Config_Types.thy ===== *)
theory Config_Types
  imports Datasources
begin

text \<open>
  The configuration schema (\<open>internal/config/config.go\<close>, first part). A duration is its
  nanosecond count; the undecoded YAML node of a datasource entry has the type \<open>'r\<close>.
\<close>

type_synonym CheckSetting = string

definition CheckAllow :: CheckSetting where "CheckAllow = ''allow''"
definition CheckDeny :: CheckSetting where "CheckDeny = ''deny''"

definition valid_setting :: "CheckSetting \<Rightarrow> bool" where
  "valid_setting c \<longleftrightarrow> c = CheckAllow \<or> c = CheckDeny"

record checks_config =
  HostNetwork :: CheckSetting
  Privileged :: CheckSetting
  DockerCP :: CheckSetting
  DockerExec :: CheckSetting

record server_config =
  ListenAddr :: string
  ServerCert :: string
  ServerKey :: string
  MetricsPath :: string
  DecisionTimeout :: int

record 'r datasource_config =
  DsName :: string
  DsType :: string
  DsCacheTTL :: int
  DsRaw :: 'r

record 'r config =
  LoggingLevel :: string
  Server :: server_config
  Allowlist :: "string list"
  Datasources :: "'r datasource_config list"
  Checks :: checks_config
  AdminUsers :: "string list"
  AdminGroups :: "string list"
  ConfigDir :: string

text \<open>\<open>convertDatasources\<close> of \<open>server.go\<close> and of \<open>main.go\<close>, a copy field by field.\<close>

definition convertDatasources :: "'r datasource_config list \<Rightarrow> 'r ds_config list" where
  "convertDatasources cfgs =
     map (\<lambda>c. \<lparr>Name = DsName c, Typ = DsType c, CacheTTL = DsCacheTTL c, Raw = DsRaw c\<rparr>) cfgs"

definition zero_checks :: checks_config where
  "zero_checks = \<lparr>HostNetwork = [], Privileged = [], DockerCP = [], DockerExec = []\<rparr>"

definition zero_server :: server_config where
  "zero_server =
     \<lparr>ListenAddr = [], ServerCert = [], ServerKey = [], MetricsPath = [], DecisionTimeout = 0\<rparr>"

definition zero_config :: "'r config" where
  "zero_config =
     \<lparr>LoggingLevel = [], Server = zero_server, Allowlist = [], Datasources = [],
      Checks = zero_checks, AdminUsers = [], AdminGroups = [], ConfigDir = []\<rparr>"

lemma length_convertDatasources [simp]: "length (convertDatasources cfgs) = length cfgs"
  by (simp add: convertDatasources_def)

end
