(* ===== verification/Go_Duration.thy ===== *)
theory Go_Duration
  imports Prelude Go_Strings
begin

text \<open>
  \<open>time.ParseDuration\<close> and \<open>time.Duration.String\<close>, of which the configuration uses both
  (\<open>Duration\<close> in \<open>internal/config/config.go\<close>). Durations are nanoseconds in an \<open>int64\<close>, built
  up in a \<open>uint64\<close> that wraps. The one floating-point expression, for the fraction of a unit,
  is the argument \<open>fl\<close>; \<open>float_exact\<close> is what IEEE 754 says of it where the result is
  an integer a \<open>float64\<close> can hold.
\<close>

subsection \<open>Digits\<close>

definition is_digit :: "char \<Rightarrow> bool" where
  "is_digit c \<longleftrightarrow> 0x30 \<le> byte c \<and> byte c \<le> 0x39"

abbreviation (input) dot :: char where "dot \<equiv> CHR ''.''"

fun show_nat :: "nat \<Rightarrow> string" where
  "show_nat n =
     (if n < 10 then [char_of (0x30 + n)] else show_nat (n div 10) @ [char_of (0x30 + n mod 10)])"

declare show_nat.simps [simp del]

text \<open>\<open>leadingInt\<close>; \<open>None\<close> is its overflow error.\<close>

fun leading_int :: "nat \<Rightarrow> string \<Rightarrow> (nat \<times> string) option" where
  "leading_int x [] = Some (x, [])"
| "leading_int x (c # s) =
     (if \<not> is_digit c then Some (x, c # s)
      else if 2 ^ 63 div 10 < x then None
      else if 2 ^ 63 < x * 10 + (byte c - 0x30) then None
      else leading_int (x * 10 + (byte c - 0x30)) s)"

text \<open>\<open>leadingFraction\<close>: digits that would overflow are skipped.\<close>

fun leading_fraction :: "nat \<Rightarrow> nat \<Rightarrow> bool \<Rightarrow> string \<Rightarrow> nat \<times> nat \<times> string" where
  "leading_fraction x scale overflow [] = (x, scale, [])"
| "leading_fraction x scale overflow (c # s) =
     (if \<not> is_digit c then (x, scale, c # s)
      else if overflow \<or> (2 ^ 63 - 1) div 10 < x then leading_fraction x scale True s
      else if 2 ^ 63 < x * 10 + (byte c - 0x30) then leading_fraction x scale True s
      else leading_fraction (x * 10 + (byte c - 0x30)) (scale * 10) False s)"

subsection \<open>Parsing\<close>

definition unit_map :: "(string \<times> nat) list" where
  "unit_map =
     [(''ns'', 1), (''us'', 10 ^ 3), ([CHR 0xC2, CHR 0xB5, CHR ''s''], 10 ^ 3),
      ([CHR 0xCE, CHR 0xBC, CHR ''s''], 10 ^ 3), (''ms'', 10 ^ 6), (''s'', 10 ^ 9),
      (''m'', 60 * 10 ^ 9), (''h'', 3600 * 10 ^ 9)]"

text \<open>The package's own \<open>quote\<close>: every byte outside printable ASCII in hex.\<close>

definition lower_hex :: "nat \<Rightarrow> char" where
  "lower_hex n = char_of (if n < 10 then 0x30 + n else 0x57 + n)"

definition time_quote :: "string \<Rightarrow> string" where
  "time_quote s =
     [CHR 0x22] @
     concat (map (\<lambda>c. if 0x80 \<le> byte c \<or> byte c < 0x20
         then [CHR 0x5C, CHR ''x'', lower_hex (byte c div 16), lower_hex (byte c mod 16)]
         else if c = CHR 0x22 \<or> c = CHR 0x5C then [CHR 0x5C, c] else [c]) s) @
     [CHR 0x22]"

definition invalid_duration :: "string \<Rightarrow> go_error" where
  "invalid_duration orig = ''time: invalid duration '' @ time_quote orig"

definition after_point :: "string \<Rightarrow> bool \<times> nat \<times> nat \<times> string" where
  "after_point s =
     (case s of
        [] \<Rightarrow> (False, 0, 1, s)
      | c # s' \<Rightarrow>
          if c = dot
          then (case leading_fraction 0 1 False s' of (f, scale, s2) \<Rightarrow> (length s' \<noteq> length s2, f, scale, s2))
          else (False, 0, 1, s))"

definition unit_char :: "char \<Rightarrow> bool" where
  "unit_char c \<longleftrightarrow> c \<noteq> dot \<and> \<not> is_digit c"

text \<open>One round of the loop: a number with its unit, and what follows.\<close>

definition parse_value :: "(nat \<Rightarrow> nat \<Rightarrow> nat \<Rightarrow> nat) \<Rightarrow> string \<Rightarrow> string \<Rightarrow> go_error + nat \<times> string" where
  "parse_value fl orig s =
     (if s = [] \<or> unit_char (hd s) then Inl (invalid_duration orig)
      else
        (case leading_int 0 s of
           None \<Rightarrow> Inl (invalid_duration orig)
         | Some (v, s1) \<Rightarrow>
             (let (post, f, scale, s2) = after_point s1;
                  u = takeWhile unit_char s2;
                  s3 = dropWhile unit_char s2
              in if length s = length s1 \<and> \<not> post then Inl (invalid_duration orig)
                 else if u = [] then Inl (''time: missing unit in duration '' @ time_quote orig)
                 else
                   (case map_of unit_map u of
                      None \<Rightarrow> Inl (''time: unknown unit '' @ time_quote u @ '' in duration '' @ time_quote orig)
                    | Some unit \<Rightarrow>
                        if 2 ^ 63 div unit < v then Inl (invalid_duration orig)
                        else if f = 0 then Inr (v * unit, s3)
                        else
                          (let v' = (v * unit + fl f unit scale) mod 2 ^ 64
                           in if 2 ^ 63 < v' then Inl (invalid_duration orig) else Inr (v', s3))))))"

lemma leading_int_suffix: "leading_int x s = Some (v, r) \<Longrightarrow> length r \<le> length s"
  by (induction x s rule: leading_int.induct) (fastforce split: if_splits)+

lemma leading_fraction_suffix: "leading_fraction x sc ov s = (f, sc', r) \<Longrightarrow> length r \<le> length s"
  by (induction x sc ov s rule: leading_fraction.induct) (fastforce split: if_splits)+

lemma after_point_suffix: "after_point s = (post, f, sc, r) \<Longrightarrow> length r \<le> length s"
  by (auto simp: after_point_def split: list.splits if_splits prod.splits dest!: leading_fraction_suffix)

lemma parse_value_shorter:
  assumes "parse_value fl orig s = Inr (v, r)"
  shows "length r < length s"
proof -
  obtain w s1 where i: "leading_int 0 s = Some (w, s1)"
    using assms by (auto simp: parse_value_def split: if_splits option.splits)
  obtain post f sc s2 where a: "after_point s1 = (post, f, sc, s2)" by (metis surj_pair)
  have u: "takeWhile unit_char s2 \<noteq> []" and r: "r = dropWhile unit_char s2"
    using assms i a by (auto simp: parse_value_def Let_def split: if_splits option.splits)
  have "length (takeWhile unit_char s2) + length r = length s2"
    unfolding r by (metis length_append takeWhile_dropWhile_id)
  moreover have "0 < length (takeWhile unit_char s2)" using u by simp
  ultimately show ?thesis
    using leading_int_suffix [OF i] after_point_suffix [OF a] by linarith
qed

function parse_loop :: "(nat \<Rightarrow> nat \<Rightarrow> nat \<Rightarrow> nat) \<Rightarrow> string \<Rightarrow> nat \<Rightarrow> string \<Rightarrow> go_error + nat" where
  "parse_loop fl orig d s =
     (if s = [] then Inr d
      else
        (case parse_value fl orig s of
           Inl e \<Rightarrow> Inl e
         | Inr (v, r) \<Rightarrow>
             (let d' = (d + v) mod 2 ^ 64
              in if 2 ^ 63 < d' then Inl (invalid_duration orig) else parse_loop fl orig d' r)))"
  by pat_completeness auto
termination
  by (relation "measure (\<lambda>(_, _, _, s). length s)") (auto dest: parse_value_shorter)

declare parse_loop.simps [simp del]

definition ParseDuration :: "(nat \<Rightarrow> nat \<Rightarrow> nat \<Rightarrow> nat) \<Rightarrow> string \<Rightarrow> int result" where
  "ParseDuration fl s =
     (let (neg, s1) =
        (case s of
           [] \<Rightarrow> (False, s)
         | c # r \<Rightarrow> if c = CHR ''-'' \<or> c = CHR ''+'' then (c = CHR ''-'', r) else (False, s))
      in if s1 = ''0'' then Inr 0
         else if s1 = [] then Inl (invalid_duration s)
         else
           (case parse_loop fl s 0 s1 of
              Inl e \<Rightarrow> Inl e
            | Inr d \<Rightarrow>
                if neg then Inr (- int d)
                else if 2 ^ 63 - 1 < d then Inl (invalid_duration s)
                else Inr (int d)))"

lemma parse_loop_bound: "parse_loop fl orig d s = Inr r \<Longrightarrow> d \<le> 2 ^ 63 \<Longrightarrow> r \<le> 2 ^ 63"
proof (induction fl orig d s rule: parse_loop.induct)
  case (1 fl orig d s)
  show ?case
  proof (cases "s = []")
    case False
    then obtain v r' where v: "parse_value fl orig s = Inr (v, r')"
      using 1(2) by (subst (asm) parse_loop.simps) (auto split: sum.splits)
    then have "\<not> 2 ^ 63 < (d + v) mod 2 ^ 64" "parse_loop fl orig ((d + v) mod 2 ^ 64) r' = Inr r"
      using 1(2) False by (subst (asm) parse_loop.simps, auto simp: Let_def split: if_splits)+
    with 1(1) [OF False v refl refl] show ?thesis by simp
  qed (use 1 in \<open>simp add: parse_loop.simps\<close>)
qed

text \<open>What is parsed is an \<open>int64\<close>.\<close>

lemma ParseDuration_range:
  assumes "ParseDuration fl s = Inr d"
  shows "- (2 ^ 63) \<le> d \<and> d < 2 ^ 63"
proof -
  have "d = 0 \<or> (\<exists>s1 n. parse_loop fl s 0 s1 = Inr n \<and> (d = - int n \<or> d = int n \<and> n \<le> 2 ^ 63 - 1))"
    using assms by (auto simp: ParseDuration_def Let_def not_less split: list.splits if_splits sum.splits)
  then show ?thesis
  proof (elim disjE exE conjE)
    fix s1 n assume "parse_loop fl s 0 s1 = Inr n"
    then have "n \<le> 2 ^ 63" by (rule parse_loop_bound) simp
    then have "int n \<le> 2 ^ 63" by (metis of_nat_le_iff of_nat_numeral of_nat_power)
    moreover assume "d = - int n"
    ultimately show ?thesis by simp
  next
    fix s1 n assume "d = int n" "n \<le> 2 ^ 63 - 1"
    then show ?thesis by simp
  qed simp
qed

subsection \<open>Printing\<close>

text \<open>\<open>fmtFrac\<close>: the buffer is filled from its end, so the digits come out last first.\<close>

fun fmt_frac :: "nat \<Rightarrow> bool \<Rightarrow> nat \<Rightarrow> string \<Rightarrow> string \<times> nat" where
  "fmt_frac 0 print v buf = (if print then dot # buf else buf, v)"
| "fmt_frac (Suc n) print v buf =
     (let print' = (print \<or> v mod 10 \<noteq> 0)
      in fmt_frac n print' (v div 10) (if print' then char_of (0x30 + v mod 10) # buf else buf))"

definition format_small :: "nat \<Rightarrow> string" where
  "format_small u =
     (if u = 0 then ''0s''
      else
        (let (prec, unit) =
           (if u < 10 ^ 3 then (0, ''ns'')
            else if u < 10 ^ 6 then (3, [CHR 0xC2, CHR 0xB5, CHR ''s''])
            else (6, ''ms''));
             (buf, v) = fmt_frac prec False u unit
         in show_nat v @ buf))"

definition format_large :: "nat \<Rightarrow> string" where
  "format_large u =
     (let (buf, secs) = fmt_frac 9 False u ''s'';
          buf1 = show_nat (secs mod 60) @ buf;
          mins = secs div 60
      in if mins = 0 then buf1
         else
           (let buf2 = show_nat (mins mod 60) @ ''m'' @ buf1;
                hours = mins div 60
            in if hours = 0 then buf2 else show_nat hours @ ''h'' @ buf2))"

definition Duration_String :: "int \<Rightarrow> string" where
  "Duration_String d =
     (let u = nat \<bar>d\<bar>;
          s = (if u < 10 ^ 9 then format_small u else format_large u)
      in if d < 0 then CHR ''-'' # s else s)"

subsection \<open>Reading back what was printed\<close>

definition float_exact :: "(nat \<Rightarrow> nat \<Rightarrow> nat \<Rightarrow> nat) \<Rightarrow> bool" where
  "float_exact fl \<longleftrightarrow>
     (\<forall>f unit scale. scale dvd unit \<longrightarrow> f * (unit div scale) < 2 ^ 53 \<longrightarrow>
        fl f unit scale = f * (unit div scale))"

fun dval :: "nat \<Rightarrow> string \<Rightarrow> nat" where
  "dval x [] = x"
| "dval x (c # s) = dval (x * 10 + (byte c - 0x30)) s"

text \<open>What may follow a run of digits.\<close>

definition stops :: "string \<Rightarrow> bool" where
  "stops s \<longleftrightarrow> s = [] \<or> \<not> is_digit (hd s)"

lemma dval_append: "dval x (s @ t) = dval (dval x s) t"
  by (induction x s rule: dval.induct) simp_all

lemma dval_ge: "x \<le> dval x s"
proof (induction x s rule: dval.induct)
  case (2 x c s)
  then show ?case by simp
qed simp

lemma digit_char [simp]: "n < 10 \<Longrightarrow> is_digit (char_of (0x30 + n))" "n < 10 \<Longrightarrow> byte (char_of (0x30 + n)) = 0x30 + n"
  by (simp_all add: is_digit_def)

lemma show_nat_digits: "list_all is_digit (show_nat n)"
  by (induction n rule: show_nat.induct) (subst show_nat.simps, simp)

lemma show_nat_nonempty: "show_nat n \<noteq> []"
  by (subst show_nat.simps) simp

lemma dval_show_nat: "dval 0 (show_nat n) = n"
  by (induction n rule: show_nat.induct) (subst show_nat.simps, simp add: dval_append)

lemma leading_int_digits:
  "list_all is_digit ds \<Longrightarrow> dval x ds \<le> 2 ^ 63 \<Longrightarrow> stops r \<Longrightarrow>
     leading_int x (ds @ r) = Some (dval x ds, r)"
proof (induction ds arbitrary: x)
  case Nil
  then show ?case by (cases r) (simp_all add: stops_def)
next
  case (Cons c ds)
  let ?y = "x * 10 + (byte c - 0x30)"
  have "?y \<le> 2 ^ 63" using dval_ge [of ?y ds] Cons.prems(2) by simp
  then have "\<not> 2 ^ 63 div 10 < x" "\<not> 2 ^ 63 < ?y" by simp_all
  with Cons show ?case by simp
qed

lemma leading_fraction_digits:
  "list_all is_digit ds \<Longrightarrow> dval x ds \<le> 2 ^ 63 - 1 \<Longrightarrow> stops r \<Longrightarrow>
     leading_fraction x sc False (ds @ r) = (dval x ds, sc * 10 ^ length ds, r)"
proof (induction ds arbitrary: x sc)
  case Nil
  then show ?case by (cases r) (simp_all add: stops_def)
next
  case (Cons c ds)
  let ?y = "x * 10 + (byte c - 0x30)"
  have "?y \<le> 2 ^ 63 - 1" using dval_ge [of ?y ds] Cons.prems(2) by simp
  then have "\<not> (2 ^ 63 - 1) div 10 < x" "\<not> 2 ^ 63 < ?y" by simp_all
  with Cons show ?case by simp
qed

lemma fmt_frac_print:
  "\<exists>ds. fmt_frac n True v buf = (dot # ds @ buf, v div 10 ^ n) \<and> list_all is_digit ds \<and>
     length ds = n \<and> dval 0 ds = v mod 10 ^ n"
proof (induction n arbitrary: v buf)
  case (Suc n)
  let ?d = "char_of (0x30 + v mod 10) :: char"
  obtain ds where "fmt_frac n True (v div 10) (?d # buf) = (dot # ds @ ?d # buf, v div 10 div 10 ^ n)"
    "list_all is_digit ds" "length ds = n" "dval 0 ds = v div 10 mod 10 ^ n"
    using Suc by blast
  then show ?case
    by (intro exI [of _ "ds @ [?d]"])
      (simp add: dval_append div_mult2_eq [symmetric] mod_mult2_eq mult.commute)
qed simp

lemma fmt_frac_False:
  "\<exists>ds. fmt_frac n False v buf = ((if v mod 10 ^ n = 0 then buf else dot # ds @ buf), v div 10 ^ n) \<and>
     list_all is_digit ds \<and> length ds \<le> n \<and> dval 0 ds * 10 ^ (n - length ds) = v mod 10 ^ n"
proof (induction n arbitrary: v buf)
  case (Suc n)
  have split: "v mod (10 * 10 ^ n) = 10 * (v div 10 mod 10 ^ n) + v mod 10"
    by (simp add: mod_mult2_eq)
  show ?case
  proof (cases "v mod 10 = 0")
    case True
    obtain ds where ds: "fmt_frac n False (v div 10) buf =
        ((if v div 10 mod 10 ^ n = 0 then buf else dot # ds @ buf), v div 10 div 10 ^ n)"
      "list_all is_digit ds" "length ds \<le> n" "dval 0 ds * 10 ^ (n - length ds) = v div 10 mod 10 ^ n"
      using Suc by blast
    then have "dval 0 ds * 10 ^ (Suc n - length ds) = 10 * (v div 10 mod 10 ^ n)"
      by (simp add: Suc_diff_le)
    with ds True show ?thesis
      by (intro exI [of _ ds]) (simp add: split div_mult2_eq [symmetric])
  next
    case False
    let ?d = "char_of (0x30 + v mod 10) :: char"
    obtain ds where "fmt_frac n True (v div 10) (?d # buf) = (dot # ds @ ?d # buf, v div 10 div 10 ^ n)"
      "list_all is_digit ds" "length ds = n" "dval 0 ds = v div 10 mod 10 ^ n"
      using fmt_frac_print by blast
    with False show ?thesis
      by (intro exI [of _ "ds @ [?d]"]) (simp add: split dval_append div_mult2_eq [symmetric])
  qed
qed simp

lemma is_digit_unit_char [simp]: "is_digit c \<Longrightarrow> \<not> unit_char c"
  by (simp add: unit_char_def)

lemma show_nat_hd [simp]: "is_digit (hd (show_nat n))" "hd (show_nat n @ s) = hd (show_nat n)"
  using show_nat_digits [of n] show_nat_nonempty [of n] by (cases "show_nat n"; simp)+

lemma unit_span:
  assumes "list_all unit_char u" and "r = [] \<or> \<not> unit_char (hd r)"
  shows "takeWhile unit_char (u @ r) = u" and "dropWhile unit_char (u @ r) = r"
  using assms by (induction u) (cases r; simp)+

lemma stops_unit: "list_all unit_char u \<Longrightarrow> u \<noteq> [] \<Longrightarrow> stops (u @ r)"
  by (cases u) (auto simp: stops_def unit_char_def)

lemma parse_value_whole:
  assumes "map_of unit_map u = Some unit" and u: "list_all unit_char u" "u \<noteq> []"
    and r: "r = [] \<or> \<not> unit_char (hd r)" and "0 < unit" and "n * unit \<le> 2 ^ 63"
  shows "parse_value fl orig (show_nat n @ u @ r) = Inr (n * unit, r)"
proof -
  have le: "n \<le> 2 ^ 63 div unit" using assms(5,6) by (simp add: less_eq_div_iff_mult_less_eq)
  then have "n \<le> 2 ^ 63" by (meson div_le_dividend le_trans)
  then have "leading_int 0 (show_nat n @ u @ r) = Some (n, u @ r)"
    using leading_int_digits [OF show_nat_digits, of 0 n "u @ r"] stops_unit [OF u] by (simp add: dval_show_nat)
  moreover have "after_point (u @ r) = (False, 0, 1, u @ r)"
    using u by (cases u) (auto simp: after_point_def unit_char_def)
  ultimately show ?thesis
    using assms(1) u le show_nat_nonempty [of n] by (simp add: parse_value_def unit_span [OF u(1) r])
qed

lemma parse_value_fraction:
  assumes "map_of unit_map u = Some unit" and u: "list_all unit_char u" "u \<noteq> []" and "0 < unit"
    and ds: "list_all is_digit ds" "0 < dval 0 ds" and d: "10 ^ length ds dvd unit"
    and small: "dval 0 ds * (unit div 10 ^ length ds) < 2 ^ 53" and fl: "float_exact fl"
    and sum: "n * unit + dval 0 ds * (unit div 10 ^ length ds) \<le> 2 ^ 63"
  shows "parse_value fl orig (show_nat n @ dot # ds @ u) =
    Inr (n * unit + dval 0 ds * (unit div 10 ^ length ds), [])"
proof -
  have le: "n \<le> 2 ^ 63 div unit" using assms(4) sum by (simp add: less_eq_div_iff_mult_less_eq)
  then have "n \<le> 2 ^ 63" by (meson div_le_dividend le_trans)
  then have "leading_int 0 (show_nat n @ dot # ds @ u) = Some (n, dot # ds @ u)"
    using leading_int_digits [OF show_nat_digits, of 0 n "dot # ds @ u"]
    by (simp add: dval_show_nat stops_def is_digit_def)
  moreover have "0 < unit div 10 ^ length ds" using d assms(4) by (simp add: div_greater_zero_iff dvd_imp_le)
  then have "dval 0 ds \<le> dval 0 ds * (unit div 10 ^ length ds)" by simp
  then have "dval 0 ds < 2 ^ 53" using small by (rule le_less_trans)
  then have "dval 0 ds \<le> 2 ^ 63 - 1" by simp
  then have "leading_fraction 0 1 False (ds @ u) = (dval 0 ds, 10 ^ length ds, u)"
    using leading_fraction_digits [OF ds(1), of 0 u 1] stops_unit [OF u, of "[]"] by simp
  then have "after_point (dot # ds @ u) = (length (ds @ u) \<noteq> length u, dval 0 ds, 10 ^ length ds, u)"
    by (simp add: after_point_def)
  moreover have "fl (dval 0 ds) unit (10 ^ length ds) = dval 0 ds * (unit div 10 ^ length ds)"
    using fl d small by (simp add: float_exact_def)
  moreover have "takeWhile unit_char u = u" "dropWhile unit_char u = []"
    using u(1) by (simp_all add: list_all_iff)
  ultimately show ?thesis
    using assms(1) u le ds(2) sum show_nat_nonempty [of n]
    by (simp add: parse_value_def Let_def del: takeWhile_eq_all_conv dropWhile_eq_Nil_conv)
qed

lemma parse_loop_value:
  "parse_value fl orig s = Inr (v, r) \<Longrightarrow> s \<noteq> [] \<Longrightarrow> d + v \<le> 2 ^ 63 \<Longrightarrow>
     parse_loop fl orig d s = parse_loop fl orig (d + v) r"
  by (subst parse_loop.simps) (simp add: Let_def)

text \<open>The last segment, with a fraction of up to \<open>p\<close> digits of a unit of \<open>10 ^ p\<close>.\<close>

lemma read_last:
  assumes "map_of unit_map u = Some (10 ^ p)" and u: "list_all unit_char u" "u \<noteq> []" and "p \<le> 9"
    and "float_exact fl" and "d + n * 10 ^ p + w mod 10 ^ p \<le> 2 ^ 63"
  shows "parse_loop fl orig d (show_nat n @ fst (fmt_frac p False w u)) = Inr (d + n * 10 ^ p + w mod 10 ^ p)"
proof -
  obtain ds where ds: "fmt_frac p False w u = ((if w mod 10 ^ p = 0 then u else dot # ds @ u), w div 10 ^ p)"
    "list_all is_digit ds" "length ds \<le> p" "dval 0 ds * 10 ^ (p - length ds) = w mod 10 ^ p"
    using fmt_frac_False by blast
  have "parse_value fl orig (show_nat n @ fst (fmt_frac p False w u)) = Inr (n * 10 ^ p + w mod 10 ^ p, [])"
  proof (cases "w mod 10 ^ p = 0")
    case True
    then show ?thesis
      using parse_value_whole [OF assms(1) u, of "[]" n] assms(6) ds(1) by simp
  next
    case False
    have q: "(10::nat) ^ p div 10 ^ length ds = 10 ^ (p - length ds)"
      using ds(3) by (simp add: power_diff)
    have "w mod 10 ^ p < 10 ^ p" by simp
    also have "(10::nat) ^ p \<le> 10 ^ 9" using assms(4) by (intro power_increasing) simp_all
    finally have "w mod 10 ^ p < 10 ^ 9" .
    then have small: "dval 0 ds * (10 ^ p div 10 ^ length ds) < 2 ^ 53" by (simp add: q ds(4))
    have pos: "0 < dval 0 ds" using False ds(4) by (cases "dval 0 ds") simp_all
    have d: "(10::nat) ^ length ds dvd 10 ^ p" using ds(3) by (rule le_imp_power_dvd)
    have "n * 10 ^ p + dval 0 ds * (10 ^ p div 10 ^ length ds) \<le> 2 ^ 63"
      using assms(6) by (simp add: q ds(4))
    from parse_value_fraction [OF assms(1) u _ ds(2) pos d small assms(5) this]
    show ?thesis using False ds(1) by (simp add: q ds(4))
  qed
  then show ?thesis
    using assms(6) show_nat_nonempty [of n]
    by (simp add: parse_loop_value) (simp add: parse_loop.simps add.assoc)
qed

lemma read_first:
  assumes "map_of unit_map u = Some unit" and u: "list_all unit_char u" "u \<noteq> []" and "0 < unit"
    and "d + n * unit \<le> 2 ^ 63"
  shows "parse_loop fl orig d (show_nat n @ u @ show_nat m @ s) = parse_loop fl orig (d + n * unit) (show_nat m @ s)"
  using parse_value_whole [OF assms(1) u, of "show_nat m @ s" n] assms(4,5) show_nat_nonempty [of n]
  by (simp add: parse_loop_value)

lemma unit_facts:
  "map_of unit_map ''ns'' = Some (10 ^ 0)" "map_of unit_map [CHR 0xC2, CHR 0xB5, CHR ''s''] = Some (10 ^ 3)"
  "map_of unit_map ''ms'' = Some (10 ^ 6)" "map_of unit_map ''s'' = Some (10 ^ 9)"
  "map_of unit_map ''m'' = Some (60 * 10 ^ 9)" "map_of unit_map ''h'' = Some (3600 * 10 ^ 9)"
  "list_all unit_char ''ns''" "list_all unit_char [CHR 0xC2, CHR 0xB5, CHR ''s'']"
  "list_all unit_char ''ms''" "list_all unit_char ''s''" "list_all unit_char ''m''" "list_all unit_char ''h''"
  by (simp_all add: unit_map_def unit_char_def is_digit_def)

lemma read_small:
  assumes "u < 10 ^ 9" and "float_exact fl"
  shows "parse_loop fl orig 0 (format_small u) = Inr u"
proof -
  have frac: "parse_loop fl orig 0 (show_nat (snd (fmt_frac p False u t)) @ fst (fmt_frac p False u t)) = Inr u"
    if "map_of unit_map t = Some (10 ^ p)" "list_all unit_char t" "t \<noteq> []" "p \<le> 9" for p t
  proof -
    have "snd (fmt_frac p False u t) = u div 10 ^ p" using fmt_frac_False [of p u t] by auto
    moreover have "u div 10 ^ p * 10 ^ p + u mod 10 ^ p = u" by (rule div_mult_mod_eq)
    ultimately show ?thesis
      using read_last [OF that assms(2), of 0 "u div 10 ^ p" u orig] assms(1) by simp
  qed
  show ?thesis
  proof (cases "u = 0")
    case True
    have "show_nat 0 = ''0''" "fst (fmt_frac 9 False 0 ''s'') = ''s''" by code_simp+
    with read_last [OF unit_facts(4,10) _ _ assms(2), of 0 0 0 orig] True show ?thesis
      by (simp add: format_small_def)
  next
    case False
    then show ?thesis
      using frac [OF unit_facts(1,7)] frac [OF unit_facts(2,8)] frac [OF unit_facts(3,9)]
      by (simp add: format_small_def case_prod_beta Let_def)
  qed
qed

lemma regroup:
  fixes a b s r u :: nat
  shows "a * 60 + b = s \<Longrightarrow> s * 10 ^ 9 + r = u \<Longrightarrow> a * (60 * 10 ^ 9) + b * 10 ^ 9 + r = u"
  by auto

lemma regroup2:
  fixes a b m x r u :: nat
  shows "a * 60 + b = m \<Longrightarrow> m * (60 * 10 ^ 9) + x + r = u \<Longrightarrow>
    a * (3600 * 10 ^ 9) + b * (60 * 10 ^ 9) + x + r = u"
  by auto

lemma read_large:
  assumes "u \<le> 2 ^ 63" and fl: "float_exact fl"
  shows "parse_loop fl orig 0 (format_large u) = Inr u"
proof -
  let ?buf = "fst (fmt_frac 9 False u ''s'')"
  let ?secs = "u div 10 ^ 9"
  let ?mins = "?secs div 60"
  let ?hours = "?mins div 60"
  have secs: "snd (fmt_frac 9 False u ''s'') = ?secs"
    using fmt_frac_False [of 9 u "''s''"] by auto
  have u: "?secs * 10 ^ 9 + u mod 10 ^ 9 = u" "?mins * 60 + ?secs mod 60 = ?secs" "?hours * 60 + ?mins mod 60 = ?mins"
    by (rule div_mult_mod_eq)+
  have whole: "?mins * (60 * 10 ^ 9) + ?secs mod 60 * 10 ^ 9 + u mod 10 ^ 9 = u"
    by (rule regroup [OF u(2,1)])
  have last: "parse_loop fl orig d (show_nat (?secs mod 60) @ ?buf) = Inr (d + ?secs mod 60 * 10 ^ 9 + u mod 10 ^ 9)"
    if "d + ?secs mod 60 * 10 ^ 9 + u mod 10 ^ 9 \<le> 2 ^ 63" for d
    using read_last [OF unit_facts(4,10) _ _ fl that] by simp
  show ?thesis
  proof (cases "?mins = 0")
    case True
    then have "?secs mod 60 * 10 ^ 9 + u mod 10 ^ 9 = u" using whole by simp
    with last [of 0] True secs assms(1) show ?thesis
      by (simp add: format_large_def case_prod_beta Let_def)
  next
    case mins: False
    have m: "parse_loop fl orig d (show_nat n @ ''m'' @ show_nat (?secs mod 60) @ ?buf) =
        Inr (d + n * (60 * 10 ^ 9) + ?secs mod 60 * 10 ^ 9 + u mod 10 ^ 9)"
      if "d + n * (60 * 10 ^ 9) + ?secs mod 60 * 10 ^ 9 + u mod 10 ^ 9 \<le> 2 ^ 63" for d n
      using read_first [OF unit_facts(5,11), of d n] last [of "d + n * (60 * 10 ^ 9)"] that by simp
    show ?thesis
    proof (cases "?hours = 0")
      case True
      then have "?mins mod 60 = ?mins" using u(3) by simp
      with m [of 0 "?mins"] whole mins True secs assms(1) show ?thesis
        by (simp add: format_large_def case_prod_beta Let_def)
    next
      case False
      have sum: "?hours * (3600 * 10 ^ 9) + ?mins mod 60 * (60 * 10 ^ 9) + ?secs mod 60 * 10 ^ 9 + u mod 10 ^ 9 = u"
        by (rule regroup2 [OF u(3) whole])
      have "?hours * (3600 * 10 ^ 9) \<le> 2 ^ 63" using sum assms(1) by linarith
      then have "parse_loop fl orig 0 (show_nat ?hours @ ''h'' @ show_nat (?mins mod 60) @ ''m'' @
          show_nat (?secs mod 60) @ ?buf) = Inr u"
        using read_first [OF unit_facts(6,12), of 0 ?hours] m [of "?hours * (3600 * 10 ^ 9)" "?mins mod 60"] sum assms(1)
        by simp
      with mins False secs show ?thesis by (simp add: format_large_def case_prod_beta Let_def)
    qed
  qed
qed

lemma format_hd:
  "is_digit (hd (format_small u))" "format_small u \<noteq> []"
  "is_digit (hd (format_large u))" "format_large u \<noteq> []"
  using show_nat_nonempty
  by (simp_all add: format_small_def format_large_def case_prod_beta Let_def, simp_all add: is_digit_def)

lemma parse_formatted:
  assumes "- (2 ^ 63) \<le> d" "d < 2 ^ 63" and fl: "float_exact fl"
  shows "ParseDuration fl (Duration_String d) = Inr d"
proof -
  let ?u = "nat \<bar>d\<bar>"
  let ?s = "if ?u < 10 ^ 9 then format_small ?u else format_large ?u"
  have "\<bar>d\<bar> \<le> 2 ^ 63" using assms(1,2) by linarith
  then have u: "?u \<le> 2 ^ 63" by (metis nat_mono nat_numeral nat_power_eq zero_le_numeral)
  have loop: "parse_loop fl orig 0 ?s = Inr ?u" for orig
    using read_small [OF _ fl] read_large [OF u fl] by simp
  have "parse_loop fl orig 0 ''0'' \<noteq> Inr x" for orig x
    by (simp add: parse_loop.simps parse_value_def unit_char_def is_digit_def after_point_def)
  with loop have zero: "?s \<noteq> ''0''" by metis
  have s: "is_digit (hd ?s)" "?s \<noteq> []" using format_hd by simp_all
  then obtain c r where cr: "?s = c # r" "is_digit c" by (cases ?s) (simp_all add: split del: if_split)
  then have "c \<noteq> CHR ''-''" "c \<noteq> CHR ''+''" by (auto simp: is_digit_def)
  moreover have "Duration_String d = (if d < 0 then CHR ''-'' # ?s else ?s)"
    by (simp add: Duration_String_def Let_def)
  moreover have "\<not> d < 0 \<Longrightarrow> ?u \<le> 2 ^ 63 - 1" using assms(2) by (simp add: nat_le_iff)
  ultimately show ?thesis
    using loop cr zero u by (cases "d < 0") (auto simp: ParseDuration_def)
qed

end
