(* ===== verification/Config.thy ===== *)
theory Config
  imports Config_Types Go_Path Go_Duration
begin

text \<open>
  Loading, merging, overriding and validating the configuration, and its reload on
  SIGHUP (\<open>internal/config/config.go\<close>). Files, the directory, the environment, the YAML
  library and the floating-point step of \<open>time.ParseDuration\<close> are the fields of
  \<open>config_env\<close>; what the code does with their answers is modelled, and the library is given the code's own \<open>UnmarshalYAML\<close> methods
  to call back. Warnings go to the trace of the world.
\<close>

subsection \<open>What surrounds the configuration\<close>

datatype yaml_kind = DocumentNode | SequenceNode | MappingNode | ScalarNode | AliasNode

datatype yaml_node = Node (yaml_kind: yaml_kind) (yaml_value: string) (yaml_content: "yaml_node list")

text \<open>\<open>read_dir\<close> lists names with their \<open>IsDir\<close>, sorted; its error says whether
  \<open>os.IsNotExist\<close> holds. The two readings of one file are \<open>yaml_tree\<close> and \<open>yaml_config\<close>; the
  decoders of whole structs take the methods for durations and datasource entries.\<close>

type_synonym conf = "yaml_node config"
type_synonym ds_entry = "yaml_node datasource_config"

record config_env =
  read_file :: "string \<Rightarrow> string result"
  read_dir :: "string \<Rightarrow> (bool \<times> go_error) + (string \<times> bool) list"
  stat_file :: "string \<Rightarrow> go_error option"
  lookup_env :: "string \<Rightarrow> string option"
  yaml_tree :: "string \<Rightarrow> yaml_node result"
  yaml_string :: "yaml_node \<Rightarrow> string result"
  yaml_common :: "(yaml_node \<Rightarrow> int result) \<Rightarrow> yaml_node \<Rightarrow> (string \<times> string \<times> int) result"
  yaml_config :: "(yaml_node \<Rightarrow> int result) \<Rightarrow> (yaml_node \<Rightarrow> ds_entry result) \<Rightarrow> string \<Rightarrow> conf result"
  float_frac :: "nat \<Rightarrow> nat \<Rightarrow> nat \<Rightarrow> nat"

text \<open>\<open>filepath.Dir\<close> and \<open>filepath.Ext\<close>.\<close>

definition path_dir :: "string \<Rightarrow> string" where
  "path_dir p = clean (rev (dropWhile (\<lambda>c. c \<noteq> slash) (rev p)))"

definition path_ext :: "string \<Rightarrow> string" where
  "path_ext p =
     (let lst = rev (takeWhile (\<lambda>c. c \<noteq> slash) (rev p));
          e = rev (takeWhile (\<lambda>c. c \<noteq> CHR ''.'') (rev lst))
      in if CHR ''.'' \<in> set lst then CHR ''.'' # e else [])"

subsection \<open>Decoding\<close>

definition Duration_UnmarshalYAML :: "config_env \<Rightarrow> (nat \<Rightarrow> bool) \<Rightarrow> yaml_node \<Rightarrow> int result" where \<open>
  Duration_UnmarshalYAML env is_print node =
     (case yaml_string env node of
        Inl e \<Rightarrow> Inl (''config: duration must be a string (e.g. "2s"): '' @ e)
      | Inr s \<Rightarrow>
          (case ParseDuration (float_frac env) s of
             Inl e \<Rightarrow> Inl (''config: invalid duration '' @ quote is_print s @ '': '' @ e)
           | Inr d \<Rightarrow> Inr d))\<close>

definition Duration_MarshalYAML :: "int \<Rightarrow> string result" where
  "Duration_MarshalYAML d = Inr (Duration_String d)"

definition Datasource_UnmarshalYAML :: "config_env \<Rightarrow> (nat \<Rightarrow> bool) \<Rightarrow> yaml_node \<Rightarrow> ds_entry result" where
  "Datasource_UnmarshalYAML env is_print node =
     (case yaml_common env (Duration_UnmarshalYAML env is_print) node of
        Inl e \<Rightarrow> Inl e
      | Inr (name, typ, ttl) \<Rightarrow>
          Inr \<lparr>DsName = name, DsType = typ, DsCacheTTL = ttl, DsRaw = node\<rparr>)"

subsection \<open>One layer\<close>

definition knownTopLevel :: "string list" where
  "knownTopLevel =
     [''logging_level'', ''server'', ''allowlist'', ''datasources'', ''checks'', ''admin_users'',
      ''admin_groups'', ''config_dir'']"

definition knownServerFields :: "string list" where
  "knownServerFields =
     [''listen_addr'', ''server_cert'', ''server_key'', ''metrics_path'', ''decision_timeout'']"

definition knownChecksFields :: "string list" where
  "knownChecksFields = [''host_network'', ''privileged'', ''docker_cp'', ''docker_exec'']"

text \<open>Keys and values alternate in the content of a mapping node.\<close>

fun entries :: "yaml_node list \<Rightarrow> (string \<times> yaml_node) list" where
  "entries (k # v # rest) = (yaml_value k, v) # entries rest"
| "entries _ = []"

text \<open>The keys a file has, as dotted paths: those of the schema and the others.\<close>

type_synonym classified = "string list \<times> string list"

definition scanNested :: "string \<Rightarrow> string list \<Rightarrow> yaml_node \<Rightarrow> classified \<Rightarrow> classified" where
  "scanNested pfx known node acc =
     (if yaml_kind node \<noteq> MappingNode then acc
      else fold (\<lambda>(key, _) (present, unknown).
             if key \<in> set known then (present @ [pfx @ key], unknown)
             else (present, unknown @ [pfx @ key])) (entries (yaml_content node)) acc)"

definition classify_entry :: "string \<times> yaml_node \<Rightarrow> classified \<Rightarrow> classified" where
  "classify_entry e acc =
     (case e of
        (key, val) \<Rightarrow>
          if key = ''server'' then scanNested ''server.'' knownServerFields val acc
          else if key = ''checks'' then scanNested ''checks.'' knownChecksFields val acc
          else if key = [] then acc
          else if key \<in> set knownTopLevel then (fst acc @ [key], snd acc)
          else (fst acc, snd acc @ [key]))"

definition classify :: "yaml_node \<Rightarrow> classified" where
  "classify doc =
     (let root = (if yaml_kind doc = DocumentNode \<and> yaml_content doc \<noteq> [] then hd (yaml_content doc) else doc)
      in if yaml_kind root \<noteq> MappingNode then ([], [])
         else fold classify_entry (entries (yaml_content root)) ([], []))"

fun unionStrings :: "string list \<Rightarrow> string list \<Rightarrow> string list" where
  "unionStrings base [] = base"
| "unionStrings base (s # ss) =
     (if s \<in> set base then unionStrings base ss else unionStrings (base @ [s]) ss)"

text \<open>\<open>index\<close>: where the last entry of a name is.\<close>

definition ds_index :: "'r datasource_config list \<Rightarrow> string \<Rightarrow> nat option" where
  "ds_index ds name = map_of (rev (zip (map DsName ds) [0..<length ds])) name"

fun merge_datasources ::
  "'r datasource_config list \<Rightarrow> 'r datasource_config list \<Rightarrow> 'r datasource_config list" where
  "merge_datasources base [] = base"
| "merge_datasources base (d # ds) =
     (case ds_index base (DsName d) of
        Some i \<Rightarrow> merge_datasources (base[i := d]) ds
      | None \<Rightarrow> merge_datasources (base @ [d]) ds)"

definition merge_server :: "string list \<Rightarrow> server_config \<Rightarrow> server_config \<Rightarrow> server_config" where
  "merge_server present layer s =
     \<lparr>ListenAddr = (if ''server.listen_addr'' \<in> set present then ListenAddr layer else ListenAddr s),
      ServerCert = (if ''server.server_cert'' \<in> set present then ServerCert layer else ServerCert s),
      ServerKey = (if ''server.server_key'' \<in> set present then ServerKey layer else ServerKey s),
      MetricsPath = (if ''server.metrics_path'' \<in> set present then MetricsPath layer else MetricsPath s),
      DecisionTimeout =
        (if ''server.decision_timeout'' \<in> set present then DecisionTimeout layer else DecisionTimeout s)\<rparr>"

definition merge_checks :: "string list \<Rightarrow> checks_config \<Rightarrow> checks_config \<Rightarrow> checks_config" where
  "merge_checks present layer c =
     \<lparr>HostNetwork = (if ''checks.host_network'' \<in> set present then HostNetwork layer else HostNetwork c),
      Privileged = (if ''checks.privileged'' \<in> set present then Privileged layer else Privileged c),
      DockerCP = (if ''checks.docker_cp'' \<in> set present then DockerCP layer else DockerCP c),
      DockerExec = (if ''checks.docker_exec'' \<in> set present then DockerExec layer else DockerExec c)\<rparr>"

definition merge_fields :: "string list \<Rightarrow> 'r config \<Rightarrow> 'r config \<Rightarrow> 'r config" where
  "merge_fields present layer cfg =
     \<lparr>LoggingLevel = (if ''logging_level'' \<in> set present then LoggingLevel layer else LoggingLevel cfg),
      Server = merge_server present (Server layer) (Server cfg),
      Allowlist =
        (if ''allowlist'' \<in> set present then unionStrings (Allowlist cfg) (Allowlist layer) else Allowlist cfg),
      Datasources =
        (if ''datasources'' \<in> set present then merge_datasources (Datasources cfg) (Datasources layer)
         else Datasources cfg),
      Checks = merge_checks present (Checks layer) (Checks cfg),
      AdminUsers =
        (if ''admin_users'' \<in> set present then unionStrings (AdminUsers cfg) (AdminUsers layer) else AdminUsers cfg),
      AdminGroups =
        (if ''admin_groups'' \<in> set present then unionStrings (AdminGroups cfg) (AdminGroups layer)
         else AdminGroups cfg),
      ConfigDir = (if ''config_dir'' \<in> set present then ConfigDir layer else ConfigDir cfg)\<rparr>"

definition unrecognized :: "string \<Rightarrow> string \<Rightarrow> event" where
  "unrecognized file key =
     Log LevelWarn ''config: unrecognized field ignored'' [(''file'', file), (''field'', key)]"

definition mergeLayer ::
  "config_env \<Rightarrow> conf \<Rightarrow> string \<Rightarrow> 'b world \<Rightarrow> conf result \<times> 'b world" where
  "mergeLayer env cfg filePath w =
     (case read_file env filePath of
        Inl e \<Rightarrow> (Inl (''config: read '' @ filePath @ '': '' @ e), w)
      | Inr data \<Rightarrow>
          (case yaml_tree env data of
             Inl e \<Rightarrow> (Inl (''config: parse '' @ filePath @ '': '' @ e), w)
           | Inr doc \<Rightarrow>
               (let (present, unknown) = classify doc;
                    w' = emit_all (map (unrecognized filePath) unknown) w
                in case yaml_config env (Duration_UnmarshalYAML env (print_table w))
                          (Datasource_UnmarshalYAML env (print_table w)) data of
                     Inl e \<Rightarrow> (Inl (''config: parse '' @ filePath @ '': '' @ e), w')
                   | Inr layer \<Rightarrow> (Inr (merge_fields present layer cfg), w'))))"

subsection \<open>Load\<close>

fun merge_layers ::
  "config_env \<Rightarrow> string \<Rightarrow> (string \<times> bool) list \<Rightarrow> conf \<Rightarrow> 'b world \<Rightarrow> conf result \<times> 'b world" where
  "merge_layers env confDir [] cfg w = (Inr cfg, w)"
| "merge_layers env confDir ((name, isDir) # es) cfg w =
     (if isDir \<or> path_ext name \<noteq> ''.yaml'' then merge_layers env confDir es cfg w
      else
        (case mergeLayer env cfg (path_join confDir name) w of
           (Inl e, w') \<Rightarrow> (Inl e, w')
         | (Inr cfg', w') \<Rightarrow> merge_layers env confDir es cfg' w'))"

definition applyDefaults :: "'r config \<Rightarrow> 'r config" where
  "applyDefaults cfg =
     cfg\<lparr>LoggingLevel := (if LoggingLevel cfg = [] then ''info'' else LoggingLevel cfg),
         Server := (Server cfg)
           \<lparr>ListenAddr := (if ListenAddr (Server cfg) = [] then '':80'' else ListenAddr (Server cfg)),
            MetricsPath := (if MetricsPath (Server cfg) = [] then ''/metrics'' else MetricsPath (Server cfg)),
            DecisionTimeout := (if DecisionTimeout (Server cfg) = 0 then 2 * second
                                else DecisionTimeout (Server cfg))\<rparr>,
         Checks :=
           \<lparr>HostNetwork = (if HostNetwork (Checks cfg) = [] then CheckAllow else HostNetwork (Checks cfg)),
            Privileged = (if Privileged (Checks cfg) = [] then CheckAllow else Privileged (Checks cfg)),
            DockerCP = (if DockerCP (Checks cfg) = [] then CheckAllow else DockerCP (Checks cfg)),
            DockerExec = (if DockerExec (Checks cfg) = [] then CheckAllow else DockerExec (Checks cfg))\<rparr>,
         Datasources :=
           map (\<lambda>d. if DsCacheTTL d = 0 then d\<lparr>DsCacheTTL := 10 * minute\<rparr> else d) (Datasources cfg)\<rparr>"

definition conf_dir :: "string \<Rightarrow> string \<Rightarrow> string" where
  "conf_dir path configured =
     (if configured = [] then path_join (path_dir path) ''conf.d''
      else if \<not> is_abs configured then path_join (path_dir path) configured
      else configured)"

definition Load :: "config_env \<Rightarrow> string \<Rightarrow> 'b world \<Rightarrow> conf result \<times> 'b world" where
  "Load env path w =
     (case mergeLayer env zero_config path w of
        (Inl e, w1) \<Rightarrow> (Inl e, w1)
      | (Inr cfg, w1) \<Rightarrow>
          (let confDir = conf_dir path (ConfigDir cfg);
               cfg1 = cfg\<lparr>ConfigDir := confDir\<rparr>;
               dir = (case read_dir env confDir of
                        Inr es \<Rightarrow> Inr es
                      | Inl (not_exist, e) \<Rightarrow>
                          if not_exist then Inr []
                          else Inl (''config: read conf.d directory '' @ confDir @ '': '' @ e))
           in case dir of
                Inl e \<Rightarrow> (Inl e, w1)
              | Inr es \<Rightarrow>
                  (case merge_layers env confDir es cfg1 w1 of
                     (Inl e, w2) \<Rightarrow> (Inl e, w2)
                   | (Inr cfg2, w2) \<Rightarrow> (Inr (applyDefaults cfg2), w2))))"

subsection \<open>Overrides\<close>

definition override :: "string option \<Rightarrow> string \<Rightarrow> string" where
  "override v old = (case v of None \<Rightarrow> old | Some s \<Rightarrow> s)"

definition ApplyEnv :: "config_env \<Rightarrow> (nat \<Rightarrow> bool) \<Rightarrow> 'r config \<Rightarrow> 'r config result" where
  "ApplyEnv env is_print cfg =
     (let s = Server cfg;
          cfg' = cfg\<lparr>LoggingLevel := override (lookup_env env ''AUTHZ_LOGGING_LEVEL'') (LoggingLevel cfg),
                     Server := s
                       \<lparr>ListenAddr := override (lookup_env env ''AUTHZ_SERVER_LISTEN_ADDR'') (ListenAddr s),
                        ServerCert := override (lookup_env env ''AUTHZ_SERVER_CERT'') (ServerCert s),
                        ServerKey := override (lookup_env env ''AUTHZ_SERVER_KEY'') (ServerKey s),
                        MetricsPath := override (lookup_env env ''AUTHZ_SERVER_METRICS_PATH'') (MetricsPath s)\<rparr>\<rparr>
      in case lookup_env env ''AUTHZ_SERVER_DECISION_TIMEOUT'' of
           None \<Rightarrow> Inr cfg'
         | Some v \<Rightarrow>
             (case ParseDuration (float_frac env) v of
                Inl e \<Rightarrow> Inl (''config: AUTHZ_SERVER_DECISION_TIMEOUT='' @ quote is_print v @ '': '' @ e)
              | Inr d \<Rightarrow> Inr (cfg'\<lparr>Server := (Server cfg')\<lparr>DecisionTimeout := d\<rparr>\<rparr>)))"

record flag_overrides =
  flagLoggingLevel :: string
  flagListenAddr :: string
  flagServerCert :: string
  flagServerKey :: string
  flagMetricsPath :: string
  flagDecisionTimeout :: string

definition set_flag :: "string \<Rightarrow> string \<Rightarrow> string" where
  "set_flag v old = (if v \<noteq> [] then v else old)"

definition flag_fields :: "flag_overrides \<Rightarrow> 'r config \<Rightarrow> 'r config" where
  "flag_fields o' cfg =
     (let s = Server cfg
      in cfg\<lparr>LoggingLevel := set_flag (flagLoggingLevel o') (LoggingLevel cfg),
             Server := s
               \<lparr>ListenAddr := set_flag (flagListenAddr o') (ListenAddr s),
                ServerCert := set_flag (flagServerCert o') (ServerCert s),
                ServerKey := set_flag (flagServerKey o') (ServerKey s),
                MetricsPath := set_flag (flagMetricsPath o') (MetricsPath s)\<rparr>\<rparr>)"

definition ApplyFlags ::
  "config_env \<Rightarrow> (nat \<Rightarrow> bool) \<Rightarrow> flag_overrides \<Rightarrow> 'r config \<Rightarrow> 'r config result" where
  "ApplyFlags env is_print o' cfg =
     (let cfg' = flag_fields o' cfg
      in if flagDecisionTimeout o' = [] then Inr cfg'
         else
           (case ParseDuration (float_frac env) (flagDecisionTimeout o') of
              Inl e \<Rightarrow> Inl (''config: invalid --decision-timeout='' @
                         quote is_print (flagDecisionTimeout o') @ '': '' @ e)
            | Inr d \<Rightarrow> Inr (cfg'\<lparr>Server := (Server cfg')\<lparr>DecisionTimeout := d\<rparr>\<rparr>)))"

subsection \<open>Validation\<close>

definition tls_issue :: string where
  "tls_issue = ''server: server_cert and server_key must both be set (TLS) or both unset (plain HTTP) - exactly one is ambiguous''"

definition validateServerTLS :: "config_env \<Rightarrow> server_config \<Rightarrow> string list" where
  "validateServerTLS env server =
     (let certSet = (ServerCert server \<noteq> []); keySet = (ServerKey server \<noteq> [])
      in if certSet \<noteq> keySet then [tls_issue]
         else if \<not> certSet \<and> \<not> keySet then []
         else
           (case stat_file env (ServerCert server) of None \<Rightarrow> [] | Some e \<Rightarrow> [''server.server_cert: '' @ e]) @
           (case stat_file env (ServerKey server) of None \<Rightarrow> [] | Some e \<Rightarrow> [''server.server_key: '' @ e]))"

fun validate_from ::
  "(nat \<Rightarrow> bool) \<Rightarrow> nat \<Rightarrow> string list \<Rightarrow> 'r datasource_config list \<Rightarrow> string list" where
  "validate_from is_print i seen [] = []"
| "validate_from is_print i seen (d # ds) =
     (let at = ''datasources['' @ show_nat i @ '']'';
          named = (if DsName d = [] then [at @ '': name is required'']
                   else if DsName d \<in> set seen then [at @ '': duplicate name '' @ quote is_print (DsName d)]
                   else []);
          seen' = (if DsName d = [] \<or> DsName d \<in> set seen then seen else DsName d # seen);
          typed = (if DsType d = [] then [at @ '' ('' @ DsName d @ ''): type is required''] else [])
      in named @ typed @ validate_from is_print (Suc i) seen' ds)"

definition validateDatasources :: "(nat \<Rightarrow> bool) \<Rightarrow> 'r datasource_config list \<Rightarrow> string list" where
  "validateDatasources is_print ds = validate_from is_print 0 [] ds"

definition validateChecks :: "(nat \<Rightarrow> bool) \<Rightarrow> checks_config \<Rightarrow> string list" where
  "validateChecks is_print c =
     concat (map (\<lambda>(field, v).
         if valid_setting v then []
         else [field @ '': must be '' @ quote is_print ''allow'' @ '' or '' @ quote is_print ''deny'' @
               '', got '' @ quote is_print v])
       [(''checks.host_network'', HostNetwork c), (''checks.privileged'', Privileged c),
        (''checks.docker_cp'', DockerCP c), (''checks.docker_exec'', DockerExec c)])"

definition issues_of :: "config_env \<Rightarrow> (nat \<Rightarrow> bool) \<Rightarrow> 'r config \<Rightarrow> string list" where
  "issues_of env is_print cfg =
     (if valid_level_name (LoggingLevel cfg) then []
      else [''logging_level: invalid value '' @ quote is_print (LoggingLevel cfg) @
            '' (want one of trace, debug, info, warn, error)'']) @
     validateServerTLS env (Server cfg) @
     (if Allowlist cfg = [] then [''allowlist: must not be empty''] else []) @
     validateDatasources is_print (Datasources cfg) @
     validateChecks is_print (Checks cfg)"

definition ValidationError :: "string list \<Rightarrow> go_error" where
  "ValidationError issues = ''config: invalid configuration: '' @ join ''; '' issues"

text \<open>\<open>None\<close> when the configuration is valid, else every issue in one \<open>ValidationError\<close>.\<close>

definition Validate :: "config_env \<Rightarrow> (nat \<Rightarrow> bool) \<Rightarrow> 'r config \<Rightarrow> go_error option" where
  "Validate env is_print cfg =
     (let issues = issues_of env is_print cfg
      in if issues = [] then None
         else Some (ValidationError issues))"

definition LoadFull ::
  "config_env \<Rightarrow> string \<Rightarrow> flag_overrides \<Rightarrow> 'b world \<Rightarrow> conf result \<times> 'b world" where
  "LoadFull env path overrides w =
     (case Load env path w of
        (Inl e, w') \<Rightarrow> (Inl e, w')
      | (Inr cfg, w') \<Rightarrow>
          (let is_print = print_table w
           in case ApplyEnv env is_print cfg of
                Inl e \<Rightarrow> (Inl e, w')
              | Inr cfg1 \<Rightarrow>
                  (case ApplyFlags env is_print overrides cfg1 of
                     Inl e \<Rightarrow> (Inl e, w')
                   | Inr cfg2 \<Rightarrow>
                       (case Validate env is_print cfg2 of
                          Some e \<Rightarrow> (Inl e, w')
                        | None \<Rightarrow> (Inr cfg2, w')))))"

subsection \<open>Reload\<close>

text \<open>One SIGHUP: the store is replaced only by a configuration that loaded; the result is
  what \<open>onReload\<close> is called with. The log attribute is a list of strings, which the log
  handler lays out; it is joined here.\<close>

definition allowlist_text :: "string list \<Rightarrow> string" where
  "allowlist_text ps = join '','' ps"

definition on_sighup ::
  "config_env \<Rightarrow> string \<Rightarrow> flag_overrides \<Rightarrow> conf \<Rightarrow> 'b world \<Rightarrow>
     conf result \<times> conf \<times> 'b world" where
  "on_sighup env path overrides store w =
     (let w1 = emit (Log LevelInfo ''SIGHUP received, reloading config'' [(''path'', path)]) w
      in case LoadFull env path overrides w1 of
           (Inl e, w2) \<Rightarrow> (Inl e, store, w2)
         | (Inr cfg, w2) \<Rightarrow>
             (Inr cfg, cfg,
              emit (Log LevelDebug ''reload: allowlist'' [(''allowlist'', allowlist_text (Allowlist cfg))]) w2))"

end
