(* ===== verification/Go_Json_Io.thy ===== *)
theory Go_Json_Io
  imports Go_Json
begin

text \<open>
  The rest of \<open>encoding/json\<close> the HTTP handler uses: \<open>Decoder.Decode\<close>, which takes the
  first value of a stream; the decoders of \<open>int\<close> and \<open>[]byte\<close> (base64); and the
  encoder's rendering of strings, with the lemma that decoding gives the string back.
\<close>

subsection \<open>The first value of a stream\<close>

text \<open>Tokens are fed to the parser until a value is complete; what follows it is not read.\<close>

fun feed :: "frame list \<Rightarrow> parse_state \<Rightarrow> token list \<Rightarrow> (frame list \<times> parse_state) option" where
  "feed fs ps [] = Some (fs, ps)"
| "feed fs ps (t # ts) =
     (case (fs, ps) of
        ([], PDone v) \<Rightarrow> Some (fs, ps)
      | _ \<Rightarrow> (case parse_step fs ps t of None \<Rightarrow> None | Some (fs', ps') \<Rightarrow> feed fs' ps' ts))"

fun finished :: "frame list \<Rightarrow> parse_state \<Rightarrow> json option" where
  "finished [] (PDone v) = Some v"
| "finished _ _ = None"

fun stream_from :: "frame list \<Rightarrow> parse_state \<Rightarrow> lex_state \<Rightarrow> string \<Rightarrow> json option" where
  "stream_from fs ps ls [] =
     (case lex_end ls of
        None \<Rightarrow> None
      | Some ts \<Rightarrow>
          (case feed fs ps ts of None \<Rightarrow> None | Some (fs', ps') \<Rightarrow> finished fs' ps'))"
| "stream_from fs ps ls (c # cs) =
     (case (fs, ls) of
        ([], LNum st acc) \<Rightarrow>
          if num_next st c = None \<and> num_complete st then Some (JNum (rev acc))
          else
            (case lex_step ls c of
               None \<Rightarrow> None
             | Some (_, ls') \<Rightarrow> stream_from fs ps ls' cs)
      | _ \<Rightarrow>
          (case lex_step ls c of
             None \<Rightarrow> None
           | Some (ts, ls') \<Rightarrow>
               (case feed fs ps ts of
                  None \<Rightarrow> None
                | Some (fs', ps') \<Rightarrow>
                    (case finished fs' ps' of
                       Some v \<Rightarrow> Some v
                     | None \<Rightarrow> stream_from fs' ps' ls' cs))))"

definition decode_stream :: "'s decoder \<Rightarrow> 's \<Rightarrow> string \<Rightarrow> 's option" where
  "decode_stream dec zero body =
     (case stream_from [] PValue LStart body of None \<Rightarrow> None | Some j \<Rightarrow> dec j zero)"

subsection \<open>Integers and byte slices\<close>

definition digits_value :: "string \<Rightarrow> int" where
  "digits_value s = foldl (\<lambda>n c. 10 * n + (int (byte c) - 0x30)) 0 s"

text \<open>\<open>strconv.ParseInt(s, 10, 64)\<close> on a JSON number literal.\<close>

definition parse_int64 :: "string \<Rightarrow> int option" where
  "parse_int64 s =
     (let neg = has_prefix s ''-''; ds = (if neg then tl s else s)
      in if ds = [] \<or> \<not> list_all is_digit ds then None
         else
           (let n = (if neg then - digits_value ds else digits_value ds)
            in if - (2 ^ 63) \<le> n \<and> n < 2 ^ 63 then Some n else None))"

fun dec_int :: "int decoder" where
  "dec_int JNull old = Some old"
| "dec_int (JNum s) old = parse_int64 s"
| "dec_int _ old = None"

definition b64_val :: "char \<Rightarrow> nat option" where
  "b64_val c =
     (let b = byte c in
      if 0x41 \<le> b \<and> b \<le> 0x5A then Some (b - 0x41)
      else if 0x61 \<le> b \<and> b \<le> 0x7A then Some (b - 0x61 + 26)
      else if 0x30 \<le> b \<and> b \<le> 0x39 then Some (b - 0x30 + 52)
      else if b = 0x2B then Some 62
      else if b = 0x2F then Some 63
      else None)"

definition b64_bytes :: "nat \<Rightarrow> nat \<Rightarrow> nat \<Rightarrow> nat \<Rightarrow> string" where
  "b64_bytes w x y z =
     [char_of (w * 4 + x div 16), char_of (x mod 16 * 16 + y div 4), char_of (y mod 4 * 64 + z)]"

text \<open>\<open>base64.StdEncoding\<close>: quanta of four, padding only in the last one, which must be
  there; spare bits are ignored.\<close>

fun b64_quanta :: "string \<Rightarrow> string option" where
  "b64_quanta [] = Some []"
| "b64_quanta (a # b # c # d # rest) =
     (case (b64_val a, b64_val b, b64_val c, b64_val d) of
        (Some w, Some x, Some y, Some z) \<Rightarrow> map_option (append (b64_bytes w x y z)) (b64_quanta rest)
      | (Some w, Some x, Some y, None) \<Rightarrow>
          if d = CHR ''='' \<and> rest = [] then Some (take 2 (b64_bytes w x y 0)) else None
      | (Some w, Some x, None, None) \<Rightarrow>
          if c = CHR ''='' \<and> d = CHR ''='' \<and> rest = [] then Some (take 1 (b64_bytes w x 0 0)) else None
      | _ \<Rightarrow> None)"
| "b64_quanta _ = None"

definition base64_decode :: "string \<Rightarrow> string option" where
  "base64_decode s = b64_quanta (filter (\<lambda>c. byte c \<noteq> (0x0A :: nat) \<and> byte c \<noteq> (0x0D :: nat)) s)"

fun dec_byte :: "char decoder" where
  "dec_byte JNull old = Some old"
| "dec_byte (JNum s) old =
     (case parse_int64 s of
        Some n \<Rightarrow> if has_prefix s ''-'' \<or> 255 < n then None else Some (char_of (nat n))
      | None \<Rightarrow> None)"
| "dec_byte _ old = None"

text \<open>\<open>[]byte\<close>: a string is base64, an array holds the bytes as numbers. The buffer of a
  decoded string is as long as base64 could need, zero past the bytes.\<close>

fun dec_bytes :: "char go_slice decoder" where
  "dec_bytes (JStr s) old =
     map_option (\<lambda>bs. Slice (length bs) (bs @ replicate (length s div 4 * 3 - length bs) (char_of (0 :: nat))))
       (base64_decode s)"
| "dec_bytes j old = dec_slice (char_of (0 :: nat)) dec_byte j old"

subsection \<open>Encoding strings\<close>

text \<open>\<open>htmlSafeSet\<close>: the ASCII bytes copied as they are.\<close>

definition json_safe :: "nat \<Rightarrow> bool" where
  "json_safe b \<longleftrightarrow> 0x20 \<le> b \<and> b \<notin> {0x22, 0x26, 0x3C, 0x3E, 0x5C}"

definition json_escape :: "nat \<Rightarrow> string" where
  "json_escape b =
     backslash #
     (if b = 0x5C \<or> b = 0x22 then [char_of b]
      else if b = 0x08 then ''b''
      else if b = 0x0C then ''f''
      else if b = 0x0A then ''n''
      else if b = 0x0D then ''r''
      else if b = 0x09 then ''t''
      else ''u00'' @ [char_of (if b div 16 < 10 then 0x30 + b div 16 else 0x57 + b div 16),
                      char_of (if b mod 16 < 10 then 0x30 + b mod 16 else 0x57 + b mod 16)])"

function encode_chars :: "string \<Rightarrow> string" where
  "encode_chars [] = []"
| "encode_chars (c # cs) =
     (if byte c < (0x80 :: nat)
      then (if json_safe (byte c) then [c] else json_escape (byte c)) @ encode_chars cs
      else
        (case decode_rune c cs of
           (r, w) \<Rightarrow>
             (if r = rune_error \<and> w = 0 then backslash # ''ufffd''
              else if r = 0x2028 then backslash # ''u2028''
              else if r = 0x2029 then backslash # ''u2029''
              else c # take w cs) @ encode_chars (drop w cs)))"
  by pat_completeness auto
termination
  by (relation "measure length") auto

declare encode_chars.simps(2) [simp del]

definition encode_string :: "string \<Rightarrow> string" where
  "encode_string s = [dquote] @ encode_chars s @ [dquote]"

definition encode_bool :: "bool \<Rightarrow> string" where
  "encode_bool b = (if b then ''true'' else ''false'')"

text \<open>The valid UTF-8 string closest to \<open>s\<close>: U+FFFD for every byte that is not part of a
  rune. What survives a trip through JSON.\<close>

definition valid_utf8 :: "string \<Rightarrow> string" where
  "valid_utf8 s = concat (map encode_rune (runes s))"

lemma encode_rune_ascii: "byte c < (0x80 :: nat) \<Longrightarrow> encode_rune (byte c) = [c]"
  by (simp add: encode_rune_def)

lemma valid_utf8_Nil [simp]: "valid_utf8 [] = []"
  by (simp add: valid_utf8_def)

lemma valid_utf8_ascii: "\<forall>c\<in>set s. byte c < (0x80 :: nat) \<Longrightarrow> valid_utf8 s = s"
proof (induction s)
  case (Cons c s)
  then show ?case by (simp add: valid_utf8_def encode_rune_ascii del: runes.simps(2))
qed simp

subsection \<open>Decoding what was encoded\<close>

lemma decode_rune_local:
  "decode_rune c cs = (r, w) \<Longrightarrow> w \<noteq> 0 \<Longrightarrow> decode_rune c (take w cs @ rest) = (r, w)"
  by (auto simp: decode_rune_def Let_def split: list.splits if_splits)

lemma decode_rune_len: "decode_rune c cs = (r, w) \<Longrightarrow> w \<le> length cs"
  by (auto simp: decode_rune_def Let_def split: list.splits if_splits)

lemma decode_rune_short: "decode_rune c cs = (r, 0) \<Longrightarrow> 0x80 \<le> (byte c :: nat) \<Longrightarrow> r = rune_error"
  by (auto simp: decode_rune_def Let_def split: list.splits if_splits)

lemma unquote_copied:
  assumes "decode_rune c cs = (r, w)" and "c \<noteq> backslash" and "w \<noteq> 0 \<or> byte c < (0x80 :: nat)"
  shows "unquote (c # take w cs @ rest) = encode_rune r @ unquote rest"
proof (cases "w = 0")
  case True
  with assms have "byte c < (0x80 :: nat)" by simp
  with assms True show ?thesis by (simp add: unquote.simps(2) decode_rune_ascii)
next
  case False
  from decode_rune_local [OF assms(1) False, of rest] decode_rune_len [OF assms(1)] assms(2)
  show ?thesis by (simp add: unquote.simps(2))
qed

lemma ascii_cases: "(b::nat) < 0x80 \<Longrightarrow> \<not> json_safe b \<Longrightarrow> b \<in> set ([0..<0x20] @ [0x22, 0x26, 0x3C, 0x3E, 0x5C])"
  by (auto simp: json_safe_def)


text \<open>One step of the encoder, as a chunk and what remains.\<close>

definition chunk :: "char \<Rightarrow> string \<Rightarrow> string" where
  "chunk c cs =
     (if byte c < (0x80 :: nat)
      then (if json_safe (byte c) then [c] else json_escape (byte c))
      else
        (case decode_rune c cs of
           (r, w) \<Rightarrow>
             (if r = rune_error \<and> w = 0 then backslash # ''ufffd''
              else if r = 0x2028 then backslash # ''u2028''
              else if r = 0x2029 then backslash # ''u2029''
              else c # take w cs)))"

lemma encode_chars_chunk:
  "encode_chars (c # cs) = chunk c cs @ encode_chars (drop (snd (decode_rune c cs)) cs)"
  by (simp add: encode_chars.simps(2) chunk_def decode_rune_ascii split: prod.splits)

lemma unquote_escape:
  assumes "b < 0x80" and "\<not> json_safe b"
  shows "unquote (json_escape b @ rest) = char_of b # unquote rest"
proof -
  have "list_all (\<lambda>b. case json_escape b of
      [s, e] \<Rightarrow> s = backslash \<and> e \<noteq> CHR ''u'' \<and> simple_escape e = char_of b
    | [s, e, a1, a2, a3, a4] \<Rightarrow> s = backslash \<and> e = CHR ''u'' \<and> hex4 [a1, a2, a3, a4] = Some b
    | _ \<Rightarrow> False) ([0..<0x20] @ [0x22, 0x26, 0x3C, 0x3E, 0x5C])"
    by code_simp
  then have "case json_escape b of
      [s, e] \<Rightarrow> s = backslash \<and> e \<noteq> CHR ''u'' \<and> simple_escape e = char_of b
    | [s, e, a1, a2, a3, a4] \<Rightarrow> s = backslash \<and> e = CHR ''u'' \<and> hex4 [a1, a2, a3, a4] = Some b
    | _ \<Rightarrow> False"
    using ascii_cases [OF assms] unfolding list_all_iff by blast
  moreover have "encode_rune b = [char_of b]" using assms(1) by (simp add: encode_rune_def)
  moreover have "\<not> is_surrogate b" using assms(1) by (simp add: is_surrogate_def)
  ultimately show ?thesis
    by (auto simp: unquote.simps(2) split: list.splits)
qed

lemma unquote_u_escape:
  assumes "hex4 [a1, a2, a3, a4] = Some r" and "\<not> is_surrogate r"
  shows "unquote (backslash # CHR ''u'' # a1 # a2 # a3 # a4 # rest) = encode_rune r @ unquote rest"
  using assms by (simp add: unquote.simps(2))

lemma hex4_specials:
  "hex4 ''fffd'' = Some rune_error" "hex4 ''2028'' = Some 0x2028" "hex4 ''2029'' = Some 0x2029"
  by code_simp+

lemma not_surrogates: "\<not> is_surrogate rune_error" "\<not> is_surrogate 0x2028" "\<not> is_surrogate 0x2029"
  by (simp_all add: is_surrogate_def rune_error_def)

lemma unquote_chunk:
  "unquote (chunk c cs @ rest) = encode_rune (fst (decode_rune c cs)) @ unquote rest"
proof (cases "byte c < (0x80 :: nat)")
  case True
  then have d: "decode_rune c cs = (byte c, 0)" by (rule decode_rune_ascii)
  show ?thesis
  proof (cases "json_safe (byte c)")
    case safe: True
    then have "c \<noteq> backslash" by (auto simp: json_safe_def backslash_def)
    from unquote_copied [OF d this, of rest] True safe d show ?thesis by (simp add: chunk_def)
  next
    case False
    from unquote_escape [OF True this, of rest] True False d encode_rune_ascii [OF True]
    show ?thesis by (simp add: chunk_def)
  qed
next
  case False
  obtain r w where d: "decode_rune c cs = (r, w)" by fastforce
  have c: "c \<noteq> backslash" using False by (auto simp: backslash_def)
  consider "r = rune_error" "w = 0" | "r = 0x2028" | "r = 0x2029" | "w \<noteq> 0" "r \<noteq> 0x2028" "r \<noteq> 0x2029"
    using decode_rune_short [of c cs r] d False by fastforce
  then show ?thesis
  proof cases
    case 4
    with unquote_copied [OF d c, of rest] False d show ?thesis by (simp add: chunk_def)
  qed (use False d unquote_u_escape [OF hex4_specials(1) not_surrogates(1)]
      unquote_u_escape [OF hex4_specials(2) not_surrogates(2)]
      unquote_u_escape [OF hex4_specials(3) not_surrogates(3)] in \<open>auto simp: chunk_def rune_error_def\<close>)
qed

lemma unquote_encode: "unquote (encode_chars s) = valid_utf8 s"
proof (induction s rule: runes.induct)
  case (2 c cs)
  then show ?case by (simp add: encode_chars_chunk unquote_chunk valid_utf8_def)
qed (simp add: valid_utf8_def)


subsection \<open>Lexing what was encoded\<close>

lemma map_option_append [simp]:
  "map_option (append []) x = x" "map_option (append [t]) x = map_option (Cons t) x"
  "map_option (append (as @ bs)) x = map_option (\<lambda>cs. as @ bs @ cs) x"
  by (cases x; simp)+

definition plain :: "char \<Rightarrow> bool" where
  "plain c \<longleftrightarrow> (0x20 :: nat) \<le> byte c \<and> c \<noteq> dquote \<and> c \<noteq> backslash"

lemma lex_plain:
  "\<forall>c\<in>set xs. plain c \<Longrightarrow> lex_from (LStr acc) (xs @ rest) = lex_from (LStr (rev xs @ acc)) rest"
proof (induction xs arbitrary: acc)
  case (Cons x xs)
  have "lex_step (LStr acc) x = Some ([], LStr (x # acc))" using Cons.prems by (simp add: plain_def)
  moreover have "lex_from (LStr (x # acc)) (xs @ rest) = lex_from (LStr (rev (x # xs) @ acc)) rest"
    using Cons by simp
  ultimately show ?case by simp
qed simp

text \<open>An escape is read back into the string state.\<close>

definition lexes_in_string :: "string \<Rightarrow> bool" where
  "lexes_in_string xs \<longleftrightarrow>
     (\<forall>acc rest. lex_from (LStr acc) (xs @ rest) = lex_from (LStr (rev xs @ acc)) rest)"

lemma lexes_escape2:
  assumes "e \<in> {CHR ''b'', CHR ''f'', CHR ''n'', CHR ''r'', CHR ''t'', CHR ''/'', backslash, dquote}"
  shows "lexes_in_string [backslash, e]"
proof -
  have "lex_step (LStr acc) backslash = Some ([], LEsc (backslash # acc))" for acc
    by (simp add: backslash_def dquote_def)
  moreover have "lex_step (LEsc acc) e = Some ([], LStr (e # acc))" for acc
    using assms by simp
  ultimately show ?thesis by (simp add: lexes_in_string_def del: lex_step.simps)
qed

lemma lexes_escape_u:
  assumes "hex4 [a1, a2, a3, a4] = Some r"
  shows "lexes_in_string [backslash, CHR ''u'', a1, a2, a3, a4]"
proof -
  have h: "hex_val a1 \<noteq> None" "hex_val a2 \<noteq> None" "hex_val a3 \<noteq> None" "hex_val a4 \<noteq> None"
    using assms by (auto simp: hex4_def simp del: hex_val.simps split: option.splits)
  have "lex_step (LStr acc) backslash = Some ([], LEsc (backslash # acc))"
    "lex_step (LEsc acc) (CHR ''u'') = Some ([], LHex 4 (CHR ''u'' # acc))" for acc
    by (simp_all add: backslash_def dquote_def) (simp add: char_of_def)
  moreover have "lex_step (LHex n acc) a = Some ([], if n \<le> 1 then LStr (a # acc) else LHex (n - 1) (a # acc))"
    if "hex_val a \<noteq> None" for a n acc
    using that by (simp del: hex_val.simps)
  ultimately show ?thesis using h by (simp add: lexes_in_string_def del: lex_step.simps hex_val.simps)
qed

lemma lexes_append: "lexes_in_string xs \<Longrightarrow> lexes_in_string ys \<Longrightarrow> lexes_in_string (xs @ ys)"
  by (simp add: lexes_in_string_def)

lemma lexes_plain: "\<forall>c\<in>set xs. plain c \<Longrightarrow> lexes_in_string xs"
  by (simp add: lexes_in_string_def lex_plain)

lemma lexes_json_escape:
  assumes "b < 0x80" and "\<not> json_safe b"
  shows "lexes_in_string (json_escape b)"
proof -
  have "list_all (\<lambda>b. case json_escape b of
      [s, e] \<Rightarrow> s = backslash \<and> e \<in> {CHR ''b'', CHR ''f'', CHR ''n'', CHR ''r'', CHR ''t'', CHR ''/'', backslash, dquote}
    | [s, e, a1, a2, a3, a4] \<Rightarrow> s = backslash \<and> e = CHR ''u'' \<and> hex4 [a1, a2, a3, a4] = Some b
    | _ \<Rightarrow> False) ([0..<0x20] @ [0x22, 0x26, 0x3C, 0x3E, 0x5C])"
    by code_simp
  then have "case json_escape b of
      [s, e] \<Rightarrow> s = backslash \<and> e \<in> {CHR ''b'', CHR ''f'', CHR ''n'', CHR ''r'', CHR ''t'', CHR ''/'', backslash, dquote}
    | [s, e, a1, a2, a3, a4] \<Rightarrow> s = backslash \<and> e = CHR ''u'' \<and> hex4 [a1, a2, a3, a4] = Some b
    | _ \<Rightarrow> False"
    using ascii_cases [OF assms] unfolding list_all_iff by blast
  then show ?thesis
    using lexes_escape2 lexes_escape_u by (auto split: list.splits)
qed

lemma lexes_chunk: "lexes_in_string (chunk c cs)"
proof (cases "byte c < (0x80 :: nat)")
  case True
  show ?thesis
  proof (cases "json_safe (byte c)")
    case safe: True
    then have "plain c" by (auto simp: plain_def json_safe_def dquote_def backslash_def)
    with True safe show ?thesis by (simp add: chunk_def lexes_plain)
  qed (use True lexes_json_escape in \<open>simp add: chunk_def\<close>)
next
  case False
  obtain r w where d: "decode_rune c cs = (r, w)" by fastforce
  have "plain x" if "x \<in> set (c # take w cs)" for x
  proof -
    have "0x80 \<le> (byte x :: nat)"
      using that False decode_rune_skips [of x c cs] d by auto
    then show ?thesis by (auto simp: plain_def dquote_def backslash_def)
  qed
  then have "lexes_in_string (c # take w cs)" by (intro lexes_plain) blast
  then show ?thesis
    using False d hex4_specials lexes_escape_u by (auto simp: chunk_def)
qed

lemma lexes_encode: "lexes_in_string (encode_chars s)"
proof (induction s rule: runes.induct)
  case (2 c cs)
  then show ?case by (simp add: encode_chars_chunk lexes_append lexes_chunk)
qed (simp add: lexes_in_string_def)

lemma lex_encoded:
  "lex_from (LStr acc) (encode_chars s @ dquote # rest) =
     map_option (Cons (TStr (rev acc @ encode_chars s))) (lex_from LStart rest)"
  using lexes_encode [of s] by (simp add: lexes_in_string_def)

text \<open>Reading fixed bytes first.\<close>

fun lex_run :: "lex_state \<Rightarrow> string \<Rightarrow> (token list \<times> lex_state) option" where
  "lex_run st [] = Some ([], st)"
| "lex_run st (c # cs) =
     (case lex_step st c of
        None \<Rightarrow> None
      | Some (ts, st') \<Rightarrow> map_option (\<lambda>(us, s). (ts @ us, s)) (lex_run st' cs))"

lemma lex_from_run:
  "lex_run st xs = Some (ts, st') \<Longrightarrow> lex_from st (xs @ rest) = map_option (append ts) (lex_from st' rest)"
  by (induction xs arbitrary: st ts)
    (auto simp: option.map_comp comp_def split: option.splits)

end
