(* ===== verification/Docker_Api.thy ===== *)
theory Docker_Api
  imports World Go_Json_Io
begin

text \<open>
  The HTTP side of the plugin protocol (\<open>internal/dockerapi/handler.go\<close>): decoding the
  request body, asking the injected decider, writing the answer. The locale \<open>decider\<close>
  is the interface \<open>Decider\<close>; the handler's lemmas are proved inside it, for any
  implementation. The text of a decoding error is the argument \<open>err_text\<close>.
\<close>

subsection \<open>Wire formats\<close>

text \<open>\<open>AuthZReq\<close> while it is being decoded: its two byte slices are filled in place.\<close>

record wire_req =
  wire_fields :: authz_req
  wire_body :: "char go_slice"
  wire_response :: "char go_slice"

definition zero_wire :: wire_req where
  "zero_wire = \<lparr>wire_fields = zero_req, wire_body = nil_slice, wire_response = nil_slice\<rparr>"

definition store_req :: "string \<Rightarrow> wire_req decoder" where
  "store_req k j r =
     (let q = wire_fields r
      in if key_is ''User'' k then
           map_option (\<lambda>v. r\<lparr>wire_fields := q\<lparr>User := v\<rparr>\<rparr>) (dec_string j (User q))
         else if key_is ''UserAuthNMethod'' k then
           map_option (\<lambda>v. r\<lparr>wire_fields := q\<lparr>UserAuthNMethod := v\<rparr>\<rparr>) (dec_string j (UserAuthNMethod q))
         else if key_is ''RequestMethod'' k then
           map_option (\<lambda>v. r\<lparr>wire_fields := q\<lparr>RequestMethod := v\<rparr>\<rparr>) (dec_string j (RequestMethod q))
         else if key_is ''RequestURI'' k then
           map_option (\<lambda>v. r\<lparr>wire_fields := q\<lparr>RequestURI := v\<rparr>\<rparr>) (dec_string j (RequestURI q))
         else if key_is ''RequestBody'' k then
           map_option (\<lambda>v. r\<lparr>wire_body := v\<rparr>) (dec_bytes j (wire_body r))
         else if key_is ''RequestHeaders'' k then
           map_option (\<lambda>v. r\<lparr>wire_fields := q\<lparr>RequestHeaders := v\<rparr>\<rparr>) (dec_string_map j (RequestHeaders q))
         else if key_is ''ResponseStatusCode'' k then
           map_option (\<lambda>v. r\<lparr>wire_fields := q\<lparr>ResponseStatusCode := v\<rparr>\<rparr>) (dec_int j (ResponseStatusCode q))
         else if key_is ''ResponseBody'' k then
           map_option (\<lambda>v. r\<lparr>wire_response := v\<rparr>) (dec_bytes j (wire_response r))
         else if key_is ''ResponseHeaders'' k then
           map_option (\<lambda>v. r\<lparr>wire_fields := q\<lparr>ResponseHeaders := v\<rparr>\<rparr>) (dec_string_map j (ResponseHeaders q))
         else Some r)"

definition decode_req :: "string \<Rightarrow> authz_req option" where
  "decode_req body =
     map_option
       (\<lambda>r. (wire_fields r)\<lparr>RequestBody := elems (wire_body r), ResponseBody := elems (wire_response r)\<rparr>)
       (decode_stream (dec_struct store_req) zero_wire body)"

text \<open>\<open>json.Encoder.Encode\<close> of an \<open>AuthZRes\<close> (empty strings omitted) and of the activation
  answer; each ends with a newline.\<close>

definition newline :: string where
  "newline = [char_of (0x0A :: nat)]"

definition encode_field :: "string \<Rightarrow> string \<Rightarrow> string" where
  "encode_field name v = (if v = [] then [] else '','' @ encode_string name @ '':'' @ encode_string v)"

definition encode_res :: "authz_res \<Rightarrow> string" where
  "encode_res r =
     ''{'' @ encode_string ''Allow'' @ '':'' @ encode_bool (ResAllow r) @
     encode_field ''Msg'' (ResMsg r) @ encode_field ''Err'' (ResErr r) @ ''}'' @ newline"

definition encode_activate :: "plugin_activate_res \<Rightarrow> string" where
  "encode_activate r =
     ''{'' @ encode_string ''Implements'' @ '':['' @ join '','' (map encode_string (Implements r)) @ '']}'' @
     newline"

subsection \<open>Deciders\<close>

type_synonym ('x, 'b) decider =
  "go_ctx \<Rightarrow> authz_req \<Rightarrow> 'x \<times> 'b world \<Rightarrow> (bool \<times> string \<times> go_error option) \<times> 'x \<times> 'b world"

text \<open>What \<open>Decider\<close> promises from a good state: no error, a message in \<open>reply req\<close>, and
  again a good state. The world's clock and log are no part of \<open>okay\<close>.\<close>

locale decider =
  fixes decide :: "('x, 'b) decider" and reply :: "authz_req \<Rightarrow> string set"
    and okay :: "'x \<times> 'b world \<Rightarrow> bool"
  assumes never_fails: "okay st \<Longrightarrow> snd (snd (fst (decide ctx req st))) = None"
    and public_reply: "okay st \<Longrightarrow> fst (snd (fst (decide ctx req st))) \<in> reply req"
    and keeps: "okay st \<Longrightarrow> okay (snd (decide ctx req st))"
    and world_free: "okay (x, w) \<Longrightarrow> okay (x, w')"

subsection \<open>The handler\<close>

record http_res =
  status :: nat
  content_type :: string
  payload :: string

definition writeJSON :: "nat \<Rightarrow> string \<Rightarrow> http_res" where
  "writeJSON code v = \<lparr>status = code, content_type = ''application/json'', payload = v\<rparr>"

definition handleActivate :: http_res where
  "handleActivate = writeJSON 200 (encode_activate \<lparr>Implements = [''authz'']\<rparr>)"

definition decodeRequest ::
  "(string \<Rightarrow> string) \<Rightarrow> string \<Rightarrow> 'b world \<Rightarrow> (http_res + authz_req) \<times> 'b world" where
  "decodeRequest err_text body w =
     (case decode_req body of
        None \<Rightarrow>
          (Inl (writeJSON 400
            (encode_res \<lparr>ResAllow = False, ResMsg = [], ResErr = ''malformed AuthZReq: '' @ err_text body\<rparr>)), w)
      | Some req \<Rightarrow> (Inr req, emit (TraceReq req) w))"

definition writeAuthZRes :: "authz_res \<Rightarrow> 'b world \<Rightarrow> http_res \<times> 'b world" where
  "writeAuthZRes res w = (writeJSON 200 (encode_res res), emit (TraceRes res) w)"

definition answer_of :: "bool \<times> string \<times> go_error option \<Rightarrow> authz_res" where
  "answer_of a =
     (case a of
        (ok, msg, err) \<Rightarrow>
          \<lparr>ResAllow = ok, ResMsg = msg, ResErr = (case err of None \<Rightarrow> [] | Some e \<Rightarrow> e)\<rparr>)"

definition handleAuthZRes ::
  "(string \<Rightarrow> string) \<Rightarrow> ('x, 'b) decider \<Rightarrow> go_ctx \<Rightarrow> string \<Rightarrow> 'x \<times> 'b world \<Rightarrow>
     http_res \<times> 'x \<times> 'b world" where
  "handleAuthZRes err_text decide ctx body st =
     (case decodeRequest err_text body (snd st) of
        (Inl bad, w) \<Rightarrow> (bad, (fst st, w))
      | (Inr req, w) \<Rightarrow>
          (let (a, (x, w')) = decide ctx req (fst st, w);
               (res, w'') = writeAuthZRes (answer_of a) w'
           in (res, (x, w''))))"

definition latency :: "int \<Rightarrow> event" where
  "latency elapsed = Metric ''authzmtls.latency'' [] elapsed"

text \<open>The request side does the same, timed.\<close>

definition handleAuthZReq ::
  "(string \<Rightarrow> string) \<Rightarrow> ('x, 'b) decider \<Rightarrow> go_ctx \<Rightarrow> string \<Rightarrow> 'x \<times> 'b world \<Rightarrow>
     http_res \<times> 'x \<times> 'b world" where
  "handleAuthZReq err_text decide ctx body st =
     (let (start, w0) = now (snd st);
          (res, (x, w1)) =
            (case decodeRequest err_text body w0 of
               (Inl bad, w) \<Rightarrow> (bad, (fst st, w))
             | (Inr req, w) \<Rightarrow>
                 (let (a, (x, w')) = decide ctx req (fst st, w);
                      (res, w'') = writeAuthZRes (answer_of a) w'
                  in (res, (x, w''))));
          (t, w2) = now w1
      in (res, (x, emit (latency (time_sub t start)) w2)))"

text \<open>The endpoints of \<open>Mux\<close>; any other path is not found.\<close>

datatype endpoint = Activate | AuthZReq | AuthZRes

definition route :: "string \<Rightarrow> endpoint option" where
  "route p =
     (if p = ''/Plugin.Activate'' then Some Activate
      else if p = ''/AuthZPlugin.AuthZReq'' then Some AuthZReq
      else if p = ''/AuthZPlugin.AuthZRes'' then Some AuthZRes
      else None)"

subsection \<open>The handler over any decider\<close>

context decider
begin

lemma decision:
  assumes "okay st"
  obtains ok msg x w' where "decide ctx req st = ((ok, msg, None), (x, w'))" and "msg \<in> reply req"
    and "okay (x, w')"
proof -
  obtain ok msg err x w' where d: "decide ctx req st = ((ok, msg, err), (x, w'))" by (metis surj_pair)
  have "err = None" "msg \<in> reply req" "okay (x, w')"
    using never_fails [OF assms, of ctx req] public_reply [OF assms, of ctx req]
      keeps [OF assms, of ctx req] d by auto
  with d that show ?thesis by blast
qed

lemma handle_decoded:
  assumes "okay (x0, w0)" and "decode_req body = Some req"
  obtains ok msg x w' where "decide ctx req (x0, emit (TraceReq req) w0) = ((ok, msg, None), (x, w'))"
    and "msg \<in> reply req" and "okay (x, w')"
    and "handleAuthZRes err_text decide ctx body (x0, w0) =
      (writeJSON 200 (encode_res \<lparr>ResAllow = ok, ResMsg = msg, ResErr = []\<rparr>),
       (x, emit (TraceRes \<lparr>ResAllow = ok, ResMsg = msg, ResErr = []\<rparr>) w'))"
proof -
  obtain ok msg x w' where
    d: "decide ctx req (x0, emit (TraceReq req) w0) = ((ok, msg, None), (x, w'))"
    and m: "msg \<in> reply req" and k: "okay (x, w')"
    by (rule decision [OF world_free [OF assms(1)]])
  show ?thesis
    by (rule that [OF d m k])
      (simp add: handleAuthZRes_def decodeRequest_def assms d answer_of_def writeAuthZRes_def)
qed

lemma handle_malformed:
  assumes "decode_req body = None"
  shows "handleAuthZRes err_text decide ctx body st =
    (writeJSON 400 (encode_res \<lparr>ResAllow = False, ResMsg = [], ResErr = ''malformed AuthZReq: '' @ err_text body\<rparr>),
     st)"
  by (simp add: handleAuthZRes_def decodeRequest_def assms)

lemma handle_keeps:
  assumes "okay st"
  shows "okay (snd (handleAuthZRes err_text decide ctx body st))"
proof -
  obtain x0 w0 where st: "st = (x0, w0)" by fastforce
  show ?thesis
  proof (cases "decode_req body")
    case None
    with assms show ?thesis by (simp add: handle_malformed)
  next
    case (Some req)
    from handle_decoded [OF assms [unfolded st] this] obtain r x w' where
      "okay (x, w')" "snd (handleAuthZRes err_text decide ctx body st) = (x, emit r w')"
      unfolding st by (metis snd_conv)
    then show ?thesis using world_free by simp
  qed
qed

text \<open>The timed handler answers as the other one, the clock having moved before it starts.\<close>

lemma handle_req_res:
  "fst (handleAuthZReq err_text decide ctx body st) =
     fst (handleAuthZRes err_text decide ctx body (fst st, snd (now (snd st))))"
  by (simp add: handleAuthZReq_def handleAuthZRes_def split: prod.splits sum.splits)

end

subsection \<open>Reading an answer back\<close>

text \<open>How the daemon decodes an answer.\<close>

definition store_res :: "string \<Rightarrow> authz_res decoder" where
  "store_res k j r =
     (if key_is ''Allow'' k then map_option (\<lambda>v. r\<lparr>ResAllow := v\<rparr>) (dec_bool j (ResAllow r))
      else if key_is ''Msg'' k then map_option (\<lambda>v. r\<lparr>ResMsg := v\<rparr>) (dec_string j (ResMsg r))
      else if key_is ''Err'' k then map_option (\<lambda>v. r\<lparr>ResErr := v\<rparr>) (dec_string j (ResErr r))
      else Some r)"

definition decode_res :: "string \<Rightarrow> authz_res option" where
  "decode_res = unmarshal (dec_struct store_res) \<lparr>ResAllow = False, ResMsg = [], ResErr = []\<rparr>"

definition field_tokens :: "string \<Rightarrow> string \<Rightarrow> token list" where
  "field_tokens name v =
     (if v = [] then [] else [TComma, TStr name, TColon, TStr (encode_chars v)])"

lemma lex_head:
  "lex_run LStart (''{'' @ encode_string ''Allow'' @ '':'' @ encode_bool b) =
     Some ([TOpenObj, TStr ''Allow'', TColon, TBool b], LStart)"
  by (cases b; simp only:) code_simp+

lemma lex_names:
  "lex_run LStart ('','' @ encode_string ''Msg'' @ '':'' @ [dquote]) =
     Some ([TComma, TStr ''Msg'', TColon], LStr [])"
  "lex_run LStart ('','' @ encode_string ''Err'' @ '':'' @ [dquote]) =
     Some ([TComma, TStr ''Err'', TColon], LStr [])"
  by code_simp+

lemma lex_tail: "lex_from LStart (''}'' @ newline) = Some [TCloseObj]"
  by code_simp

lemma lex_field:
  assumes "lex_run LStart ('','' @ encode_string name @ '':'' @ [dquote]) =
     Some ([TComma, TStr name, TColon], LStr [])"
  shows "lex_from LStart (encode_field name v @ rest) =
    map_option (append (field_tokens name v)) (lex_from LStart rest)"
proof (cases "v = []")
  case False
  have "encode_field name v @ rest =
      ('','' @ encode_string name @ '':'' @ [dquote]) @ encode_chars v @ dquote # rest"
    using False by (simp only: encode_field_def encode_string_def append_assoc append_Cons append_Nil) simp
  then have "lex_from LStart (encode_field name v @ rest) =
      map_option (append [TComma, TStr name, TColon]) (lex_from (LStr []) (encode_chars v @ dquote # rest))"
    by (simp only: lex_from_run [OF assms])
  then show ?thesis
    using False by (cases "lex_from LStart rest") (simp_all add: lex_encoded field_tokens_def)
qed (simp_all add: encode_field_def field_tokens_def)

lemma lex_encode_res:
  "lex (encode_res r) =
     Some ([TOpenObj, TStr ''Allow'', TColon, TBool (ResAllow r)] @
           field_tokens ''Msg'' (ResMsg r) @ field_tokens ''Err'' (ResErr r) @ [TCloseObj])"
proof -
  have "encode_res r = (''{'' @ encode_string ''Allow'' @ '':'' @ encode_bool (ResAllow r)) @
      encode_field ''Msg'' (ResMsg r) @ encode_field ''Err'' (ResErr r) @ ''}'' @ newline"
    by (simp add: encode_res_def)
  then show ?thesis
    unfolding lex_def
    by (simp only: lex_from_run [OF lex_head] lex_field [OF lex_names(1)] lex_field [OF lex_names(2)]
        lex_tail) simp
qed

lemma unquote_names: "unquote ''Allow'' = ''Allow''" "unquote ''Msg'' = ''Msg''" "unquote ''Err'' = ''Err''"
  by code_simp+

lemma key_names:
  "\<not> key_is ''Allow'' ''Msg''" "\<not> key_is ''Allow'' ''Err''" "\<not> key_is ''Msg'' ''Err''"
  by code_simp+

lemma decode_encode_res:
  "decode_res (encode_res r) =
     Some \<lparr>ResAllow = ResAllow r, ResMsg = valid_utf8 (ResMsg r), ResErr = valid_utf8 (ResErr r)\<rparr>"
  by (simp add: decode_res_def unmarshal_def parse_json_def lex_encode_res field_tokens_def
      unquote_encode unquote_names store_res_def key_names max_depth_def)

end
