(* ===== verification/Docker_Shapes.thy ===== *)
theory Docker_Shapes
  imports Docker_Types
begin

text \<open>
  Recognising what a Docker request asks for (first part of
  \<open>internal/rules/mounts.go\<close>): which endpoint a URI names, and what the bodies of
  \<open>/containers/create\<close> and \<open>/volumes/create\<close> hold. A URI is only ever compared by
  its segments, so the API version prefix and the query string are immaterial.
\<close>

subsection \<open>URIs\<close>

definition is_ascii_digit :: "nat \<Rightarrow> bool" where
  "is_ascii_digit r \<longleftrightarrow> 0x30 \<le> r \<and> r \<le> 0x39"

definition is_version_segment :: "string \<Rightarrow> bool" where
  "is_version_segment s \<longleftrightarrow>
     (case s of
        v # rest \<Rightarrow>
          rest \<noteq> [] \<and> v = CHR ''v'' \<and>
          list_all (\<lambda>part. part \<noteq> [] \<and> list_all is_ascii_digit (runes part))
            (split_on (CHR ''.'') rest)
      | [] \<Rightarrow> False)"

definition path_segments :: "string \<Rightarrow> string list" where
  "path_segments uri =
     (let p = trim_byte (before_byte uri (CHR ''?'')) (CHR ''/'')
      in if p = [] then []
         else
           (let segs = split_on (CHR ''/'') p
            in if is_version_segment (hd segs) then tl segs else segs))"

definition is_container_create :: "string \<Rightarrow> bool" where
  "is_container_create uri \<longleftrightarrow> path_segments uri = [''containers'', ''create'']"

definition is_volume_create :: "string \<Rightarrow> bool" where
  "is_volume_create uri \<longleftrightarrow> path_segments uri = [''volumes'', ''create'']"

fun container_action :: "string \<Rightarrow> string list \<Rightarrow> bool" where
  "container_action act [a, b, c] \<longleftrightarrow> a = ''containers'' \<and> b \<noteq> [] \<and> c = act"
| "container_action act _ \<longleftrightarrow> False"

definition is_docker_cp :: "string \<Rightarrow> string \<Rightarrow> bool" where
  "is_docker_cp mth uri \<longleftrightarrow>
     (if mth \<noteq> ''GET'' \<and> mth \<noteq> ''PUT'' then False
      else container_action ''archive'' (path_segments uri))"

definition is_docker_exec_create :: "string \<Rightarrow> string \<Rightarrow> bool" where
  "is_docker_exec_create mth uri \<longleftrightarrow>
     (if mth \<noteq> ''POST'' then False
      else container_action ''exec'' (path_segments uri))"

lemma container_action_iff:
  "container_action act segs \<longleftrightarrow> (\<exists>i. i \<noteq> [] \<and> segs = [''containers'', i, act])"
  by (induction act segs rule: container_action.induct) auto

subsection \<open>Container create\<close>

record mount_spec =
  Type :: string
  Source :: string
  Target :: string
  ReadOnly :: bool

definition zero_mount :: mount_spec where
  "zero_mount = \<lparr>Type = [], Source = [], Target = [], ReadOnly = False\<rparr>"

text \<open>\<open>hostConfig\<close> and the struct \<open>wire.HostConfig\<close> it is copied from have the same
  fields; \<open>NetworkMode\<close> and \<open>Privileged\<close> are pointers.\<close>

record host_config =
  HBinds :: "string go_slice"
  HMounts :: "mount_spec go_slice"
  HNetworkMode :: "string option"
  HPrivileged :: "bool option"

definition zero_host_config :: host_config where
  "zero_host_config =
     \<lparr>HBinds = nil_slice, HMounts = nil_slice, HNetworkMode = None, HPrivileged = None\<rparr>"

definition store_mount :: "string \<Rightarrow> mount_spec decoder" where
  "store_mount k j m =
     (if key_is ''Type'' k then map_option (\<lambda>v. m\<lparr>Type := v\<rparr>) (dec_string j (Type m))
      else if key_is ''Source'' k then map_option (\<lambda>v. m\<lparr>Source := v\<rparr>) (dec_string j (Source m))
      else if key_is ''Target'' k then map_option (\<lambda>v. m\<lparr>Target := v\<rparr>) (dec_string j (Target m))
      else if key_is ''ReadOnly'' k then map_option (\<lambda>v. m\<lparr>ReadOnly := v\<rparr>) (dec_bool j (ReadOnly m))
      else Some m)"

definition store_host_config :: "string \<Rightarrow> host_config decoder" where
  "store_host_config k j h =
     (if key_is ''Binds'' k then
        map_option (\<lambda>v. h\<lparr>HBinds := v\<rparr>) (dec_slice [] dec_string j (HBinds h))
      else if key_is ''Mounts'' k then
        map_option (\<lambda>v. h\<lparr>HMounts := v\<rparr>)
          (dec_slice zero_mount (dec_struct store_mount) j (HMounts h))
      else if key_is ''NetworkMode'' k then
        map_option (\<lambda>v. h\<lparr>HNetworkMode := v\<rparr>) (dec_pointer [] dec_string j (HNetworkMode h))
      else if key_is ''Privileged'' k then
        map_option (\<lambda>v. h\<lparr>HPrivileged := v\<rparr>) (dec_pointer False dec_bool j (HPrivileged h))
      else Some h)"

definition store_create_wire :: "string \<Rightarrow> host_config decoder" where
  "store_create_wire k j h =
     (if key_is ''HostConfig'' k then dec_struct store_host_config j h else Some h)"

definition decode_host_config :: "string \<Rightarrow> string \<Rightarrow> host_config option" where
  "decode_host_config uri body =
     (if \<not> is_container_create uri then None
      else unmarshal (dec_struct store_create_wire) zero_host_config body)"

text \<open>The source part of a legacy bind: what is before the first colon.\<close>

definition bind_source :: "string \<Rightarrow> string" where
  "bind_source b = before_byte b (CHR '':'')"

definition binds :: "string \<Rightarrow> string \<Rightarrow> string list" where
  "binds uri body =
     (case decode_host_config uri body of
        None \<Rightarrow> []
      | Some hc \<Rightarrow>
          filter (\<lambda>src. src \<noteq> []) (map bind_source (elems (HBinds hc))) @
          filter (\<lambda>src. src \<noteq> []) (map Source (elems (HMounts hc))))"

definition network_mode :: "string \<Rightarrow> string \<Rightarrow> string option" where
  "network_mode uri body =
     (case decode_host_config uri body of None \<Rightarrow> None | Some hc \<Rightarrow> HNetworkMode hc)"

definition privileged :: "string \<Rightarrow> string \<Rightarrow> bool option" where
  "privileged uri body =
     (case decode_host_config uri body of None \<Rightarrow> None | Some hc \<Rightarrow> HPrivileged hc)"

subsection \<open>Volume create\<close>

record volume_create =
  VName :: string
  VDriver :: string
  VDriverOpts :: "string \<rightharpoonup> string"
  VLabels :: "string \<rightharpoonup> string"

definition zero_volume :: volume_create where
  "zero_volume = \<lparr>VName = [], VDriver = [], VDriverOpts = Map.empty, VLabels = Map.empty\<rparr>"

definition store_volume :: "string \<Rightarrow> volume_create decoder" where
  "store_volume k j v =
     (if key_is ''Name'' k then map_option (\<lambda>x. v\<lparr>VName := x\<rparr>) (dec_string j (VName v))
      else if key_is ''Driver'' k then map_option (\<lambda>x. v\<lparr>VDriver := x\<rparr>) (dec_string j (VDriver v))
      else if key_is ''DriverOpts'' k then
        map_option (\<lambda>x. v\<lparr>VDriverOpts := x\<rparr>) (dec_string_map j (VDriverOpts v))
      else if key_is ''Labels'' k then
        map_option (\<lambda>x. v\<lparr>VLabels := x\<rparr>) (dec_string_map j (VLabels v))
      else Some v)"

definition decode_volume_create :: "string \<Rightarrow> string \<Rightarrow> volume_create option" where
  "decode_volume_create uri body =
     (if \<not> is_volume_create uri then None
      else unmarshal (dec_struct store_volume) zero_volume body)"

text \<open>Some token of the comma-separated option \<open>o\<close> is \<open>bind\<close>.\<close>

definition has_bind_token :: "string \<Rightarrow> bool" where
  "has_bind_token opts = list_ex (\<lambda>tok. trim_space tok = ''bind'') (split_on (CHR '','') opts)"

definition volume_bind_device :: "string \<Rightarrow> string \<Rightarrow> string option" where
  "volume_bind_device uri body =
     (case decode_volume_create uri body of
        None \<Rightarrow> None
      | Some vc \<Rightarrow>
          (let driver = (if VDriver vc = [] then ''local'' else VDriver vc)
           in if driver \<noteq> ''local'' then None
              else
                (case VDriverOpts vc ''o'' of
                   None \<Rightarrow> None
                 | Some opts \<Rightarrow>
                     if \<not> has_bind_token opts then None else VDriverOpts vc ''device'')))"

subsection \<open>The URI alone decides which request it is\<close>

lemma path_segments_query: "path_segments (uri @ CHR ''?'' # q) = path_segments uri"
  by (simp add: path_segments_def)

lemma before_query_id: "CHR ''?'' \<notin> set uri \<Longrightarrow> before_byte uri (CHR ''?'') = uri"
  by (simp add: before_byte_takeWhile takeWhile_no_sep)

lemma create_shapes_disjoint: "is_container_create uri \<Longrightarrow> \<not> is_volume_create uri"
  by (simp add: is_container_create_def is_volume_create_def)

lemma container_create_not_action:
  "is_container_create uri \<Longrightarrow> \<not> is_docker_cp m uri \<and> \<not> is_docker_exec_create m uri"
  by (simp add: is_container_create_def is_docker_cp_def is_docker_exec_create_def)

lemma volume_create_not_action:
  "is_volume_create uri \<Longrightarrow> \<not> is_docker_cp m uri \<and> \<not> is_docker_exec_create m uri"
  by (simp add: is_volume_create_def is_docker_cp_def is_docker_exec_create_def)

lemma docker_cp_not_exec: "is_docker_cp m uri \<Longrightarrow> \<not> is_docker_exec_create m uri"
  by (auto simp: is_docker_cp_def is_docker_exec_create_def split: if_splits)

lemma binds_not_create [simp]: "\<not> is_container_create uri \<Longrightarrow> binds uri body = []"
  by (simp add: binds_def decode_host_config_def)

lemma network_mode_not_create [simp]: "\<not> is_container_create uri \<Longrightarrow> network_mode uri body = None"
  by (simp add: network_mode_def decode_host_config_def)

lemma privileged_not_create [simp]: "\<not> is_container_create uri \<Longrightarrow> privileged uri body = None"
  by (simp add: privileged_def decode_host_config_def)

lemma volume_bind_device_not_create [simp]:
  "\<not> is_volume_create uri \<Longrightarrow> volume_bind_device uri body = None"
  by (simp add: volume_bind_device_def decode_volume_create_def)

lemma binds_nonempty_comps: "p \<in> set (binds uri body) \<Longrightarrow> p \<noteq> []"
  by (auto simp: binds_def split: option.splits)

lemma set_join: "set (join sep xs) \<subseteq> \<Union> (set ` set xs) \<union> set sep"
  by (induction sep xs rule: join.induct) auto

lemma join_ends:
  assumes "xs \<noteq> []" and "hd xs \<noteq> []" and "last xs \<noteq> []"
  shows "join sep xs \<noteq> [] \<and> hd (join sep xs) = hd (hd xs) \<and> last (join sep xs) = last (last xs)"
  using assms
proof (induction sep xs rule: join.induct)
  case (3 sep x y zs)
  show ?case
  proof (cases "hd (y # zs) = []")
    case True
    then have "zs \<noteq> []" and "last zs \<noteq> []" using 3(4) by (auto split: if_splits)
    have "join sep zs \<noteq> [] \<and> last (join sep zs) = last (last zs)" if "zs \<noteq> []" "last zs \<noteq> []" for zs
      using that by (induction sep zs rule: join.induct) (auto split: if_splits)
    from this [OF \<open>zs \<noteq> []\<close> \<open>last zs \<noteq> []\<close>] show ?thesis
      using 3(3) True \<open>zs \<noteq> []\<close> by (auto simp: join_Cons)
  qed (use 3 in auto)
qed auto

lemma trim_byte_id: "s \<noteq> [] \<Longrightarrow> hd s \<noteq> c \<Longrightarrow> last s \<noteq> c \<Longrightarrow> trim_byte s c = s"
proof -
  assume s: "s \<noteq> []" "hd s \<noteq> c" "last s \<noteq> c"
  then have "dropWhile (\<lambda>x. x = c) s = s" by (cases s) auto
  moreover have "dropWhile (\<lambda>x. x = c) (rev s) = rev s"
    using s by (cases s rule: rev_cases) auto
  ultimately show ?thesis by (simp add: trim_byte_def)
qed

lemma path_segments_join:
  assumes "segs \<noteq> []" and "hd segs \<noteq> []" and "last segs \<noteq> []"
    and "\<forall>s\<in>set segs. CHR ''/'' \<notin> set s \<and> CHR ''?'' \<notin> set s"
  shows "path_segments (CHR ''/'' # join ''/'' segs) =
    (if is_version_segment (hd segs) then tl segs else segs)"
proof -
  let ?p = "join ''/'' segs"
  note ends = join_ends [OF assms(1-3), of "''/''"]
  have "hd (hd segs) \<in> set (hd segs)" "hd segs \<in> set segs" "last (last segs) \<in> set (last segs)"
    "last segs \<in> set segs"
    using assms by simp_all
  then have "hd ?p \<noteq> CHR ''/''" "last ?p \<noteq> CHR ''/''" using ends assms(4) by auto
  then have "trim_byte ?p (CHR ''/'') = ?p" using ends by (simp add: trim_byte_id)
  moreover have "before_byte (CHR ''/'' # ?p) (CHR ''?'') = CHR ''/'' # ?p"
    using assms(4) set_join [of "''/''" segs] by (intro before_query_id) auto
  moreover have "split_on (CHR ''/'') ?p = segs" using assms(1,4) by (intro split_on_join) auto
  ultimately show ?thesis using ends by (simp add: path_segments_def)
qed

section \<open>Properties of the request shapes\<close>

text \<open>Neither an API version prefix nor a query string changes which endpoint a URI
  names: \<open>/segs\<close>, \<open>/v1.43/segs\<close> and \<open>/v1.43/segs?query\<close> have the same segments.\<close>

theorem version_and_query_immaterial:
  assumes "segs \<noteq> []" and "hd segs \<noteq> []" and "last segs \<noteq> []"
    and "\<forall>s\<in>set (v # segs). CHR ''/'' \<notin> set s \<and> CHR ''?'' \<notin> set s"
    and "is_version_segment v" and "\<not> is_version_segment (hd segs)"
  shows "path_segments (CHR ''/'' # join ''/'' segs) = segs \<and>
    path_segments (CHR ''/'' # join ''/'' (v # segs) @ CHR ''?'' # query) = segs"
proof -
  have v: "v \<noteq> []" using assms(5) by (auto simp: is_version_segment_def)
  have "path_segments (CHR ''/'' # join ''/'' (v # segs) @ CHR ''?'' # query) =
      path_segments (CHR ''/'' # join ''/'' (v # segs))"
    using path_segments_query [of "CHR ''/'' # join ''/'' (v # segs)" query] by simp
  then show ?thesis
    using assms v path_segments_join [of segs] path_segments_join [of "v # segs"] by simp
qed

lemma version_and_query_immaterial_witness:
  "path_segments ''/containers/create'' = [''containers'', ''create''] \<and>
   path_segments ''/v1.43/containers/create?name=/x'' = [''containers'', ''create'']"
proof -
  have "is_version_segment ''v1.43''" "\<not> is_version_segment ''containers''" by code_simp+
  with version_and_query_immaterial [of "[''containers'', ''create'']" "''v1.43''" "''name=/x''"]
  show ?thesis by simp
qed

text \<open>A request is at most one of container create, volume create, \<open>docker cp\<close> and
  \<open>docker exec\<close>.\<close>

theorem endpoints_exclusive:
  "card {k. k = (0::nat) \<and> is_container_create uri \<or> k = 1 \<and> is_volume_create uri \<or>
            k = 2 \<and> is_docker_cp mth uri \<or> k = 3 \<and> is_docker_exec_create mth uri} \<le> 1"
proof -
  have "is_container_create uri \<and> \<not> is_volume_create uri \<and> \<not> is_docker_cp mth uri \<and> \<not> is_docker_exec_create mth uri \<or>
      \<not> is_container_create uri \<and> is_volume_create uri \<and> \<not> is_docker_cp mth uri \<and> \<not> is_docker_exec_create mth uri \<or>
      \<not> is_container_create uri \<and> \<not> is_volume_create uri \<and> is_docker_cp mth uri \<and> \<not> is_docker_exec_create mth uri \<or>
      \<not> is_container_create uri \<and> \<not> is_volume_create uri \<and> \<not> is_docker_cp mth uri"
    using create_shapes_disjoint [of uri] container_create_not_action [of uri mth]
      volume_create_not_action [of uri mth] docker_cp_not_exec [of mth uri] by blast
  then show ?thesis by (auto simp: card_le_Suc0_iff_eq)
qed

text \<open>Only leading and trailing slashes are dropped: an empty inner segment stays a segment,
  and the URI is not recognised.\<close>

lemma inner_empty_segments_kept:
  "path_segments ''/containers//create'' = [''containers'', [], ''create''] \<and>
   \<not> is_container_create ''/containers//create''"
  by code_simp

text \<open>A volume mount whose driver options bind a host directory has no \<open>Source\<close>, so it is
  not among the paths the mount rule checks.\<close>

lemma volume_options_unseen: \<open>
  binds ''/containers/create''
    ''{"HostConfig":{"Mounts":[{"Type":"volume","Target":"/x","VolumeOptions":{"DriverConfig":{"Name":"local","Options":{"type":"none","o":"bind","device":"/"}}}}]}}'' = []\<close>
  by code_simp

end
