(* ===== verification/Allowlist.thy ===== *)
theory Allowlist
  imports Go_Symlinks
begin

text \<open>
  The allowlist (second half of \<open>internal/rules/mounts.go\<close>): \<open>Canonicalize\<close> turns a
  requested path into a canonical one, \<open>Expand\<close> fills \<open>$NAME\<close> placeholders of a
  configured pattern, and a \<open>Matcher\<close> compares canonical paths with expanded
  patterns. The lemmas give \<open>Expand\<close> and \<open>Matcher.Allowed\<close> their specifications: all
  safe assignments of the placeholders, and the prefix order on path components.
\<close>

subsection \<open>Canonicalize\<close>

datatype canon_error = ErrControlChar | ErrAbs go_error | ErrSymlinks go_error

definition check_no_control_chars :: "string \<Rightarrow> canon_error option" where
  "check_no_control_chars path = (if has_control path then Some ErrControlChar else None)"

definition canonicalize :: "os_env \<Rightarrow> string \<Rightarrow> canon_error + string" where
  "canonicalize os path =
     (case check_no_control_chars path of
        Some e \<Rightarrow> Inl e
      | None \<Rightarrow>
          (case path_abs os path of
             Inl e \<Rightarrow> Inl (ErrAbs e)
           | Inr ap \<Rightarrow>
               (case eval_symlinks os ap of
                  Inl e \<Rightarrow> Inl (ErrSymlinks e)
                | Inr resolved \<Rightarrow> Inr (clean resolved))))"

lemma canonicalize_canonical: "canonicalize os path = Inr c \<Longrightarrow> canonical c"
  by (auto simp: canonicalize_def check_no_control_chars_def canonical_clean
      dest!: path_abs_is_abs eval_symlinks_canonical canonical_is_abs
      split: option.splits sum.splits if_splits)

lemma canonicalize_control: "has_control path \<Longrightarrow> canonicalize os path = Inl ErrControlChar"
  by (simp add: canonicalize_def check_no_control_chars_def)

subsection \<open>Placeholders\<close>

definition name_start :: "char \<Rightarrow> bool" where
  "name_start c \<longleftrightarrow>
     (let b = (byte c :: nat)
      in (0x41 \<le> b \<and> b \<le> 0x5A) \<or> (0x61 \<le> b \<and> b \<le> 0x7A) \<or> b = 0x5F)"

definition name_char :: "char \<Rightarrow> bool" where
  "name_char c \<longleftrightarrow> name_start c \<or> (let b = (byte c :: nat) in 0x30 \<le> b \<and> b \<le> 0x39)"

text \<open>A pattern as the matches of \<open>placeholderPattern\<close> and the bytes between them: the
  leftmost match is taken and the name is as long as possible.\<close>

datatype piece = Lit char | Var string

function pieces :: "string \<Rightarrow> piece list" where
  "pieces [] = []"
| "pieces [c] = [Lit c]"
| "pieces (c # d # cs) =
     (if c = CHR ''$'' \<and> name_start d
      then Var (d # takeWhile name_char cs) # pieces (dropWhile name_char cs)
      else Lit c # pieces (d # cs))"
  by pat_completeness auto
termination
  by (relation "measure length") (auto simp: le_imp_less_Suc length_dropWhile_le less_Suc_eq_le
      intro: le_SucI)

definition var_names :: "piece list \<Rightarrow> string list" where
  "var_names ps = concat (map (\<lambda>x. case x of Lit _ \<Rightarrow> [] | Var n \<Rightarrow> [n]) ps)"

definition placeholder_names :: "string \<Rightarrow> string list" where
  "placeholder_names pattern = dedup_onto [] (var_names (pieces pattern))"

fun fill :: "(string \<Rightarrow> string) \<Rightarrow> piece \<Rightarrow> string" where
  "fill \<sigma> (Lit c) = [c]"
| "fill \<sigma> (Var n) = \<sigma> n"

definition instantiate :: "(string \<Rightarrow> string) \<Rightarrow> string \<Rightarrow> string" where
  "instantiate \<sigma> pattern = concat (map (fill \<sigma>) (pieces pattern))"

definition substitute :: "string \<Rightarrow> string list \<Rightarrow> string list \<Rightarrow> string" where
  "substitute pattern names combo = instantiate (read_string (zip names combo)) pattern"

fun cartesian_step :: "string list list \<Rightarrow> string list \<Rightarrow> string list list" where
  "cartesian_step result vs = concat (map (\<lambda>combo. map (\<lambda>v. combo @ [v]) vs) result)"

definition cartesian_product :: "string list list \<Rightarrow> string list list" where
  "cartesian_product ls = foldl cartesian_step [[]] ls"

definition is_safe_var_value :: "string \<Rightarrow> bool" where
  "is_safe_var_value v = list_all (\<lambda>r. r \<noteq> 0x2F \<and> \<not> is_control r) (runes v)"

definition safe_values :: "(string \<rightharpoonup> string list) \<Rightarrow> string \<Rightarrow> string list" where
  "safe_values vars name = filter is_safe_var_value (read_list vars name)"

definition expand :: "string \<Rightarrow> (string \<rightharpoonup> string list) \<Rightarrow> string list" where
  "expand pattern vars =
     (let names = placeholder_names pattern;
          values_by_name = map (safe_values vars) names
      in if names = [] then [pattern]
         else if [] \<in> set values_by_name then []
         else map (substitute pattern names) (cartesian_product values_by_name))"

subsection \<open>Matcher\<close>

definition normalize_prefix :: "string \<Rightarrow> string" where
  "normalize_prefix p =
     (let c = clean p in if c \<noteq> ''/'' then trim_suffix c ''/'' else c)"

record matcher =
  prefixes :: "string list"

definition new_matcher :: "string list \<Rightarrow> matcher" where
  "new_matcher ps = \<lparr>prefixes = map normalize_prefix ps\<rparr>"

definition allowed :: "matcher \<Rightarrow> string \<Rightarrow> bool" where
  "allowed m path =
     list_ex (\<lambda>pfx. path = pfx \<or> has_prefix path (if pfx = ''/'' then ''/'' else pfx @ ''/''))
       (prefixes m)"

subsection \<open>Concurrent checks\<close>

definition check_path :: "os_env \<Rightarrow> matcher \<Rightarrow> string \<Rightarrow> bool" where
  "check_path os m path =
     (case canonicalize os path of Inl _ \<Rightarrow> False | Inr canon \<Rightarrow> allowed m canon)"

text \<open>One goroutine per path, each writing its own slot of \<open>allowedFor\<close>; \<open>order\<close> is the
  order in which they happen to finish.\<close>

definition check_paths_in_order :: "nat list \<Rightarrow> os_env \<Rightarrow> string list \<Rightarrow> matcher \<Rightarrow> bool list" where
  "check_paths_in_order order os paths m =
     fold (\<lambda>i slots. slots[i := check_path os m (paths ! i)]) order
       (replicate (length paths) False)"

definition check_paths_concurrently :: "os_env \<Rightarrow> string list \<Rightarrow> matcher \<Rightarrow> bool list" where
  "check_paths_concurrently os paths m =
     check_paths_in_order (os_schedule os (length paths)) os paths m"

definition maxConcurrentMountChecks :: nat where
  "maxConcurrentMountChecks = 8"

lemma check_paths_slots:
  "length (fold (\<lambda>i slots. slots[i := f i]) order slots) = length slots"
  "j < length slots \<Longrightarrow>
     fold (\<lambda>i slots. slots[i := f i]) order slots ! j = (if j \<in> set order then f j else slots ! j)"
  by (induction order arbitrary: slots) (auto simp: nth_list_update)

lemma check_paths_spec:
  assumes "schedule order (length paths)"
  shows "check_paths_in_order order os paths m = map (check_path os m) paths"
  using assms
  by (intro nth_equalityI) (simp_all add: check_paths_in_order_def schedule_def check_paths_slots)

lemma check_paths_fair: "fair os \<Longrightarrow> check_paths_concurrently os paths m = map (check_path os m) paths"
  by (simp add: check_paths_concurrently_def fair_def check_paths_spec)

subsection \<open>What Expand computes\<close>

lemma concat_fill_literal: "var_names ps = [] \<Longrightarrow> concat (map (fill \<sigma>) ps) = concat (map (fill \<tau>) ps)"
  by (induction ps) (auto simp: var_names_def split: piece.splits)

lemma name_char_not_dollar: "name_char c \<Longrightarrow> c \<noteq> CHR ''$''"
  by (auto simp: name_char_def name_start_def)

lemma fill_unparse: "concat (map (fill (Cons (CHR ''$''))) (pieces p)) = p"
  by (induction p rule: pieces.induct) auto

lemma instantiate_literal:
  assumes "placeholder_names p = []"
  shows "instantiate \<sigma> p = p"
proof -
  have "set (var_names (pieces p)) = {}"
    using assms set_dedup_onto [of "[]" "var_names (pieces p)"]
    by (simp add: placeholder_names_def)
  then have "var_names (pieces p) = []" by simp
  from concat_fill_literal [OF this, of \<sigma> "Cons (CHR ''$'')"] show ?thesis
    by (simp add: instantiate_def fill_unparse)
qed

lemma fill_cong:
  "(\<And>n. n \<in> set (var_names ps) \<Longrightarrow> \<sigma> n = \<tau> n) \<Longrightarrow>
     concat (map (fill \<sigma>) ps) = concat (map (fill \<tau>) ps)"
proof (induction ps)
  case (Cons x ps)
  then show ?case by (cases x) (auto simp: var_names_def)
qed simp

lemma set_placeholder_names [simp]: "set (placeholder_names p) = set (var_names (pieces p))"
  by (simp add: placeholder_names_def)

lemma distinct_placeholder_names [simp]: "distinct (placeholder_names p)"
  by (simp add: placeholder_names_def)

lemma instantiate_cong:
  "(\<And>n. n \<in> set (placeholder_names p) \<Longrightarrow> \<sigma> n = \<tau> n) \<Longrightarrow> instantiate \<sigma> p = instantiate \<tau> p"
  unfolding instantiate_def by (rule fill_cong) simp

lemma foldl_cartesian:
  "set (foldl cartesian_step acc ls) =
     {a @ c | a c. a \<in> set acc \<and> list_all2 (\<lambda>v vs. v \<in> set vs) c ls}"
proof (induction ls arbitrary: acc)
  case (Cons vs ls)
  have "set (foldl cartesian_step acc (vs # ls)) =
      {a @ c | a c. a \<in> set (cartesian_step acc vs) \<and> list_all2 (\<lambda>v vs. v \<in> set vs) c ls}"
    using Cons.IH by (simp del: cartesian_step.simps)
  also have "\<dots> = {a @ c | a c. a \<in> set acc \<and> list_all2 (\<lambda>v vs. v \<in> set vs) c (vs # ls)}"
  proof (intro equalityI subsetI)
    fix r assume "r \<in> {a @ c | a c. a \<in> set (cartesian_step acc vs) \<and>
        list_all2 (\<lambda>v vs. v \<in> set vs) c ls}"
    then obtain b v c where "b \<in> set acc" "v \<in> set vs" "r = b @ (v # c)"
      and "list_all2 (\<lambda>v vs. v \<in> set vs) (v # c) (vs # ls)" by auto
    then show "r \<in> {a @ c | a c. a \<in> set acc \<and> list_all2 (\<lambda>v vs. v \<in> set vs) c (vs # ls)}"
      by blast
  next
    fix r assume "r \<in> {a @ c | a c. a \<in> set acc \<and> list_all2 (\<lambda>v vs. v \<in> set vs) c (vs # ls)}"
    then obtain b v c where "b \<in> set acc" "v \<in> set vs" "r = (b @ [v]) @ c"
      and c: "list_all2 (\<lambda>v vs. v \<in> set vs) c ls" by (auto simp: list_all2_Cons2)
    moreover from calculation have "b @ [v] \<in> set (cartesian_step acc vs)" by auto
    ultimately show "r \<in> {a @ c | a c. a \<in> set (cartesian_step acc vs) \<and>
        list_all2 (\<lambda>v vs. v \<in> set vs) c ls}" by blast
  qed
  finally show ?case .
qed simp

lemma set_cartesian_product:
  "set (cartesian_product ls) = {c. list_all2 (\<lambda>v vs. v \<in> set vs) c ls}"
  by (simp add: cartesian_product_def foldl_cartesian)

lemma cartesian_product_empty: "[] \<in> set ls \<Longrightarrow> set (cartesian_product ls) = {}"
  by (auto simp: set_cartesian_product list_all2_conv_all_nth in_set_conv_nth)

lemma read_string_zip:
  "distinct names \<Longrightarrow> length combo = length names \<Longrightarrow> i < length names \<Longrightarrow>
     read_string (zip names combo) (names ! i) = combo ! i"
  by (simp add: read_string_def map_of_zip_nth)

lemma expand_empty_values:
  "expand p vars =
     (let names = placeholder_names p
      in if names = [] then [p]
         else map (substitute p names) (cartesian_product (map (safe_values vars) names)))"
  using cartesian_product_empty [of "map (safe_values vars) (placeholder_names p)"]
  by (auto simp: expand_def Let_def)

lemma set_expand:
  "set (expand p vars) =
     {instantiate \<sigma> p | \<sigma>. \<forall>n\<in>set (placeholder_names p). \<sigma> n \<in> set (safe_values vars n)}"
  (is "_ = ?R")
proof (cases "placeholder_names p = []")
  case True
  then show ?thesis by (auto simp: expand_def instantiate_literal)
next
  case False
  let ?names = "placeholder_names p"
  have E: "set (expand p vars) = substitute p ?names `
      {c. list_all2 (\<lambda>v vs. v \<in> set vs) c (map (safe_values vars) ?names)}"
    using False by (simp add: expand_empty_values Let_def set_cartesian_product)
  show ?thesis
  proof (intro equalityI subsetI)
    fix r assume "r \<in> set (expand p vars)"
    then obtain c where c: "list_all2 (\<lambda>v vs. v \<in> set vs) c (map (safe_values vars) ?names)"
      and r: "r = substitute p ?names c" unfolding E by auto
    from c have len: "length c = length ?names" by (auto dest: list_all2_lengthD)
    have "\<forall>n\<in>set ?names. read_string (zip ?names c) n \<in> set (safe_values vars n)"
      using c len by (auto simp: list_all2_conv_all_nth in_set_conv_nth read_string_zip
          simp del: set_placeholder_names)
    with r show "r \<in> ?R" by (auto simp: substitute_def)
  next
    fix r assume "r \<in> ?R"
    then obtain \<sigma> where \<sigma>: "\<forall>n\<in>set ?names. \<sigma> n \<in> set (safe_values vars n)"
      and r: "r = instantiate \<sigma> p" by auto
    have "list_all2 (\<lambda>v vs. v \<in> set vs) (map \<sigma> ?names) (map (safe_values vars) ?names)"
      using \<sigma> by (auto simp: list_all2_conv_all_nth simp del: set_placeholder_names)
    moreover have "r = substitute p ?names (map \<sigma> ?names)"
      unfolding r substitute_def
      by (rule instantiate_cong)
        (auto simp: in_set_conv_nth read_string_zip simp del: set_placeholder_names)
    ultimately show "r \<in> set (expand p vars)" unfolding E by blast
  qed
qed

subsection \<open>Expansion keeps the path shape\<close>

lemma takeWhile_stop: "\<not> P x \<Longrightarrow> takeWhile P (a @ x # b) = takeWhile P a"
  by (induction a) auto

lemma dropWhile_stop: "\<not> P x \<Longrightarrow> dropWhile P (a @ x # b) = dropWhile P a @ x # b"
  by (induction a) auto

lemma name_char_slash [simp]: "\<not> name_char slash" "\<not> name_start slash"
  by (simp_all add: name_char_def name_start_def)

lemma pieces_slash: "pieces (slash # b) = Lit slash # pieces b"
  by (cases b) auto

lemma pieces_append_slash: "pieces (a @ slash # b) = pieces a @ Lit slash # pieces b"
  by (induction a rule: pieces.induct) (auto simp: pieces_slash takeWhile_stop dropWhile_stop)

lemma instantiate_append_slash:
  "instantiate \<sigma> (a @ slash # b) = instantiate \<sigma> a @ slash # instantiate \<sigma> b"
  by (simp add: instantiate_def pieces_append_slash)

lemma placeholder_names_append_slash:
  "set (placeholder_names (a @ slash # b)) = set (placeholder_names a) \<union> set (placeholder_names b)"
  by (auto simp: pieces_append_slash var_names_def)

lemma pieces_Lit: "Lit c \<in> set (pieces p) \<Longrightarrow> c \<in> set p"
  by (induction p rule: pieces.induct) (auto split: if_splits dest: set_dropWhileD)

lemma set_instantiate:
  "c \<in> set (instantiate \<sigma> p) \<Longrightarrow> c \<in> set p \<or> (\<exists>n. c \<in> set (\<sigma> n))"
proof -
  assume "c \<in> set (instantiate \<sigma> p)"
  then obtain x where x: "x \<in> set (pieces p)" "c \<in> set (fill \<sigma> x)"
    by (auto simp: instantiate_def)
  show ?thesis
  proof (cases x)
    case (Lit d)
    with x show ?thesis using pieces_Lit [of d p] by simp
  next
    case (Var n)
    with x show ?thesis by auto
  qed
qed

lemma split_instantiate:
  assumes "\<And>n. slash \<notin> set (\<sigma> n)"
  shows "split_on slash (instantiate \<sigma> p) = map (instantiate \<sigma>) (split_on slash p)"
proof -
  have "split_on slash (instantiate \<sigma> (join [slash] segs)) = map (instantiate \<sigma>) segs"
    if "segs \<noteq> []" "\<forall>s\<in>set segs. slash \<notin> set s" for segs
    using that
  proof (induction segs)
    case (Cons s segs)
    then have s: "split_on slash (instantiate \<sigma> s) = [instantiate \<sigma> s]"
      using assms by (intro split_on_single) (auto dest: set_instantiate)
    show ?case
    proof (cases "segs = []")
      case False
      with Cons s show ?thesis
        by (simp add: join_Cons instantiate_append_slash split_on_append_sep)
    qed (simp add: s)
  qed simp
  from this [of "split_on slash p"] show ?thesis
    using split_on_no_sep by (simp add: join_split_on)
qed

lemma safe_value_no_slash: "is_safe_var_value v \<Longrightarrow> slash \<notin> set v"
proof
  assume safe: "is_safe_var_value v" and "slash \<in> set v"
  then have "\<exists>c\<in>set v. byte c = (0x2F :: nat)" by (intro bexI [of _ slash]) simp_all
  then have "0x2F \<in> set (runes v)" using ascii_in_runes [of "0x2F" v] by simp
  with safe show False by (auto simp: is_safe_var_value_def list_all_iff)
qed

lemma expandE:
  assumes "r \<in> set (expand p vars)"
  obtains \<sigma> where "r = instantiate \<sigma> p" and "\<And>n. slash \<notin> set (\<sigma> n)"
    and "\<And>n. n \<in> set (placeholder_names p) \<Longrightarrow> \<sigma> n \<in> set (safe_values vars n)"
proof -
  obtain \<sigma> where r: "r = instantiate \<sigma> p"
    and \<sigma>: "\<forall>n\<in>set (placeholder_names p). \<sigma> n \<in> set (safe_values vars n)"
    using assms by (auto simp: set_expand)
  let ?\<tau> = "\<lambda>n. if n \<in> set (placeholder_names p) then \<sigma> n else []"
  show ?thesis
  proof (rule that [of ?\<tau>])
    show "r = instantiate ?\<tau> p" unfolding r by (rule instantiate_cong) simp
    show "slash \<notin> set (?\<tau> n)" for n
      using \<sigma> by (auto simp: safe_values_def dest!: safe_value_no_slash)
    show "?\<tau> n \<in> set (safe_values vars n)" if "n \<in> set (placeholder_names p)" for n
      using \<sigma> that by simp
  qed
qed

lemma expand_split:
  assumes "r \<in> set (expand p vars)"
  obtains \<sigma> where "split_on slash r = map (instantiate \<sigma>) (split_on slash p)"
proof -
  from assms obtain \<sigma> where "r = instantiate \<sigma> p" "\<And>n. slash \<notin> set (\<sigma> n)"
    by (elim expandE) blast
  then have "split_on slash r = map (instantiate \<sigma>) (split_on slash p)"
    by (simp add: split_instantiate)
  then show ?thesis by (rule that)
qed

lemma instantiate_is_abs: "is_abs p \<Longrightarrow> is_abs (instantiate \<sigma> p)"
  using pieces_slash [of "tl p"]
  by (cases p) (auto simp: is_abs_def instantiate_def)

subsection \<open>What a Matcher accepts\<close>

lemma last_join:
  "cs \<noteq> [] \<Longrightarrow> last cs \<noteq> [] \<Longrightarrow> join sep cs \<noteq> [] \<and> last (join sep cs) = last (last cs)"
proof (induction cs)
  case (Cons c cs)
  then show ?case by (cases "cs = []") (simp_all add: join_Cons)
qed simp

lemma proper_last: "proper_comp c \<Longrightarrow> c \<noteq> [] \<and> last c \<noteq> slash"
  by (metis last_in_set proper_comp_def)

lemma normalize_prefix_rooted:
  assumes "is_abs p"
  shows "normalize_prefix p = clean p"
proof (cases "clean_comps p = []")
  case False
  have "proper_comp (last (clean_comps p))"
    using False clean_comps_proper [of p] by (auto simp: list_all_iff)
  then have "last (abs_path (clean_comps p)) \<noteq> slash"
    using False proper_last last_join [of "clean_comps p" "''/''"] by (simp add: abs_path_def)
  then show ?thesis
    using assms by (auto simp: normalize_prefix_def clean_rooted Let_def trim_suffix_noop abs_path_def)
qed (use assms in \<open>simp add: normalize_prefix_def clean_rooted abs_path_def\<close>)

lemma clean_step_unrooted:
  "\<forall>c\<in>set st. c \<noteq> [] \<and> slash \<notin> set c \<Longrightarrow> slash \<notin> set c \<Longrightarrow>
     \<forall>c\<in>set (clean_step r c st). c \<noteq> [] \<and> slash \<notin> set c"
  by (auto simp: clean_step.simps split: list.splits)

lemma clean_stack_unrooted:
  "\<forall>c\<in>set st. c \<noteq> [] \<and> slash \<notin> set c \<Longrightarrow> \<forall>c\<in>set cs. slash \<notin> set c \<Longrightarrow>
     \<forall>c\<in>set (clean_stack r cs st). c \<noteq> [] \<and> slash \<notin> set c"
  unfolding clean_stack_def
proof (induction cs arbitrary: st)
  case (Cons a cs)
  have "\<forall>c\<in>set (clean_step r a st). c \<noteq> [] \<and> slash \<notin> set c"
    by (rule clean_step_unrooted) (use Cons.prems in simp_all)
  with Cons.IH [of "clean_step r a st"] Cons.prems(2) show ?case by simp
qed simp

lemma hd_join: "cs \<noteq> [] \<Longrightarrow> hd cs \<noteq> [] \<Longrightarrow> join sep cs \<noteq> [] \<and> hd (join sep cs) = hd (hd cs)"
  by (cases cs; cases "tl cs") auto

lemma clean_unrooted:
  assumes "\<not> is_abs p"
  shows "clean p \<noteq> [] \<and> hd (clean p) \<noteq> slash"
proof (cases "p = [] \<or> clean_stack False (split_on slash p) [] = []")
  case True
  then show ?thesis using assms by (auto simp: clean_def)
next
  case False
  let ?out = "rev (clean_stack False (split_on slash p) [])"
  have all: "\<forall>c\<in>set ?out. c \<noteq> [] \<and> slash \<notin> set c"
    using clean_stack_unrooted [of "[]" "split_on slash p" False] split_on_no_sep by auto
  have ne: "?out \<noteq> []" using False by simp
  then have "hd ?out \<in> set ?out" by (rule hd_in_set)
  with all have "hd ?out \<noteq> []" "slash \<notin> set (hd ?out)" by blast+
  moreover from this have "hd (hd ?out) \<noteq> slash" by (metis hd_in_set)
  ultimately have "hd ?out \<noteq> []" "hd (hd ?out) \<noteq> slash" by blast+
  then show ?thesis using hd_join [of ?out "''/''"] ne False assms by (auto simp: clean_def)
qed

lemma normalize_prefix_unrooted:
  assumes "\<not> is_abs p"
  shows "normalize_prefix p \<noteq> [] \<and> hd (normalize_prefix p) \<noteq> slash"
proof (cases "has_suffix (clean p) ''/''")
  case True
  then obtain d where "clean p = d @ ''/''"
    by (auto simp: has_suffix_def has_prefix_iff prefix_def)
  then show ?thesis
    using clean_unrooted [OF assms] True
    by (cases d) (auto simp: normalize_prefix_def Let_def trim_suffix_def)
next
  case False
  then show ?thesis
    using clean_unrooted [OF assms] by (auto simp: normalize_prefix_def Let_def trim_suffix_def)
qed

lemma abs_path_Nil [simp]: "abs_path [] = ''/''"
  by (simp add: abs_path_def)

lemma abs_path_eq_root: "list_all proper_comp cs \<Longrightarrow> abs_path cs = ''/'' \<longleftrightarrow> cs = []"
  using abs_path_inject [of cs "[]"] by simp

lemma prefix_root_abs_path: "prefix ''/'' (abs_path cs)"
  by (simp add: abs_path_def)

lemma allowed_one_iff:
  assumes cs: "list_all proper_comp cs"
  shows "(abs_path cs = normalize_prefix q \<or>
          has_prefix (abs_path cs)
            (if normalize_prefix q = ''/'' then ''/'' else normalize_prefix q @ ''/'')) \<longleftrightarrow>
         is_abs q \<and> prefix (clean_comps q) cs"
proof (cases "is_abs q")
  case True
  let ?qs = "clean_comps q"
  have n: "normalize_prefix q = abs_path ?qs" and qs: "list_all proper_comp ?qs"
    using True by (simp_all add: normalize_prefix_rooted clean_rooted clean_comps_proper)
  show ?thesis
  proof (cases "?qs = []")
    case False
    then have "abs_path ?qs \<noteq> ''/''" using qs abs_path_eq_root by blast
    then show ?thesis
      using True False prefix_boundary_abs_path [OF qs False cs] abs_path_inject [OF cs qs]
      by (auto simp: n has_prefix_iff strict_prefix_def)
  qed (use True n in \<open>simp add: has_prefix_iff prefix_root_abs_path\<close>)
next
  case False
  then have "normalize_prefix q \<noteq> []" "hd (normalize_prefix q) \<noteq> slash"
    using normalize_prefix_unrooted by auto
  then show ?thesis
    using False by (cases "normalize_prefix q") (auto simp: has_prefix_iff abs_path_def)
qed

lemma allowed_new_matcher:
  "list_all proper_comp cs \<Longrightarrow>
     allowed (new_matcher qs) (abs_path cs) \<longleftrightarrow>
     (\<exists>q\<in>set qs. is_abs q \<and> prefix (clean_comps q) cs)"
  using allowed_one_iff by (auto simp: allowed_def new_matcher_def list_ex_iff)

lemma allowed_append:
  "allowed (new_matcher (as @ bs)) p \<longleftrightarrow> allowed (new_matcher as) p \<or> allowed (new_matcher bs) p"
  by (simp add: allowed_def new_matcher_def)

lemma allowed_Nil [simp]: "\<not> allowed (new_matcher []) p"
  by (simp add: allowed_def new_matcher_def)

text \<open>\<open>p\<close> is the directory \<open>root\<close> or below it, component by component.\<close>

definition under :: "string \<Rightarrow> string \<Rightarrow> bool" where
  "under root p \<longleftrightarrow> is_abs root \<and> prefix (clean_comps root) (components p)"

lemma allowed_canonical:
  "canonical p \<Longrightarrow> allowed (new_matcher qs) p \<longleftrightarrow> (\<exists>q\<in>set qs. under q p)"
  by (elim canonicalE) (simp add: allowed_new_matcher under_def components_abs_path)

lemma check_path_under:
  "check_path os (new_matcher qs) path \<longleftrightarrow>
     (\<exists>c. canonicalize os path = Inr c \<and> (\<exists>q\<in>set qs. under q c))"
  by (auto simp: check_path_def allowed_canonical canonicalize_canonical split: sum.splits)

subsection \<open>Staying below a directory\<close>

lemma clean_stack_grows:
  "''..'' \<notin> set cs \<Longrightarrow> \<exists>new. clean_stack True cs st = new @ st"
proof (induction cs arbitrary: st)
  case (Cons c cs)
  then obtain new where "clean_stack True cs (clean_step True c st) = new @ clean_step True c st"
    by auto
  moreover have "clean_step True c st = st \<or> clean_step True c st = [c] @ st"
    using Cons.prems by (auto simp: clean_step.simps)
  ultimately show ?case by (auto simp: clean_stack_def)
qed (simp add: clean_stack_def)

lemma clean_comps_below:
  assumes "''..'' \<notin> set (split_on slash t)"
  shows "prefix (clean_comps d) (clean_comps (d @ slash # t))"
proof -
  obtain new where "clean_stack True (split_on slash t) (clean_stack True (split_on slash d) []) =
      new @ clean_stack True (split_on slash d) []"
    using clean_stack_grows [OF assms] by blast
  then show ?thesis
    by (simp add: clean_comps_def split_on_append_sep clean_stack_append)
qed

subsection \<open>Places\<close>

text \<open>Where a path leads, ordered by "is below": the root is the least place.\<close>

datatype place = Place (place_comps: "string list")

instantiation place :: order_bot
begin

definition less_eq_place :: "place \<Rightarrow> place \<Rightarrow> bool" where
  "a \<le> b \<longleftrightarrow> prefix (place_comps a) (place_comps b)"

definition less_place :: "place \<Rightarrow> place \<Rightarrow> bool" where
  "a < b \<longleftrightarrow> strict_prefix (place_comps a) (place_comps b)"

definition bot_place :: place where
  "bot_place = Place []"

instance
proof
  fix a b c :: place
  show "a < b \<longleftrightarrow> a \<le> b \<and> \<not> b \<le> a"
    unfolding less_eq_place_def less_place_def by (rule prefix_order.less_le_not_le)
  show "a \<le> a" by (simp add: less_eq_place_def)
  show "a \<le> b \<Longrightarrow> b \<le> c \<Longrightarrow> a \<le> c"
    unfolding less_eq_place_def by (rule prefix_order.trans)
  show "a \<le> b \<Longrightarrow> b \<le> a \<Longrightarrow> a = b"
    unfolding less_eq_place_def by (rule place.expand) (rule prefix_order.antisym)
  show "bot \<le> a" by (simp add: less_eq_place_def bot_place_def)
qed

end

abbreviation place_of :: "string \<Rightarrow> place" where
  "place_of p \<equiv> Place (components p)"

lemma under_place: "under root p \<longleftrightarrow> is_abs root \<and> Place (clean_comps root) \<le> place_of p"
  by (simp add: under_def less_eq_place_def)

text \<open>Everything below an allowed path is allowed, and \<open>/\<close> allows everything.\<close>

lemma allowed_below:
  assumes "canonical p" and "canonical q" and "place_of p \<le> place_of q" and "allowed (new_matcher rs) p"
  shows "allowed (new_matcher rs) q"
  using assms by (auto simp: allowed_canonical under_place intro: order.trans)

lemma root_allows:
  assumes "canonical q" and "''/'' \<in> set rs"
  shows "allowed (new_matcher rs) q"
proof -
  have "clean_comps ''/'' = []" "is_abs ''/''" by code_simp+
  then have "under ''/'' q" by (simp add: under_place less_eq_place_def)
  with assms show ?thesis by (auto simp: allowed_canonical)
qed

section \<open>Properties of the allowlist\<close>

text \<open>C10. The contract of \<open>Matcher.Allowed\<close>: a canonical path is accepted exactly when some
  configured prefix is absolute and its normalised components are a leading part of the
  path's components, so \<open>/data/app1\<close> never matches \<open>/data/app12\<close>.\<close>

theorem matcher_contract:
  assumes "canonical p"
  shows "allowed (new_matcher qs) p \<longleftrightarrow>
    (\<exists>q\<in>set qs. is_abs q \<and> (\<exists>rest. components p = clean_comps q @ rest))"
  using allowed_canonical [OF assms, of qs] by (simp add: under_def prefix_def)

lemma matcher_contract_witness:
  "allowed (new_matcher [''/data/app1/'']) ''/data/app1/x'' \<and>
   \<not> (\<exists>rest. components ''/data/app12'' = clean_comps ''/data/app1/'' @ rest)"
proof
  have c: "canonical ''/data/app1/x''" "canonical ''/data/app12''" by code_simp+
  have "components ''/data/app1/x'' = clean_comps ''/data/app1/'' @ [''x'']" by code_simp
  moreover have a: "is_abs ''/data/app1/''" by code_simp
  ultimately show "allowed (new_matcher [''/data/app1/'']) ''/data/app1/x''"
    unfolding matcher_contract [OF c(1)] by auto
  have "\<not> allowed (new_matcher [''/data/app1/'']) ''/data/app12''" by code_simp
  with a show "\<not> (\<exists>rest. components ''/data/app12'' = clean_comps ''/data/app1/'' @ rest)"
    unfolding matcher_contract [OF c(2)] by auto
qed

text \<open>C11. \<open>Expand\<close> yields exactly the instances of the pattern under the assignments that
  give every placeholder one of its safe values; in particular none when a placeholder has
  no safe value, and the pattern itself when it has no placeholder.\<close>

theorem expand_exact:
  "r \<in> set (expand p vars) \<longleftrightarrow>
     (\<exists>\<sigma>. r = instantiate \<sigma> p \<and>
       (\<forall>n\<in>set (placeholder_names p). \<sigma> n \<in> set (read_list vars n) \<and> is_safe_var_value (\<sigma> n)))"
  by (auto simp: set_expand safe_values_def)

lemma expand_exact_witness:
  "''/home/alice/dev'' \<in> set (expand ''/home/$USER/$GROUP''
     [''USER'' \<mapsto> [''a/b'', ''alice''], ''GROUP'' \<mapsto> [''dev'']])"
  unfolding expand_exact
  by (rule exI [of _ "\<lambda>n. if n = ''USER'' then ''alice'' else ''dev''"]) code_simp

text \<open>C12. Expansion never adds or removes a path segment: segment by segment, the result is
  an instance of the pattern, whatever the datasources answered.\<close>

theorem expand_keeps_segments:
  assumes "r \<in> set (expand p vars)"
  shows "length (split_on slash r) = length (split_on slash p) \<and>
    (\<exists>\<sigma>. \<forall>i<length (split_on slash p). split_on slash r ! i = instantiate \<sigma> (split_on slash p ! i))"
proof -
  from assms obtain \<sigma> where "split_on slash r = map (instantiate \<sigma>) (split_on slash p)"
    by (rule expand_split)
  then show ?thesis by auto
qed

lemma expand_keeps_segments_witness:
  "length (split_on slash ''/home/alice'') = length (split_on slash ''/home/$USER'')"
proof -
  have "''/home/alice'' \<in> set (expand ''/home/$USER'' [''USER'' \<mapsto> [''x/../..'', ''alice'']])" by code_simp
  from expand_keeps_segments [OF this] show ?thesis by blast
qed

text \<open>An allowlist entry cannot reach outside the literal directory it starts with,
  unless one of the expanded segments after it is \<open>..\<close>: with none, everything an
  expansion matches is below that directory.\<close>

theorem expansion_stays_below:
  assumes "r \<in> set (expand (d @ slash # t) vars)" and "is_abs d" and "placeholder_names d = []"
    and "''..'' \<notin> set (drop (length (split_on slash d)) (split_on slash r))"
    and "canonical p" and "allowed (new_matcher [r]) p"
  shows "under d p"
proof -
  from assms(1) obtain \<sigma> where r: "r = instantiate \<sigma> (d @ slash # t)" and ns: "\<And>n. slash \<notin> set (\<sigma> n)"
    by (elim expandE) blast
  then have r: "r = d @ slash # instantiate \<sigma> t"
    using instantiate_literal [OF assms(3)] by (simp add: instantiate_append_slash)
  then have "''..'' \<notin> set (split_on slash (instantiate \<sigma> t))"
    using assms(4) by (simp add: split_on_append_sep)
  then have "prefix (clean_comps d) (clean_comps r)" unfolding r by (rule clean_comps_below)
  moreover have "under r p" using assms(5,6) by (simp add: allowed_canonical)
  ultimately show ?thesis using assms(2) by (auto simp: under_def intro: prefix_order.trans)
qed

lemma expansion_stays_below_witness: "under ''/home'' ''/home/alice/x''"
proof (rule expansion_stays_below [of "''/home/alice''" _ "''$USER''" "[''USER'' \<mapsto> [''alice'']]"])
  show "''/home/alice'' \<in> set (expand (''/home'' @ slash # ''$USER'') [''USER'' \<mapsto> [''alice'']])"
    by code_simp
qed code_simp+

lemma pieces_name:
  "name_start h \<Longrightarrow> list_all name_char t \<Longrightarrow> pieces (CHR ''$'' # h # t) = [Var (h # t)]"
  by (simp add: list_all_iff takeWhile_eq_all_conv [THEN iffD2] dropWhile_eq_Nil_conv [THEN iffD2])

lemma clean_comps_up:
  assumes "proper_comp c"
  shows "clean_comps (d @ slash # c @ ''/..'') = clean_comps d"
proof -
  have "split_on slash (d @ slash # c @ ''/..'') = split_on slash d @ [c, ''..'']"
    using assms split_on_append_sep [of slash c "''..''"]
    by (simp add: split_on_append_sep proper_comp_def split_on_single)
  then show ?thesis
    using assms
    by (simp add: clean_comps_def clean_stack_append)
      (auto simp: clean_stack_def clean_step.simps proper_comp_def)
qed

text \<open>C13. The exception is real: \<open>..\<close> passes the safety check, so a datasource that
  answers it for a placeholder turns the entry \<open>d/c/$NAME\<close> into one for all of \<open>d\<close>
  (\<open>/home/$USER\<close> becomes the root directory).\<close>

theorem dotdot_value_widens:
  assumes "is_abs (d @ slash # c)" and "placeholder_names (d @ slash # c) = []" and "proper_comp c"
    and "name_start h" and "list_all name_char t"
    and "''..'' \<in> set (read_list vars (h # t))"
    and "canonical p" and "prefix (clean_comps d) (components p)"
  shows "\<exists>r\<in>set (expand (d @ slash # c @ slash # CHR ''$'' # h # t) vars). allowed (new_matcher [r]) p"
proof -
  let ?pat = "(d @ slash # c) @ slash # CHR ''$'' # h # t"
  let ?r = "d @ slash # c @ ''/..''"
  let ?\<sigma> = "\<lambda>_ :: string. ''..''"
  have "is_safe_var_value ''..''" by code_simp
  moreover have "set (placeholder_names ?pat) = {h # t}"
  proof -
    have "set (placeholder_names (CHR ''$'' # h # t)) = {h # t}"
      by (simp only: set_placeholder_names pieces_name [OF assms(4,5)]) (simp add: var_names_def)
    moreover have "set (placeholder_names (d @ slash # c)) = {}" by (simp only: assms(2) list.set)
    ultimately show ?thesis by (simp only: placeholder_names_append_slash) simp
  qed
  ultimately have safe: "\<forall>n\<in>set (placeholder_names ?pat). ?\<sigma> n \<in> set (safe_values vars n)"
    using assms(6) by (simp only: safe_values_def set_filter) simp
  have "instantiate ?\<sigma> (CHR ''$'' # h # t) = ''..''"
    by (simp only: instantiate_def pieces_name [OF assms(4,5)]) simp
  then have "?r = instantiate ?\<sigma> ?pat"
    by (simp only: instantiate_append_slash [of ?\<sigma> "d @ slash # c"] instantiate_literal [OF assms(2)]) simp
  with safe have "?r \<in> set (expand ?pat vars)" unfolding set_expand by blast
  moreover have "under ?r p"
    using assms(1,8) clean_comps_up [OF assms(3), of d] by (cases d) (simp_all add: under_def is_abs_def)
  ultimately show ?thesis using assms(7) by (auto simp: allowed_canonical intro!: bexI [of _ ?r])
qed

lemma dotdot_value_widens_witness:
  "\<exists>r\<in>set (expand ''/home/$USER'' [''USER'' \<mapsto> [''..'']]). allowed (new_matcher [r]) ''/etc/shadow''"
proof -
  have "\<exists>r\<in>set (expand ([] @ slash # ''home'' @ slash # CHR ''$'' # CHR ''U'' # ''SER'') [''USER'' \<mapsto> [''..'']]).
      allowed (new_matcher [r]) ''/etc/shadow''"
    by (rule dotdot_value_widens) code_simp+
  then show ?thesis by simp
qed

text \<open>Whatever the file system says, a path that \<open>Canonicalize\<close> accepts comes out
  absolute, without \<open>.\<close>, \<open>..\<close> or empty components, unchanged by further normalisation,
  and the request contained no control character.\<close>

theorem canonicalize_result:
  assumes "canonicalize os path = Inr c"
  shows "c = abs_path (components c) \<and> list_all proper_comp (components c) \<and> clean c = c \<and>
    \<not> has_control path"
proof -
  have "canonical c" using assms by (rule canonicalize_canonical)
  then obtain cs where "list_all proper_comp cs" "c = abs_path cs" by (rule canonicalE)
  then show ?thesis
    using assms canonicalize_control [of path os]
    by (auto simp: components_abs_path clean_abs_path)
qed

text \<open>A file system of directories only, for the instances below.\<close>

definition dirs_os :: os_env where
  "dirs_os =
     \<lparr>os_getwd = Inr ''/srv'', os_lstat = (\<lambda>_. Inr Directory), os_readlink = (\<lambda>_. Inl ''not a link''),
      os_schedule = (\<lambda>n. [0..<n])\<rparr>"

lemma canonicalize_result_witness:
  "canonicalize dirs_os ''a//b/../c/.'' = Inr ''/srv/a/c'' \<and> clean ''/srv/a/c'' = ''/srv/a/c''"
proof -
  have "canonicalize dirs_os ''a//b/../c/.'' = Inr ''/srv/a/c''" by code_simp
  with canonicalize_result [OF this] show ?thesis by blast
qed

text \<open>The result of checking many paths concurrently does not depend on the order in
  which the goroutines run: slot \<open>i\<close> is the check of path \<open>i\<close>.\<close>

theorem checks_order_irrelevant:
  assumes "schedule order (length paths)"
  shows "check_paths_in_order order os paths m = map (check_path os m) paths"
  using assms by (rule check_paths_spec)

lemma checks_order_irrelevant_witness:
  "check_paths_in_order [1, 0] dirs_os [''/a'', ''/b''] (new_matcher [''/b'']) = [False, True]"
proof -
  have "schedule [1, 0] (length [''/a'', ''/b''])" by (auto simp: schedule_def)
  moreover have "map (check_path dirs_os (new_matcher [''/b''])) [''/a'', ''/b''] = [False, True]"
    by code_simp
  ultimately show ?thesis using checks_order_irrelevant by metis
qed

end
