(* ===== verification/Rules.thy ===== *)
theory Rules
  imports Config_Types Docker_Api Docker_Shapes Allowlist
begin

text \<open>
  The authorization rules and the chain that runs them (\<open>internal/rules\<close>:
  \<open>decision.go\<close>, \<open>admin.go\<close>, \<open>reqvars.go\<close> and the rules of \<open>mounts.go\<close>). A rule takes
  the request and the shared state (the datasource set every rule points to, and the
  world), and returns an error or a decision with the new state. The locale \<open>rule\<close>
  is the interface \<open>Rule\<close> with the promises its comments make; every built-in rule
  and the chain interpret it.
\<close>

subsection \<open>Decisions\<close>

datatype verdict = Abstain | Allow | Deny

definition verdict_string :: "verdict \<Rightarrow> string" where
  "verdict_string v = (case v of Allow \<Rightarrow> ''allow'' | Deny \<Rightarrow> ''deny'' | Abstain \<Rightarrow> ''abstain'')"

record decision =
  Verdict :: verdict
  Detail :: string
  Msg :: string

definition deny :: "string \<Rightarrow> decision" where
  "deny msg = \<lparr>Verdict = Deny, Detail = msg, Msg = msg\<rparr>"

definition allow :: "string \<Rightarrow> decision" where
  "allow msg = \<lparr>Verdict = Allow, Detail = msg, Msg = msg\<rparr>"

definition abstain :: decision where
  "abstain = \<lparr>Verdict = Abstain, Detail = [], Msg = []\<rparr>"

definition admin_msg :: string where
  "admin_msg = ''admin: all commands allowed''"

definition adminAllow :: "string \<Rightarrow> decision" where
  "adminAllow detail = \<lparr>Verdict = Allow, Detail = detail, Msg = admin_msg\<rparr>"

definition prefixIdentity :: "string \<Rightarrow> string \<Rightarrow> string" where
  "prefixIdentity identity msg = (if identity = [] then msg else identity @ '': '' @ msg)"

definition internalErrorMsg :: string where
  "internalErrorMsg = ''internal error''"

lemma decision_fields [simp, decision_simps]:
  "Verdict (deny m) = Deny" "Msg (deny m) = m" "Detail (deny m) = m"
  "Verdict (allow m) = Allow" "Msg (allow m) = m" "Detail (allow m) = m"
  "Verdict abstain = Abstain" "Msg abstain = []" "Detail abstain = []"
  "Verdict (adminAllow m) = Allow" "Msg (adminAllow m) = admin_msg" "Detail (adminAllow m) = m"
  by (simp_all add: deny_def allow_def abstain_def adminAllow_def)

subsection \<open>Request-derived variables\<close>

type_synonym extractor = "authz_req \<Rightarrow> (string \<times> string) option"

definition IdentityVar :: string where
  "IdentityVar = ''IDENTITY''"

definition extractIdentity :: extractor where
  "extractIdentity req = (if User req \<noteq> [] then Some (IdentityVar, User req) else None)"

definition Register :: "extractor \<Rightarrow> extractor list \<Rightarrow> extractor list" where
  "Register e reg = reg @ [e]"

text \<open>What the package's \<open>init\<close> functions leave in \<open>registry\<close>.\<close>

definition extractors :: "extractor list" where
  "extractors = Register extractIdentity []"

definition Extract :: "authz_req \<Rightarrow> string go_map" where
  "Extract req =
     foldl (\<lambda>vars e. case e req of None \<Rightarrow> vars | Some (name, v) \<Rightarrow> AList.update name v vars)
       [] extractors"

lemma Extract_identity:
  "Extract req = (if User req = [] then [] else [(IdentityVar, User req)])"
  by (simp add: Extract_def extractors_def Register_def extractIdentity_def)

lemma read_Extract [simp]: "read_string (Extract req) identityVar = User req"
  by (simp add: Extract_identity read_string_def IdentityVar_def identityVar_def)

subsection \<open>The rules\<close>

type_synonym ('c, 'b) policy_state = "('c, 'b) ds_set \<times> 'b world"
type_synonym 's rule = "go_ctx \<Rightarrow> authz_req \<Rightarrow> 's \<Rightarrow> decision result \<times> 's"

definition resolveVars ::
  "os_env \<Rightarrow> 'c lru_ops \<Rightarrow> go_ctx \<Rightarrow> authz_req \<Rightarrow> ('c, 'b) policy_state \<Rightarrow>
     (string \<rightharpoonup> string list) \<times> ('c, 'b) policy_state" where
  "resolveVars os ops ctx req st =
     (let vars = Extract req;
          ctx' = WithRequestContext ctx (RequestMethod req) (RequestURI req)
      in set_resolve os ops ctx' vars (fst st) (snd st))"

definition resolveMatcher ::
  "os_env \<Rightarrow> 'c lru_ops \<Rightarrow> go_ctx \<Rightarrow> authz_req \<Rightarrow> string list \<Rightarrow> ('c, 'b) policy_state \<Rightarrow>
     matcher \<times> ('c, 'b) policy_state" where
  "resolveMatcher os ops ctx req patterns st =
     (let (resolved, st') = resolveVars os ops ctx req st
      in (new_matcher (concat (map (\<lambda>pattern. expand pattern resolved) patterns)), st'))"

text \<open>\<open>AdminRule\<close>: \<open>users\<close> and \<open>groups\<close> are sets; a loop over the resolved values stops at
  the first match.\<close>

record admin_rule =
  users :: "string set"
  groups :: "string set"

definition toSet :: "string list \<Rightarrow> string set" where
  "toSet vals = set vals"

definition NewAdminRule :: "string list \<Rightarrow> string list \<Rightarrow> admin_rule" where
  "NewAdminRule us gs = \<lparr>users = toSet us, groups = toSet gs\<rparr>"

definition admin_evaluate ::
  "os_env \<Rightarrow> 'c lru_ops \<Rightarrow> admin_rule \<Rightarrow> ('c, 'b) policy_state rule" where
  "admin_evaluate os ops r ctx req st =
     (if users r = {} \<and> groups r = {} then (Inr abstain, st)
      else
        (let (resolved, st') = resolveVars os ops ctx req st;
             q = quote (print_table (snd st))
         in case find (\<lambda>u. u \<in> users r) (read_list resolved ''USER'') of
              Some u \<Rightarrow> (Inr (adminAllow (''user '' @ q u @ '' matched admin_users'')), st')
            | None \<Rightarrow>
                (case find (\<lambda>g. g \<in> groups r) (read_list resolved ''GROUP'') of
                   Some g \<Rightarrow> (Inr (adminAllow (''group '' @ q g @ '' matched admin_groups'')), st')
                 | None \<Rightarrow> (Inr abstain, st'))))"

text \<open>\<open>MountAllowlistRule\<close> and \<open>VolumeBindMountRule\<close>.\<close>

definition first_denied :: "string list \<Rightarrow> bool list \<Rightarrow> string option" where
  "first_denied paths allowedFor =
     map_option fst (find (\<lambda>(_, ok). \<not> ok) (zip paths allowedFor))"

definition mount_deny_msg :: "string \<Rightarrow> string" where
  "mount_deny_msg path = ''mount path '' @ path @ '' not allowed''"

definition mount_allow_msg :: "string list \<Rightarrow> string" where
  "mount_allow_msg paths = ''mount path(s) '' @ join '', '' paths @ '' allowed''"

record mount_rule =
  mount_patterns :: "string list"

definition NewMountAllowlistRule :: "string list \<Rightarrow> mount_rule" where
  "NewMountAllowlistRule patterns = \<lparr>mount_patterns = patterns\<rparr>"

lemma mount_patterns [simp]: "mount_patterns (NewMountAllowlistRule patterns) = patterns"
  by (simp add: NewMountAllowlistRule_def)

definition mount_evaluate ::
  "os_env \<Rightarrow> 'c lru_ops \<Rightarrow> mount_rule \<Rightarrow> ('c, 'b) policy_state rule" where
  "mount_evaluate os ops r ctx req st =
     (let paths = binds (RequestURI req) (RequestBody req)
      in if paths = [] then (Inr abstain, st)
         else
           (let (m, st') = resolveMatcher os ops ctx req (mount_patterns r) st;
                allowedFor = check_paths_concurrently os paths m
            in case first_denied paths allowedFor of
                 Some path \<Rightarrow> (Inr (deny (mount_deny_msg path)), st')
               | None \<Rightarrow> (Inr (allow (mount_allow_msg paths)), st')))"

definition volume_deny_msg :: "string \<Rightarrow> string" where
  "volume_deny_msg device = ''volume-create bind-mount device '' @ device @ '' not in allowlist''"

definition volume_allow_msg :: "string \<Rightarrow> string" where
  "volume_allow_msg device = ''volume-create bind-mount device '' @ device @ '' allowed''"

record volume_rule =
  volume_patterns :: "string list"

definition NewVolumeBindMountRule :: "string list \<Rightarrow> volume_rule" where
  "NewVolumeBindMountRule patterns = \<lparr>volume_patterns = patterns\<rparr>"

lemma volume_patterns [simp]: "volume_patterns (NewVolumeBindMountRule patterns) = patterns"
  by (simp add: NewVolumeBindMountRule_def)

definition volume_evaluate ::
  "os_env \<Rightarrow> 'c lru_ops \<Rightarrow> volume_rule \<Rightarrow> ('c, 'b) policy_state rule" where
  "volume_evaluate os ops r ctx req st =
     (case volume_bind_device (RequestURI req) (RequestBody req) of
        None \<Rightarrow> (Inr abstain, st)
      | Some device \<Rightarrow>
          (let (m, st') = resolveMatcher os ops ctx req (volume_patterns r) st
           in if check_path os m device then (Inr (allow (volume_allow_msg device)), st')
              else (Inr (deny (volume_deny_msg device)), st')))"

text \<open>The four gates, each a struct with its setting.\<close>

record host_network_rule =
  host_network_setting :: CheckSetting

definition NewHostNetworkRule :: "CheckSetting \<Rightarrow> host_network_rule" where
  "NewHostNetworkRule setting = \<lparr>host_network_setting = setting\<rparr>"

record privileged_rule =
  privileged_setting :: CheckSetting

definition NewPrivilegedRule :: "CheckSetting \<Rightarrow> privileged_rule" where
  "NewPrivilegedRule setting = \<lparr>privileged_setting = setting\<rparr>"

record docker_cp_rule =
  docker_cp_setting :: CheckSetting

definition NewDockerCPRule :: "CheckSetting \<Rightarrow> docker_cp_rule" where
  "NewDockerCPRule setting = \<lparr>docker_cp_setting = setting\<rparr>"

record docker_exec_rule =
  docker_exec_setting :: CheckSetting

definition NewDockerExecRule :: "CheckSetting \<Rightarrow> docker_exec_rule" where
  "NewDockerExecRule setting = \<lparr>docker_exec_setting = setting\<rparr>"

lemma gate_settings [simp]:
  "host_network_setting (NewHostNetworkRule setting) = setting"
  "privileged_setting (NewPrivilegedRule setting) = setting"
  "docker_cp_setting (NewDockerCPRule setting) = setting"
  "docker_exec_setting (NewDockerExecRule setting) = setting"
  by (simp_all add: NewHostNetworkRule_def NewPrivilegedRule_def
    NewDockerCPRule_def NewDockerExecRule_def)

definition host_network_evaluate :: "host_network_rule \<Rightarrow> 's rule" where
  "host_network_evaluate r ctx req st =
     (if network_mode (RequestURI req) (RequestBody req) \<noteq> Some ''host'' then (Inr abstain, st)
      else if host_network_setting r = CheckDeny
      then (Inr (deny ''host networking requested and denied by policy''), st)
      else (Inr (allow ''host networking requested and permitted by policy''), st))"

definition privileged_evaluate :: "privileged_rule \<Rightarrow> 's rule" where
  "privileged_evaluate r ctx req st =
     (if privileged (RequestURI req) (RequestBody req) \<noteq> Some True then (Inr abstain, st)
      else if privileged_setting r = CheckDeny
      then (Inr (deny ''privileged mode requested and denied by policy''), st)
      else (Inr (allow ''privileged mode requested and permitted by policy''), st))"

definition docker_cp_evaluate :: "docker_cp_rule \<Rightarrow> 's rule" where
  "docker_cp_evaluate r ctx req st =
     (if \<not> is_docker_cp (RequestMethod req) (RequestURI req) then (Inr abstain, st)
      else if docker_cp_setting r = CheckDeny then (Inr (deny ''docker cp denied by policy''), st)
      else (Inr (allow ''docker cp permitted by policy''), st))"

definition docker_exec_evaluate :: "docker_exec_rule \<Rightarrow> 's rule" where
  "docker_exec_evaluate r ctx req st =
     (if \<not> is_docker_exec_create (RequestMethod req) (RequestURI req) then (Inr abstain, st)
      else if docker_exec_setting r = CheckDeny then (Inr (deny ''docker exec denied by policy''), st)
      else (Inr (allow ''docker exec permitted by policy''), st))"

subsection \<open>The chain\<close>

fun chain_evaluate :: "'s rule list \<Rightarrow> 's rule" where
  "chain_evaluate [] ctx req st = (Inr abstain, st)"
| "chain_evaluate (r # rs) ctx req st =
     (case r ctx req st of
        (Inl err, st') \<Rightarrow> (Inl err, st')
      | (Inr d, st') \<Rightarrow>
          if Verdict d \<noteq> Abstain then (Inr d, st') else chain_evaluate rs ctx req st')"

definition requests_counter :: event where
  "requests_counter = Metric ''authzmtls.requests'' [] 1"

definition denied_counter :: event where
  "denied_counter = Metric ''authzmtls.denied'' [] 1"

definition eval_failed :: "go_error \<Rightarrow> event" where
  "eval_failed err = Log LevelWarn ''rule evaluation failed'' [(''error'', err)]"

definition denied_log :: "authz_req \<Rightarrow> decision \<Rightarrow> event" where
  "denied_log req d = Log LevelInfo ''denied'' [(''identity'', User req), (''detail'', Detail d)]"

definition allowed_log :: "authz_req \<Rightarrow> decision \<Rightarrow> event" where
  "allowed_log req d = Log LevelDebug ''allowed'' [(''identity'', User req), (''detail'', Detail d)]"

text \<open>What \<open>Decide\<close> answers (allow, msg, err), and what it logs and counts.\<close>

definition decide_answer :: "authz_req \<Rightarrow> decision result \<Rightarrow> bool \<times> string \<times> go_error option" where
  "decide_answer req r =
     (case r of
        Inl _ \<Rightarrow> (False, internalErrorMsg, None)
      | Inr d \<Rightarrow>
          (case Verdict d of
             Deny \<Rightarrow> (False, prefixIdentity (User req) (Msg d), None)
           | Allow \<Rightarrow> (True, Msg d, None)
           | Abstain \<Rightarrow> (True, [], None)))"

definition decide_events :: "authz_req \<Rightarrow> decision result \<Rightarrow> event list" where
  "decide_events req r =
     (case r of
        Inl err \<Rightarrow> [eval_failed err]
      | Inr d \<Rightarrow>
          (case Verdict d of
             Deny \<Rightarrow> [denied_log req d, requests_counter, denied_counter]
           | Allow \<Rightarrow> [allowed_log req d, requests_counter]
           | Abstain \<Rightarrow> []))"

definition chain_decide ::
  "('c, 'b) policy_state rule list \<Rightarrow> (('c, 'b) ds_set, 'b) decider" where
  "chain_decide rs ctx req st =
     (let (r, (s', w')) = chain_evaluate rs ctx req st
      in (decide_answer req r, (s', emit_all (decide_events req r) w')))"

definition NewChain :: "meter \<Rightarrow> 's rule list \<Rightarrow> 's rule list result" where
  "NewChain meter rs =
     (case make_instruments meter [''authzmtls.requests'', ''authzmtls.denied''] of
        Some e \<Rightarrow> Inl e
      | None \<Rightarrow> Inr rs)"

definition builtin_chain ::
  "os_env \<Rightarrow> 'c lru_ops \<Rightarrow> 'r config \<Rightarrow> ('c, 'b) policy_state rule list" where
  "builtin_chain os ops cfg =
     [admin_evaluate os ops (NewAdminRule (AdminUsers cfg) (AdminGroups cfg)),
      mount_evaluate os ops (NewMountAllowlistRule (Allowlist cfg)),
      volume_evaluate os ops (NewVolumeBindMountRule (Allowlist cfg)),
      host_network_evaluate (NewHostNetworkRule (HostNetwork (Checks cfg))),
      privileged_evaluate (NewPrivilegedRule (Privileged (Checks cfg))),
      docker_cp_evaluate (NewDockerCPRule (DockerCP (Checks cfg))),
      docker_exec_evaluate (NewDockerExecRule (DockerExec (Checks cfg)))]"

definition NewBuiltinChain ::
  "meter \<Rightarrow> os_env \<Rightarrow> 'c lru_ops \<Rightarrow> 'r config \<Rightarrow> ('c, 'b) policy_state rule list result" where
  "NewBuiltinChain meter os ops cfg = NewChain meter (builtin_chain os ops cfg)"

lemma NewBuiltinChain_result: "NewBuiltinChain meter os ops cfg = Inr rs \<Longrightarrow> rs = builtin_chain os ops cfg"
  by (simp add: NewBuiltinChain_def NewChain_def split: option.splits)

subsection \<open>The interfaces\<close>

text \<open>
  What \<open>Rule\<close> promises: it never fails (the built-in rules have no failing branch),
  an abstention says nothing, and the message of an active decision is derived from the
  request (\<open>public req\<close>). \<open>okay\<close> is an invariant of the shared state.
\<close>

locale rule =
  fixes evaluate :: "'s rule" and public :: "authz_req \<Rightarrow> string set" and okay :: "'s \<Rightarrow> bool"
  assumes no_error: "is_ok (fst (evaluate ctx req st))"
    and abstain_blank: "fst (evaluate ctx req st) = Inr d \<Longrightarrow> Verdict d = Abstain \<Longrightarrow> d = abstain"
    and public_msg: "fst (evaluate ctx req st) = Inr d \<Longrightarrow> Verdict d \<noteq> Abstain \<Longrightarrow> Msg d \<in> public req"
    and keeps: "okay st \<Longrightarrow> okay (snd (evaluate ctx req st))"
begin

lemma ruleE:
  assumes "evaluate ctx req st = (r, st')"
  obtains d where "r = Inr d" and "d = abstain \<or> Verdict d \<noteq> Abstain \<and> Msg d \<in> public req"
  using assms no_error [of ctx req st] abstain_blank [of ctx req st] public_msg [of ctx req st]
  by (cases r) (auto simp: is_ok_iff)

end

locale rule_chain =
  fixes rs :: "'s rule list" and public :: "authz_req \<Rightarrow> string set" and okay :: "'s \<Rightarrow> bool"
  assumes each: "r \<in> set rs \<Longrightarrow> rule r public okay"

text \<open>A chain of rules is a rule, so it can be nested.\<close>

lemma rule_chain_rule:
  assumes "\<And>r. r \<in> set rs \<Longrightarrow> rule r public okay"
  shows "rule (chain_evaluate rs) public okay"
  using assms
proof (induction rs)
  case Nil
  then show ?case by unfold_locales auto
next
  case (Cons r rs)
  have head: "rule r public okay" and tail: "rule (chain_evaluate rs) public okay"
    using Cons by simp_all
  show ?case
  proof unfold_locales
    fix ctx req st
    obtain x st1 where x: "r ctx req st = (x, st1)" by fastforce
    from rule.ruleE [OF head x] obtain d where
      d: "x = Inr d" "d = abstain \<or> Verdict d \<noteq> Abstain \<and> Msg d \<in> public req" by blast
    have st1: "okay st \<Longrightarrow> okay st1" using rule.keeps [OF head, of st ctx req] x by simp
    note step = x d(1)
    show "is_ok (fst (chain_evaluate (r # rs) ctx req st))"
      using step rule.no_error [OF tail] by simp
    show "okay (snd (chain_evaluate (r # rs) ctx req st))" if "okay st"
      using step st1 [OF that] rule.keeps [OF tail] by simp
    fix e assume e: "fst (chain_evaluate (r # rs) ctx req st) = Inr e"
    show "e = abstain" if "Verdict e = Abstain"
      using step e that rule.abstain_blank [OF tail] by (auto split: if_splits)
    show "Msg e \<in> public req" if "Verdict e \<noteq> Abstain"
      using step d(2) e that rule.public_msg [OF tail] by (auto split: if_splits)
  qed
qed

sublocale rule_chain \<subseteq> chain: rule "chain_evaluate rs" public okay
  by (rule rule_chain_rule) (rule each)

text \<open>A chain whose invariant does not look at the world is a decider.\<close>

locale policy_chain = rule_chain rs public okay
  for rs :: "('c, 'b) policy_state rule list" and public okay +
  assumes any_world: "okay (s, w) \<Longrightarrow> okay (s, w')"

definition replies :: "(authz_req \<Rightarrow> string set) \<Rightarrow> authz_req \<Rightarrow> string set" where
  "replies public req =
     {[], internalErrorMsg} \<union> public req \<union> prefixIdentity (User req) ` public req"

context policy_chain
begin

text \<open>The rules' promises about errors and messages hold in every state, so the answer's do.\<close>

lemma answer_public:
  "snd (snd (fst (chain_decide rs ctx req st))) = None \<and>
   fst (snd (fst (chain_decide rs ctx req st))) \<in> replies public req"
proof -
  obtain r s' w' where e: "chain_evaluate rs ctx req st = (r, s', w')" by (metis prod.exhaust)
  from chain.ruleE [OF e] obtain d where
    d: "r = Inr d" "d = abstain \<or> Verdict d \<noteq> Abstain \<and> Msg d \<in> public req" by blast
  show ?thesis
    using d(2) by (auto simp: chain_decide_def e d(1) decide_answer_def replies_def split: verdict.splits)
qed

lemma answer_keeps:
  assumes "okay st"
  shows "okay (snd (chain_decide rs ctx req st))"
proof -
  obtain r s' w' where e: "chain_evaluate rs ctx req st = (r, s', w')" by (metis prod.exhaust)
  show ?thesis
    using any_world [OF chain.keeps [OF assms, of ctx req, unfolded e snd_conv]]
    by (simp add: chain_decide_def e)
qed

end

sublocale policy_chain \<subseteq> answer: decider "chain_decide rs" "replies public" okay
  by unfold_locales (simp_all add: answer_public answer_keeps any_world)

context policy_chain
begin

lemma answer_laws: "decider (chain_decide rs) (replies public) okay"
  by (rule answer.decider_axioms)

end

subsection \<open>The built-in rules keep the promises\<close>

text \<open>Everything a decision message can be, computed from the request alone.\<close>

definition builtin_public :: "authz_req \<Rightarrow> string set" where
  "builtin_public req =
     (let paths = binds (RequestURI req) (RequestBody req);
          device = volume_bind_device (RequestURI req) (RequestBody req)
      in {admin_msg, mount_allow_msg paths} \<union> mount_deny_msg ` set paths \<union>
         (case device of None \<Rightarrow> {} | Some d \<Rightarrow> {volume_allow_msg d, volume_deny_msg d}) \<union>
         {''host networking requested and denied by policy'',
          ''host networking requested and permitted by policy'',
          ''privileged mode requested and denied by policy'',
          ''privileged mode requested and permitted by policy'',
          ''docker cp denied by policy'', ''docker cp permitted by policy'',
          ''docker exec denied by policy'', ''docker exec permitted by policy''})"

text \<open>The state the rules share is sound: goroutines all run, and everything cached or
  answered for an identity satisfies \<open>P\<close>.\<close>

definition policy_inv ::
  "os_env \<Rightarrow> ('c \<Rightarrow> string \<Rightarrow> cache_entry option) \<Rightarrow> (string \<Rightarrow> resolved \<Rightarrow> bool) \<Rightarrow>
     ('c, 'b) policy_state \<Rightarrow> bool" where
  "policy_inv os peek P st \<longleftrightarrow> fair os \<and> set_inv peek P (fst st)"

text \<open>Some datasource said that \<open>v\<close> is a value of variable \<open>n\<close> for \<open>identity\<close>.\<close>

definition vouched :: "(string \<Rightarrow> resolved \<Rightarrow> bool) \<Rightarrow> string \<Rightarrow> string \<Rightarrow> string \<Rightarrow> bool" where
  "vouched P identity n v \<longleftrightarrow> (\<exists>r. P identity r \<and> v \<in> set (values_of r n))"

lemma first_denied_simps [simp]:
  "first_denied [] oks = None"
  "first_denied (p # ps) (ok # oks) = (if ok then first_denied ps oks else Some p)"
  by (simp_all add: first_denied_def)

lemma first_denied_None:
  "first_denied paths (map f paths) = None \<longleftrightarrow> (\<forall>p\<in>set paths. f p)"
  by (induction paths) simp_all

lemma first_denied_Some:
  "first_denied paths (map f paths) = Some p \<longleftrightarrow>
     (\<exists>before after. paths = before @ p # after \<and> (\<forall>q\<in>set before. f q) \<and> \<not> f p)"
proof (induction paths)
  case (Cons a paths)
  show ?case
  proof (cases "f a")
    case True
    have "(\<exists>before after. a # paths = before @ p # after \<and> (\<forall>q\<in>set before. f q) \<and> \<not> f p) \<longleftrightarrow>
        (\<exists>before after. paths = before @ p # after \<and> (\<forall>q\<in>set before. f q) \<and> \<not> f p)"
      using True by (auto simp: Cons_eq_append_conv) (metis True set_ConsD)
    with Cons True show ?thesis by simp
  qed (auto simp: Cons_eq_append_conv)
qed simp

lemma first_denied_in: "first_denied paths oks = Some p \<Longrightarrow> p \<in> set paths"
  by (induction paths oks rule: list_induct2') (auto simp: first_denied_def split: if_splits)

context lru
begin

lemma resolveVars_sound:
  assumes "resolveVars os ops ctx req st = (m, st')" and "policy_inv os peek P st"
  shows "policy_inv os peek P st' \<and> (\<forall>n. \<forall>v\<in>set (read_list m n). vouched P (User req) n v)"
proof -
  obtain s' w' where st': "st' = (s', w')" by fastforce
  show ?thesis
    using assms set_resolve_sound [where vars = "Extract req" and m = m and s' = s' and w' = w' and P = P]
    by (simp add: st' resolveVars_def set_resolve_def policy_inv_def vouched_def fair_def)
qed

lemma resolveVars_keeps:
  "policy_inv os peek P st \<Longrightarrow> policy_inv os peek P (snd (resolveVars os ops ctx req st))"
  by (cases "resolveVars os ops ctx req st") (simp add: resolveVars_sound)

lemma resolveMatcher_keeps:
  "policy_inv os peek P st \<Longrightarrow> policy_inv os peek P (snd (resolveMatcher os ops ctx req patterns st))"
  using resolveVars_keeps [of os P st ctx req]
  by (cases "resolveVars os ops ctx req st") (simp add: resolveMatcher_def)

lemma admin_rule: "rule (admin_evaluate os ops r :: ('c, 'b) policy_state rule) builtin_public (policy_inv os peek P)"
proof unfold_locales
  fix ctx req and st :: "('c, 'b) policy_state"
  assume "policy_inv os peek P st"
  then have "policy_inv os peek P (snd (resolveVars os ops ctx req st))"
    by (rule resolveVars_keeps)
  with \<open>policy_inv os peek P st\<close> show "policy_inv os peek P (snd (admin_evaluate os ops r ctx req st))"
    by (auto simp: admin_evaluate_def Let_def split: prod.splits option.splits)
qed (auto simp: admin_evaluate_def Let_def builtin_public_def split: prod.splits option.splits if_splits)

lemma mount_rule: "rule (mount_evaluate os ops (NewMountAllowlistRule patterns) :: ('c, 'b) policy_state rule) builtin_public (policy_inv os peek P)"
proof unfold_locales
  fix ctx req and st :: "('c, 'b) policy_state"
  assume "policy_inv os peek P st"
  with resolveMatcher_keeps [OF this, of ctx req patterns]
  show "policy_inv os peek P (snd (mount_evaluate os ops (NewMountAllowlistRule patterns) ctx req st))"
    by (auto simp: mount_evaluate_def Let_def split: prod.splits option.splits)
qed (auto simp: mount_evaluate_def Let_def builtin_public_def dest: first_denied_in
    split: prod.splits option.splits if_splits)

lemma volume_rule: "rule (volume_evaluate os ops (NewVolumeBindMountRule patterns) :: ('c, 'b) policy_state rule) builtin_public (policy_inv os peek P)"
proof unfold_locales
  fix ctx req and st :: "('c, 'b) policy_state"
  assume "policy_inv os peek P st"
  with resolveMatcher_keeps [OF this, of ctx req patterns]
  show "policy_inv os peek P (snd (volume_evaluate os ops (NewVolumeBindMountRule patterns) ctx req st))"
    by (auto simp: volume_evaluate_def Let_def split: prod.splits option.splits)
qed (auto simp: volume_evaluate_def Let_def builtin_public_def split: prod.splits option.splits if_splits)

end

lemmas gate_defs = host_network_evaluate_def privileged_evaluate_def docker_cp_evaluate_def
  docker_exec_evaluate_def

interpretation host_network: rule "host_network_evaluate (NewHostNetworkRule setting)" builtin_public okay
  for setting okay
  by unfold_locales (auto simp: gate_defs builtin_public_def Let_def split: if_splits)

interpretation privileged: rule "privileged_evaluate (NewPrivilegedRule setting)" builtin_public okay
  for setting okay
  by unfold_locales (auto simp: gate_defs builtin_public_def Let_def split: if_splits)

interpretation docker_cp: rule "docker_cp_evaluate (NewDockerCPRule setting)" builtin_public okay
  for setting okay
  by unfold_locales (auto simp: gate_defs builtin_public_def Let_def split: if_splits)

interpretation docker_exec: rule "docker_exec_evaluate (NewDockerExecRule setting)" builtin_public okay
  for setting okay
  by unfold_locales (auto simp: gate_defs builtin_public_def Let_def split: if_splits)

context lru
begin

lemma builtin_laws:
  "policy_chain (builtin_chain os ops cfg) builtin_public (policy_inv os peek P)"
proof (intro policy_chain.intro rule_chain.intro policy_chain_axioms.intro)
  fix r assume "r \<in> set (builtin_chain os ops cfg)"
  then show "rule r builtin_public (policy_inv os peek P)"
    unfolding builtin_chain_def
    by (auto intro: admin_rule mount_rule volume_rule host_network.rule_axioms
        privileged.rule_axioms docker_cp.rule_axioms docker_exec.rule_axioms)
qed (simp add: policy_inv_def)

lemmas builtin_decider = policy_chain.answer_laws [OF builtin_laws]

end

interpretation admin: rule "admin_evaluate os (list_lru defaultCacheSize) r" builtin_public
    "policy_inv os map_of P"
  for os r P
  by (rule lru4096.admin_rule)

interpretation mounts: rule "mount_evaluate os (list_lru defaultCacheSize) (NewMountAllowlistRule patterns)" builtin_public
    "policy_inv os map_of P"
  for os patterns P
  by (rule lru4096.mount_rule)

interpretation volumes: rule "volume_evaluate os (list_lru defaultCacheSize) (NewVolumeBindMountRule patterns)" builtin_public
    "policy_inv os map_of P"
  for os patterns P
  by (rule lru4096.volume_rule)

interpretation builtin: policy_chain "builtin_chain os (list_lru defaultCacheSize) cfg" builtin_public
    "policy_inv os map_of P"
  for os cfg P
  by (rule lru4096.builtin_laws)

end
