(* ===== verification/Policy.thy ===== *)
theory Policy
  imports Rules
begin

text \<open>
  What the built-in chain decides: the exact condition under which each rule allows, and
  the meaning of an allowed request in terms of the configuration, the file system and
  what the datasources said of the caller.
\<close>

subsection \<open>One path\<close>

text \<open>\<open>path\<close> is, on this file system, below an instance of a configured pattern whose
  placeholders have safe values that \<open>ok\<close> accepts.\<close>

definition granted ::
  "os_env \<Rightarrow> string list \<Rightarrow> (string \<Rightarrow> string \<Rightarrow> bool) \<Rightarrow> string \<Rightarrow> bool" where
  "granted os patterns ok path \<longleftrightarrow>
     (\<exists>c pattern \<sigma>. canonicalize os path = Inr c \<and> pattern \<in> set patterns \<and>
        (\<forall>n\<in>set (placeholder_names pattern). is_safe_var_value (\<sigma> n) \<and> ok n (\<sigma> n)) \<and>
        under (instantiate \<sigma> pattern) c)"

definition resolved_value :: "(string \<rightharpoonup> string list) \<Rightarrow> string \<Rightarrow> string \<Rightarrow> bool" where
  "resolved_value m n v \<longleftrightarrow> v \<in> set (read_list m n)"

lemma granted_mono:
  "granted os patterns ok path \<Longrightarrow> (\<And>n v. ok n v \<Longrightarrow> ok' n v) \<Longrightarrow> granted os patterns ok' path"
  unfolding granted_def by blast

lemma check_path_granted:
  "check_path os (new_matcher (concat (map (\<lambda>pattern. expand pattern m) patterns))) path \<longleftrightarrow>
     granted os patterns (resolved_value m) path"
  unfolding check_path_under granted_def resolved_value_def
  by (simp add: set_expand safe_values_def del: set_placeholder_names) blast

lemma granted_canonicalizes: "granted os patterns ok path \<Longrightarrow> \<exists>c. canonicalize os path = Inr c"
  by (auto simp: granted_def)

subsection \<open>The mount and volume rules\<close>

lemma mount_abstains:
  "binds (RequestURI req) (RequestBody req) = [] \<Longrightarrow> mount_evaluate os ops (NewMountAllowlistRule patterns) ctx req st = (Inr abstain, st)"
  by (simp add: mount_evaluate_def)

lemma mount_decides:
  assumes "fair os" and "binds (RequestURI req) (RequestBody req) = paths" and "paths \<noteq> []"
    and "resolveVars os ops ctx req st = (m, st')"
  shows "mount_evaluate os ops (NewMountAllowlistRule patterns) ctx req st =
    (Inr (case find (\<lambda>p. \<not> granted os patterns (resolved_value m) p) paths of
            None \<Rightarrow> allow (mount_allow_msg paths)
          | Some p \<Rightarrow> deny (mount_deny_msg p)), st')"
proof -
  have "first_denied ps (map f ps) = find (\<lambda>p. \<not> f p) ps" for f and ps :: "string list"
    by (induction ps) simp_all
  with assms show ?thesis
    by (simp add: mount_evaluate_def resolveMatcher_def check_paths_fair check_path_granted
        split: option.splits)
qed

lemma volume_abstains:
  "volume_bind_device (RequestURI req) (RequestBody req) = None \<Longrightarrow>
     volume_evaluate os ops (NewVolumeBindMountRule patterns) ctx req st = (Inr abstain, st)"
  by (simp add: volume_evaluate_def)

lemma volume_decides:
  assumes "volume_bind_device (RequestURI req) (RequestBody req) = Some device"
    and "resolveVars os ops ctx req st = (m, st')"
  shows "volume_evaluate os ops (NewVolumeBindMountRule patterns) ctx req st =
    (Inr (if granted os patterns (resolved_value m) device then allow (volume_allow_msg device)
          else deny (volume_deny_msg device)), st')"
  using assms by (simp add: volume_evaluate_def resolveMatcher_def check_path_granted)

subsection \<open>The admin rule\<close>

definition is_admin :: "admin_rule \<Rightarrow> (string \<Rightarrow> string \<Rightarrow> bool) \<Rightarrow> bool" where
  "is_admin r ok \<longleftrightarrow> (\<exists>u\<in>users r. ok ''USER'' u) \<or> (\<exists>g\<in>groups r. ok ''GROUP'' g)"

lemma find_hit: "find P xs = Some x \<Longrightarrow> x \<in> set xs \<and> P x"
  by (auto simp: find_Some_iff)

lemma admin_decides:
  assumes m: "resolveVars os ops ctx req st = (m, st')" and "users r \<noteq> {} \<or> groups r \<noteq> {}"
  shows "\<exists>detail. admin_evaluate os ops r ctx req st =
       (Inr (if is_admin r (resolved_value m) then adminAllow detail else abstain), st')"
proof (cases "find (\<lambda>u. u \<in> users r) (read_list m ''USER'')")
  case (Some u)
  then have "is_admin r (resolved_value m)"
    by (auto simp: is_admin_def resolved_value_def dest: find_hit)
  with Some assms show ?thesis by (auto simp: admin_evaluate_def)
next
  case None
  show ?thesis
  proof (cases "find (\<lambda>g. g \<in> groups r) (read_list m ''GROUP'')")
    case (Some g)
    then have "is_admin r (resolved_value m)"
      by (auto simp: is_admin_def resolved_value_def dest: find_hit)
    with None Some assms show ?thesis by (auto simp: admin_evaluate_def)
  next
    case none: None
    with None have "\<not> is_admin r (resolved_value m)"
      by (auto simp: is_admin_def resolved_value_def find_None_iff)
    with None none assms show ?thesis by (auto simp: admin_evaluate_def)
  qed
qed

lemma admin_unused:
  "users r = {} \<Longrightarrow> groups r = {} \<Longrightarrow> admin_evaluate os ops r ctx req st = (Inr abstain, st)"
  by (simp add: admin_evaluate_def)

context lru
begin

lemma admin_outcome:
  assumes "admin_evaluate os ops r ctx req st = (x, st')" and "policy_inv os peek P st"
  shows "policy_inv os peek P st' \<and>
    (x = Inr abstain \<or> (\<exists>detail. x = Inr (adminAllow detail)) \<and> is_admin r (vouched P (User req)))"
proof (cases "users r = {} \<and> groups r = {}")
  case True
  with assms show ?thesis by (simp add: admin_unused)
next
  case False
  obtain m st1 where m: "resolveVars os ops ctx req st = (m, st1)" by (metis surj_pair)
  note s = resolveVars_sound [OF m assms(2)]
  obtain detail where d: "admin_evaluate os ops r ctx req st =
       (Inr (if is_admin r (resolved_value m) then adminAllow detail else abstain), st1)"
    using admin_decides [OF m] False by blast
  have "is_admin r (vouched P (User req))" if "is_admin r (resolved_value m)"
    using that s unfolding is_admin_def resolved_value_def by blast
  with d s assms(1) show ?thesis by auto
qed

lemma mount_outcome:
  assumes "mount_evaluate os ops (NewMountAllowlistRule patterns) ctx req st = (Inr d, st')" and "policy_inv os peek P st"
    and "Verdict d \<noteq> Deny" and "p \<in> set (binds (RequestURI req) (RequestBody req))"
  shows "granted os patterns (vouched P (User req)) p"
proof -
  obtain m st1 where m: "resolveVars os ops ctx req st = (m, st1)" by (metis surj_pair)
  have "binds (RequestURI req) (RequestBody req) \<noteq> []" using assms(4) by auto
  from mount_decides [OF _ refl this m, of patterns] assms have "granted os patterns (resolved_value m) p"
    by (auto simp: policy_inv_def find_None_iff split: option.splits)
  then show ?thesis
    by (rule granted_mono) (use resolveVars_sound [OF m assms(2)] in \<open>simp add: resolved_value_def\<close>)
qed

lemma volume_outcome:
  assumes "volume_evaluate os ops (NewVolumeBindMountRule patterns) ctx req st = (Inr d, st')" and "policy_inv os peek P st"
    and "Verdict d \<noteq> Deny" and "volume_bind_device (RequestURI req) (RequestBody req) = Some device"
  shows "granted os patterns (vouched P (User req)) device"
proof -
  obtain m st1 where m: "resolveVars os ops ctx req st = (m, st1)" by (metis surj_pair)
  from volume_decides [OF assms(4) m, of patterns] assms have "granted os patterns (resolved_value m) device"
    by (auto split: if_splits)
  then show ?thesis
    by (rule granted_mono) (use resolveVars_sound [OF m assms(2)] in \<open>simp add: resolved_value_def\<close>)
qed

end

subsection \<open>Which rules a request reaches\<close>

lemma rules_container_create:
  assumes "is_container_create (RequestURI req)"
  shows "chain_evaluate (builtin_chain os ops cfg) ctx req st =
    chain_evaluate
      [admin_evaluate os ops (NewAdminRule (AdminUsers cfg) (AdminGroups cfg)),
       mount_evaluate os ops (NewMountAllowlistRule (Allowlist cfg)),
       host_network_evaluate (NewHostNetworkRule (HostNetwork (Checks cfg))),
       privileged_evaluate (NewPrivilegedRule (Privileged (Checks cfg)))] ctx req st"
  using create_shapes_disjoint [OF assms]
    container_create_not_action [OF assms, of "RequestMethod req"]
  by (simp add: builtin_chain_def volume_abstains docker_cp_evaluate_def docker_exec_evaluate_def
      split: prod.splits sum.splits)

lemma rules_other:
  assumes "\<not> is_container_create (RequestURI req)"
  shows "chain_evaluate (builtin_chain os ops cfg) ctx req st =
    chain_evaluate
      [admin_evaluate os ops (NewAdminRule (AdminUsers cfg) (AdminGroups cfg)),
       volume_evaluate os ops (NewVolumeBindMountRule (Allowlist cfg)),
       docker_cp_evaluate (NewDockerCPRule (DockerCP (Checks cfg))),
       docker_exec_evaluate (NewDockerExecRule (DockerExec (Checks cfg)))] ctx req st"
  using assms
  by (simp add: builtin_chain_def mount_abstains host_network_evaluate_def privileged_evaluate_def
      split: prod.splits sum.splits)

text \<open>The mount rule is active on a request with mounts, so what follows it is not reached.\<close>

lemma mount_active:
  assumes "binds (RequestURI req) (RequestBody req) \<noteq> []"
  obtains d st' where "mount_evaluate os ops (NewMountAllowlistRule patterns) ctx req st = (Inr d, st')" and "Verdict d \<noteq> Abstain"
  using assms
  by (cases "resolveMatcher os ops ctx req patterns st";
      cases "first_denied (binds (RequestURI req) (RequestBody req))
        (check_paths_concurrently os (binds (RequestURI req) (RequestBody req))
          (fst (resolveMatcher os ops ctx req patterns st)))")
    (fastforce simp: mount_evaluate_def)+

lemma mount_ends:
  assumes "binds (RequestURI req) (RequestBody req) \<noteq> []"
  shows "chain_evaluate (mount_evaluate os ops (NewMountAllowlistRule patterns) # rs) ctx req st =
    mount_evaluate os ops (NewMountAllowlistRule patterns) ctx req st"
proof -
  obtain d st' where "mount_evaluate os ops (NewMountAllowlistRule patterns) ctx req st = (Inr d, st')" "Verdict d \<noteq> Abstain"
    by (rule mount_active [OF assms])
  then show ?thesis by simp
qed

lemma rules_with_mounts:
  assumes "binds (RequestURI req) (RequestBody req) \<noteq> []"
  shows "chain_evaluate (builtin_chain os ops cfg) ctx req st =
    chain_evaluate
      [admin_evaluate os ops (NewAdminRule (AdminUsers cfg) (AdminGroups cfg)),
       mount_evaluate os ops (NewMountAllowlistRule (Allowlist cfg))] ctx req st"
  unfolding builtin_chain_def
  by (subst (1 2) chain_evaluate.simps(2)) (simp only: mount_ends [OF assms])

subsection \<open>Serving requests\<close>

text \<open>The host paths a request would make reachable: container mounts and the device of a
  bind-style volume.\<close>

definition host_paths :: "authz_req \<Rightarrow> string set" where
  "host_paths req =
     set (binds (RequestURI req) (RequestBody req)) \<union>
     set_option (volume_bind_device (RequestURI req) (RequestBody req))"

fun serve ::
  "('x, 'b) decider \<Rightarrow> (go_ctx \<times> authz_req) list \<Rightarrow> 'x \<times> 'b world \<Rightarrow>
     (authz_req \<times> bool \<times> string \<times> go_error option) list \<times> 'x \<times> 'b world" where
  "serve decide [] st = ([], st)"
| "serve decide ((ctx, req) # reqs) st =
     (let (answer, st1) = decide ctx req st;
          (answers, st2) = serve decide reqs st1
      in ((req, answer) # answers, st2))"

lemma serve_one: "fst (serve decide [(ctx, req)] st) = [(req, fst (decide ctx req st))]"
  by (simp split: prod.splits)

text \<open>Some provider of the set once gave \<open>r\<close> for the identity \<open>k\<close>.\<close>

definition answered :: "('c, 'b) ds_set \<Rightarrow> string \<Rightarrow> resolved \<Rightarrow> bool" where
  "answered s k r \<longleftrightarrow>
     (\<exists>cp\<in>set (providers s). \<exists>ctx vars w w'.
        cp_provider cp ctx vars w = (Inr r, w') \<and> read_string vars identityVar = k)"

lemma new_providers_fresh:
  "new_providers is_print meter reg c cfgs = Inr ps \<Longrightarrow> \<forall>cp\<in>set ps. cp_cache cp = c"
  by (induction cfgs arbitrary: ps)
    (auto simp: new_provider_def newCachedProvider_def newCachedProviderWithClock_def decorated_def
      split: sum.splits option.splits)

lemma new_set_inv:
  assumes "NewSet is_print meter reg c cfgs = Inr s" and "\<And>k. peek c k = None"
  shows "set_inv peek (answered s) s"
proof -
  have "\<forall>cp\<in>set (providers s). cp_cache cp = c"
    using assms(1) by (auto simp: NewSet_def dest: new_providers_fresh split: sum.splits)
  moreover have "provider_answers (answered s) (cp_provider cp)" if "cp \<in> set (providers s)" for cp
    using that unfolding provider_answers_def answered_def by blast
  ultimately show ?thesis
    using assms(2) by (auto simp: set_inv_def cache_inv_def)
qed

context decider
begin

lemma serve_keeps: "okay st \<Longrightarrow> okay (snd (serve decide reqs st))"
proof (induction reqs arbitrary: st)
  case (Cons a reqs)
  obtain ctx req where a: "a = (ctx, req)" by fastforce
  obtain x st1 where x: "decide ctx req st = (x, st1)" by (metis surj_pair)
  have "okay st1" using keeps [OF Cons.prems, of ctx req] x by simp
  with Cons.IH [of st1] show ?case
    by (cases "serve decide reqs st1") (simp add: a x)
qed simp

text \<open>Whatever every single decision from a good state satisfies holds all along.\<close>

lemma serve_all:
  assumes "(req, ans) \<in> set (fst (serve decide reqs st))" and "okay st"
    and "\<And>ctx st. okay st \<Longrightarrow> Q req (fst (decide ctx req st))"
  shows "Q req ans"
  using assms(1,2)
proof (induction reqs arbitrary: st)
  case (Cons a reqs)
  obtain ctx req' where a: "a = (ctx, req')" by fastforce
  obtain x st1 where x: "decide ctx req' st = (x, st1)" by (metis surj_pair)
  have st1: "okay st1" using keeps [OF Cons.prems(2), of ctx req'] x by simp
  from Cons.prems(1) consider "req = req'" "ans = x" | "(req, ans) \<in> set (fst (serve decide reqs st1))"
    by (auto simp: a x split: prod.splits)
  then show ?case
  proof cases
    case 1
    with assms(3) [OF Cons.prems(2), of ctx] x show ?thesis by simp
  next
    case 2
    then show ?thesis by (rule Cons.IH) (rule st1)
  qed
qed simp

end

context lru
begin

lemma decide_host_paths:
  assumes "policy_inv os peek P st"
    and "fst (chain_decide (builtin_chain os ops cfg) ctx req st) = (True, msg, err)"
    and "p \<in> host_paths req"
  shows "is_admin (NewAdminRule (AdminUsers cfg) (AdminGroups cfg)) (vouched P (User req)) \<or>
         granted os (Allowlist cfg) (vouched P (User req)) p"
proof -
  let ?admin = "admin_evaluate os ops (NewAdminRule (AdminUsers cfg) (AdminGroups cfg))"
  obtain x st1 where x: "?admin ctx req st = (x, st1)" by (metis surj_pair)
  note adm = admin_outcome [OF x assms(1)]
  obtain r s2 where r: "chain_evaluate (builtin_chain os ops cfg) ctx req st = (r, s2)"
    by (metis surj_pair)
  have allowed: "\<exists>d. r = Inr d \<and> Verdict d \<noteq> Deny"
    using assms(2) r
    by (auto simp: chain_decide_def decide_answer_def split: sum.splits verdict.splits prod.splits)
  show ?thesis
  proof (cases "x = Inr abstain")
    case False
    with adm show ?thesis by blast
  next
    case abst: True
    have inv1: "policy_inv os peek P st1" using adm by blast
    show ?thesis
    proof (cases "is_container_create (RequestURI req)")
      case True
      then have p: "p \<in> set (binds (RequestURI req) (RequestBody req))"
        using assms(3) create_shapes_disjoint by (auto simp: host_paths_def)
      obtain y st2 where y: "mount_evaluate os ops (NewMountAllowlistRule (Allowlist cfg)) ctx req st1 = (y, st2)"
        by (metis surj_pair)
      obtain d where d: "y = Inr d"
        using rule.ruleE [OF mount_rule y] by blast
      have "Verdict d \<noteq> Deny"
        using allowed r y d abst x by (auto simp: rules_container_create [OF True])
      from mount_outcome [OF y [unfolded d] inv1 this p] show ?thesis by blast
    next
      case False
      then have p: "volume_bind_device (RequestURI req) (RequestBody req) = Some p"
        using assms(3) by (auto simp: host_paths_def)
      obtain y st2 where y: "volume_evaluate os ops (NewVolumeBindMountRule (Allowlist cfg)) ctx req st1 = (y, st2)"
        by (metis surj_pair)
      obtain d where d: "y = Inr d"
        using rule.ruleE [OF volume_rule y] by blast
      have "Verdict d \<noteq> Deny"
        using allowed r y d abst x by (auto simp: rules_other [OF False])
      from volume_outcome [OF y [unfolded d] inv1 this p] show ?thesis by blast
    qed
  qed
qed

end

lemma chain_append:
  "chain_evaluate (as @ bs) ctx req st =
     (case chain_evaluate as ctx req st of
        (Inl err, st') \<Rightarrow> (Inl err, st')
      | (Inr d, st') \<Rightarrow> if Verdict d \<noteq> Abstain then (Inr d, st') else chain_evaluate bs ctx req st')"
  by (induction as arbitrary: st) (auto split: prod.splits sum.splits)

lemma decide_fst: "fst (chain_decide rs ctx req st) = decide_answer req (fst (chain_evaluate rs ctx req st))"
  by (simp add: chain_decide_def split: prod.splits)

lemma decide_answer_simps [simp]:
  "decide_answer req (Inr (deny m)) = (False, prefixIdentity (User req) m, None)"
  "decide_answer req (Inr (allow m)) = (True, m, None)"
  "decide_answer req (Inr (adminAllow m)) = (True, admin_msg, None)"
  "decide_answer req (Inr abstain) = (True, [], None)"
  by (simp_all add: decide_answer_def)

context lru
begin

lemma open_gates:
  assumes inv: "policy_inv os peek P st"
    and ok: "fst (fst (chain_decide (builtin_chain os ops cfg) ctx req st))"
    and not_admin: "\<not> is_admin (NewAdminRule (AdminUsers cfg) (AdminGroups cfg)) (vouched P (User req))"
  shows "is_container_create (RequestURI req) \<Longrightarrow> binds (RequestURI req) (RequestBody req) = [] \<Longrightarrow>
      fst (decide_answer req (fst (chain_evaluate
        [host_network_evaluate (NewHostNetworkRule (HostNetwork (Checks cfg))),
         privileged_evaluate (NewPrivilegedRule (Privileged (Checks cfg)))]
        ctx req st)))"
    and "\<not> is_container_create (RequestURI req) \<Longrightarrow>
      volume_bind_device (RequestURI req) (RequestBody req) = None \<Longrightarrow>
      fst (decide_answer req (fst (chain_evaluate
        [docker_cp_evaluate (NewDockerCPRule (DockerCP (Checks cfg))),
         docker_exec_evaluate (NewDockerExecRule (DockerExec (Checks cfg)))]
        ctx req st)))"
proof -
  let ?admin = "admin_evaluate os ops (NewAdminRule (AdminUsers cfg) (AdminGroups cfg))"
  obtain x st1 where x: "?admin ctx req st = (x, st1)" by (metis surj_pair)
  have abst: "x = Inr abstain" using admin_outcome [OF x inv] not_admin by blast
  { assume "is_container_create (RequestURI req)" "binds (RequestURI req) (RequestBody req) = []"
    then show "fst (decide_answer req (fst (chain_evaluate
        [host_network_evaluate (NewHostNetworkRule (HostNetwork (Checks cfg))),
         privileged_evaluate (NewPrivilegedRule (Privileged (Checks cfg)))]
        ctx req st)))"
      using ok x abst
      by (simp add: decide_fst rules_container_create mount_abstains gate_defs split: if_splits) }
  { assume "\<not> is_container_create (RequestURI req)" "volume_bind_device (RequestURI req) (RequestBody req) = None"
    then show "fst (decide_answer req (fst (chain_evaluate
        [docker_cp_evaluate (NewDockerCPRule (DockerCP (Checks cfg))),
         docker_exec_evaluate (NewDockerExecRule (DockerExec (Checks cfg)))]
        ctx req st)))"
      using ok x abst
      by (simp add: decide_fst rules_other volume_abstains gate_defs split: if_splits) }
qed

end

end
