(* ===== verification/Server.thy ===== *)
theory Server
  imports Config Policy
begin

text \<open>
  The server (\<open>internal/server/server.go\<close>): what \<open>New\<close> builds, the decision of a request on
  the state that was active when the request loaded it, and \<open>Reload\<close>, which swaps decider,
  timeout and certificate together. Every \<open>*state\<close> ever stored stays in \<open>states\<close>, as
  requests still running may hold it; \<open>active\<close> is the one new requests load. Loading a key
  pair from disk is the parameter \<open>load_pair\<close>.
\<close>

subsection \<open>State\<close>

text \<open>\<open>owned\<close> is what the decider reaches and changes: the datasource set of its rules.\<close>

record ('x, 'b) active_state =
  decider_of :: "('x, 'b) decider"
  decisionTimeout :: int
  owned :: 'x

record ('x, 'b, 'k) server =
  tlsEnabled :: bool
  cert :: "'k option"
  states :: "('x, 'b) active_state list"
  active :: nat
  addr :: string
  metrics_pattern :: string
  started :: bool
  listener :: "string option"

text \<open>A call that may panic.\<close>

datatype 'a outcome = Panic string | Fails go_error | Built 'a

subsection \<open>The router\<close>

text \<open>\<open>http.ServeMux\<close> for patterns without a method and without wildcards: an optional host
  and a path, which matches its subtree when it ends in a slash. Whether registering any
  other pattern panics is the argument \<open>other\<close>. The pattern of the plugin is \<open>/\<close>.\<close>

definition plain_pattern :: "string \<Rightarrow> bool" where
  "plain_pattern p \<longleftrightarrow> list_all (\<lambda>c. c \<notin> {CHR '' '', CHR 0x09, CHR ''{'', CHR ''}''}) p"

definition mux_rejects :: "(string \<Rightarrow> bool) \<Rightarrow> string \<Rightarrow> bool" where
  "mux_rejects other p =
     (if plain_pattern p then slash \<notin> set p \<or> p = ''/'' else other p)"

definition pattern_matches :: "string \<Rightarrow> string \<Rightarrow> string \<Rightarrow> bool" where
  "pattern_matches pat host path \<longleftrightarrow>
     (let h = takeWhile (\<lambda>c. c \<noteq> slash) pat; p = dropWhile (\<lambda>c. c \<noteq> slash) pat
      in (h = [] \<or> h = host) \<and> (path = p \<or> p \<noteq> [] \<and> last p = slash \<and> prefix p path))"

datatype target = Metrics | Plugin "endpoint option"

definition dispatch :: "('x, 'b, 'k) server \<Rightarrow> string \<Rightarrow> string \<Rightarrow> target" where
  "dispatch s host path =
     (if pattern_matches (metrics_pattern s) host path then Metrics else Plugin (route path))"

subsection \<open>Construction\<close>

definition both_or_none :: go_error where
  "both_or_none = ''server: server_cert and server_key must both be set (TLS) or both unset (plain HTTP)''"

type_synonym 'k load_pair = "string \<Rightarrow> string \<Rightarrow> 'k result"

text \<open>\<open>None\<close> stands for a nil argument; the metrics handler is of any type.\<close>

definition New ::
  "(string \<Rightarrow> bool) \<Rightarrow> 'k load_pair \<Rightarrow> conf option \<Rightarrow> (('x, 'b) decider \<times> 'x) option \<Rightarrow> 'm option \<Rightarrow>
     ('x, 'b, 'k) server outcome" where
  "New other load_pair cfg' decider' metrics' =
     (case cfg' of
        None \<Rightarrow> Fails ''server: cfg must not be nil''
      | Some cfg \<Rightarrow>
          (case decider' of
             None \<Rightarrow> Fails ''server: decider must not be nil''
           | Some (decide, x) \<Rightarrow>
               if metrics' = None then Fails ''server: metrics handler must not be nil''
               else
                 (let sc = Server cfg;
                      certSet = (ServerCert sc \<noteq> []); keySet = (ServerKey sc \<noteq> [])
                  in if certSet \<noteq> keySet then Fails both_or_none
                     else if mux_rejects other (MetricsPath sc) then Panic (MetricsPath sc)
                     else
                       (let s = \<lparr>tlsEnabled = certSet \<and> keySet, cert = None,
                                 states = [\<lparr>decider_of = decide, decisionTimeout = DecisionTimeout sc, owned = x\<rparr>],
                                 active = 0, addr = ListenAddr sc, metrics_pattern = MetricsPath sc,
                                 started = False, listener = None\<rparr>
                        in if tlsEnabled s then
                             (case load_pair (ServerCert sc) (ServerKey sc) of
                                Inl e \<Rightarrow> Fails (''server: loading initial TLS certificate: '' @ e)
                              | Inr c \<Rightarrow> Built (s\<lparr>cert := Some c\<rparr>))
                           else Built s))))"

text \<open>\<open>listen\<close> is \<open>net.Listen\<close>: the bound address or an error.\<close>

definition Start ::
  "(string \<Rightarrow> string result) \<Rightarrow> ('x, 'b, 'k) server \<Rightarrow> go_error option \<times> ('x, 'b, 'k) server" where
  "Start listen s =
     (if started s then (Some ''server: Start called more than once'', s)
      else
        (let s1 = s\<lparr>started := True\<rparr>
         in case listen (addr s) of
              Inl e \<Rightarrow> (Some (''server: listening on '' @ addr s @ '': '' @ e), s1)
            | Inr ln \<Rightarrow> (None, s1\<lparr>listener := Some ln\<rparr>)))"

definition Addr :: "('x, 'b, 'k) server \<Rightarrow> string" where
  "Addr s = (case listener s of None \<Rightarrow> [] | Some ln \<Rightarrow> ln)"

definition TLSEnabled :: "('x, 'b, 'k) server \<Rightarrow> bool" where
  "TLSEnabled s = tlsEnabled s"

definition getCertificate :: "('x, 'b, 'k) server \<Rightarrow> 'k result" where
  "getCertificate s =
     (case cert s of None \<Rightarrow> Inl ''server: no TLS certificate loaded'' | Some c \<Rightarrow> Inr c)"

subsection \<open>Deciding\<close>

text \<open>\<open>context.WithTimeout\<close>: the deadline counts from now, and an earlier one is kept.\<close>

definition with_timeout :: "go_ctx \<Rightarrow> int \<Rightarrow> 'b world \<Rightarrow> go_ctx \<times> 'b world" where
  "with_timeout ctx d w =
     (let (t, w') = now w; deadline = t + d
      in (ctx\<lparr>ctx_deadline := Some (case ctx_deadline ctx of
                                   None \<Rightarrow> deadline
                                 | Some cur \<Rightarrow> if cur < deadline then cur else deadline)\<rparr>, w'))"

text \<open>The body of \<open>Decide\<close> once the pointer \<open>g\<close> is loaded.\<close>

definition decide_on :: "nat \<Rightarrow> (('x, 'b, 'k) server, 'b) decider" where
  "decide_on g ctx req st =
     (let s = fst st; a = states s ! g;
          (ctx', w1) = with_timeout ctx (decisionTimeout a) (snd st);
          (answer, (x, w2)) = decider_of a ctx' req (owned a, w1)
      in (answer, (s\<lparr>states := (states s)[g := a\<lparr>owned := x\<rparr>]\<rparr>, w2)))"

definition Decide :: "(('x, 'b, 'k) server, 'b) decider" where
  "Decide ctx req st = decide_on (active (fst st)) ctx req st"

subsection \<open>Reload\<close>

text \<open>What does not change from one reload to the next: file system, LRU operations, the
  empty cache of a new datasource, the registry of datasource types, the meter.\<close>

record ('c, 'b) services =
  sv_os :: os_env
  sv_ops :: "'c lru_ops"
  sv_empty :: 'c
  sv_registry :: "(yaml_node, 'b) registry"
  sv_meter :: meter

definition build_set :: "('c, 'b) services \<Rightarrow> (nat \<Rightarrow> bool) \<Rightarrow> conf \<Rightarrow> ('c, 'b) ds_set result" where
  "build_set sv is_print cfg =
     NewSet is_print (sv_meter sv) (sv_registry sv) (sv_empty sv) (convertDatasources (Datasources cfg))"

definition build_chain :: "('c, 'b) services \<Rightarrow> conf \<Rightarrow> ('c, 'b) policy_state rule list result" where
  "build_chain sv cfg = NewBuiltinChain (sv_meter sv) (sv_os sv) (sv_ops sv) cfg"

definition policy_of :: "('c, 'b) services \<Rightarrow> conf \<Rightarrow> (('c, 'b) ds_set, 'b) decider" where
  "policy_of sv cfg = chain_decide (builtin_chain (sv_os sv) (sv_ops sv) cfg)"

definition reload_pair ::
  "'k load_pair \<Rightarrow> server_config \<Rightarrow> bool \<Rightarrow> 'k option result" where
  "reload_pair load_pair sc tls =
     (if tls then
        (case load_pair (ServerCert sc) (ServerKey sc) of
           Inl e \<Rightarrow> Inl (''server: reloading TLS certificate: '' @ e)
         | Inr c \<Rightarrow> Inr (Some c))
      else Inr None)"

text \<open>The two stores and the flush, which nothing after can fail.\<close>

definition swap_in ::
  "('c, 'b) services \<Rightarrow> (('c, 'b) ds_set, 'b) decider \<Rightarrow> conf \<Rightarrow> ('c, 'b) ds_set \<Rightarrow> 'k option \<Rightarrow>
     (('c, 'b) ds_set, 'b, 'k) server \<Rightarrow> (('c, 'b) ds_set, 'b, 'k) server" where
  "swap_in sv decide cfg dsSet newCert s =
     (let s1 = (case newCert of None \<Rightarrow> s | Some c \<Rightarrow> s\<lparr>cert := Some c\<rparr>);
          a = \<lparr>decider_of = decide, decisionTimeout = DecisionTimeout (Server cfg), owned = dsSet\<rparr>;
          g = length (states s1);
          s2 = s1\<lparr>states := states s1 @ [a], active := g\<rparr>
      in s2\<lparr>states := (states s2)[g := a\<lparr>owned := set_flush (sv_ops sv) dsSet\<rparr>]\<rparr>)"

definition Reload ::
  "('c, 'b) services \<Rightarrow> 'k load_pair \<Rightarrow> (nat \<Rightarrow> bool) \<Rightarrow> conf option \<Rightarrow>
     (('c, 'b) ds_set, 'b, 'k) server \<Rightarrow> go_error option \<times> (('c, 'b) ds_set, 'b, 'k) server" where
  "Reload sv load_pair is_print cfg' s =
     (case cfg' of
        None \<Rightarrow> (Some ''server: cfg must not be nil'', s)
      | Some cfg \<Rightarrow>
          (let sc = Server cfg; certSet = (ServerCert sc \<noteq> []); keySet = (ServerKey sc \<noteq> [])
           in if certSet \<noteq> keySet then (Some both_or_none, s)
              else if (certSet \<and> keySet) \<noteq> tlsEnabled s then
                (Some ''server: cannot change TLS mode (plain HTTP <-> TLS) via Reload; restart the process instead'', s)
              else
                (case build_set sv is_print cfg of
                   Inl e \<Rightarrow> (Some (''server: rebuilding datasources: '' @ e), s)
                 | Inr dsSet \<Rightarrow>
                     (case build_chain sv cfg of
                        Inl e \<Rightarrow> (Some (''server: rebuilding rule chain: '' @ e), s)
                      | Inr chain \<Rightarrow>
                          (case reload_pair load_pair sc (tlsEnabled s) of
                             Inl e \<Rightarrow> (Some e, s)
                           | Inr newCert \<Rightarrow> (None, swap_in sv (chain_decide chain) cfg dsSet newCert s))))))"

lemma swap_in_fields [simp]:
  "tlsEnabled (swap_in sv decide cfg d c s) = tlsEnabled s"
  "active (swap_in sv decide cfg d c s) = length (states s)"
  "cert (swap_in sv decide cfg d c s) = (case c of None \<Rightarrow> cert s | Some k \<Rightarrow> Some k)"
  "states (swap_in sv decide cfg d c s) = states s @
     [\<lparr>decider_of = decide, decisionTimeout = DecisionTimeout (Server cfg),
       owned = set_flush (sv_ops sv) d\<rparr>]"
  by (simp_all add: swap_in_def Let_def split: option.split)

lemma ReloadE:
  assumes "Reload sv load_pair is_print cfg' s = (r, s')"
  obtains e where "r = Some e" and "s' = s"
  | cfg d c where "r = None" and "cfg' = Some cfg" and "build_set sv is_print cfg = Inr d"
      and "reload_pair load_pair (Server cfg) (tlsEnabled s) = Inr c" and "s' = swap_in sv (policy_of sv cfg) cfg d c s"
      and "tlsEnabled s = (ServerCert (Server cfg) \<noteq> [])" and "tlsEnabled s = (ServerKey (Server cfg) \<noteq> [])"
  using assms
proof -
  have chain: "build_chain sv cfg = Inr rs \<Longrightarrow> chain_decide rs = policy_of sv cfg" for cfg rs
    by (auto simp: build_chain_def policy_of_def dest: NewBuiltinChain_result)
  show thesis
    using assms
    by (auto simp: Reload_def Let_def chain intro: that split: option.splits if_splits sum.splits)
qed

lemma decide_on_fields [simp]:
  assumes "decide_on g ctx req (s, w) = (a, (s', w'))"
  shows "tlsEnabled s' = tlsEnabled s" and "cert s' = cert s" and "active s' = active s"
    and "length (states s') = length (states s)"
  using assms by (auto simp: decide_on_def Let_def split: prod.splits)

end
