(* ===== verification/Server_Run.thy ===== *)
theory Server_Run
  imports Server
begin

text \<open>
  The server in operation: requests that load the active state and answer later, reloads
  in between, and a world that moves on its own. The locale \<open>decider\<close> is interpreted on
  \<open>Server.Decide\<close>, the decider the plugin's handler is given.
\<close>

subsection \<open>A sound server\<close>

text \<open>The state \<open>a\<close> decides by the configuration \<open>cfg\<close>, and its cached values are answers
  of the datasource set \<open>s0\<close> built from it.\<close>

definition runs_config ::
  "('c, 'b) services \<Rightarrow> ('c \<Rightarrow> string \<Rightarrow> cache_entry option) \<Rightarrow> conf \<times> ('c, 'b) ds_set \<Rightarrow>
     (('c, 'b) ds_set, 'b) active_state \<Rightarrow> bool" where
  "runs_config sv peek c a \<longleftrightarrow>
     (case c of
        (cfg, s0) \<Rightarrow>
          decider_of a = policy_of sv cfg \<and> decisionTimeout a = DecisionTimeout (Server cfg) \<and>
          set_inv peek (answered s0) (owned a) \<and> (\<exists>is_print. build_set sv is_print cfg = Inr s0))"

definition server_inv ::
  "('c, 'b) services \<Rightarrow> ('c \<Rightarrow> string \<Rightarrow> cache_entry option) \<Rightarrow> (conf \<times> ('c, 'b) ds_set) list \<Rightarrow>
     (('c, 'b) ds_set, 'b, 'k) server \<Rightarrow> bool" where
  "server_inv sv peek cs s \<longleftrightarrow>
     fair (sv_os sv) \<and> active s < length (states s) \<and> list_all2 (runs_config sv peek) cs (states s) \<and>
     (tlsEnabled s \<longrightarrow> cert s \<noteq> None)"

lemma server_inv_state:
  "server_inv sv peek cs s \<Longrightarrow> g < length (states s) \<Longrightarrow> runs_config sv peek (cs ! g) (states s ! g)"
  unfolding server_inv_def using list_all2_nthD2 by blast

lemma server_inv_length: "server_inv sv peek cs s \<Longrightarrow> length cs = length (states s)"
  unfolding server_inv_def using list_all2_lengthD by blast

lemma fresh_set:
  assumes "build_set sv is_print cfg = Inr d" and "\<forall>k. peek (sv_empty sv) k = None"
  shows "set_inv peek (answered d) d"
  using assms(2) by (intro new_set_inv [OF assms(1) [unfolded build_set_def]]) simp

lemma set_inv_providers: "set_inv peek P s \<Longrightarrow> \<forall>cp\<in>set (providers s). provider_answers P (cp_provider cp)"
  by (simp add: set_inv_def)

context lru
begin

lemma decide_on_sound:
  assumes "sv_ops sv = ops" and inv: "server_inv sv peek cs s" and g: "g < length (states s)"
    and d: "decide_on g ctx req (s, w) = ((ok, msg, err), (s', w'))"
  shows "server_inv sv peek cs s'"
    and "err = None" and "msg \<in> replies builtin_public req"
    and "ok \<Longrightarrow> p \<in> host_paths req \<Longrightarrow>
      is_admin (NewAdminRule (AdminUsers (fst (cs ! g))) (AdminGroups (fst (cs ! g))))
        (vouched (answered (snd (cs ! g))) (User req)) \<or>
      granted (sv_os sv) (Allowlist (fst (cs ! g))) (vouched (answered (snd (cs ! g))) (User req)) p"
proof -
  obtain cfg s0 where c: "cs ! g = (cfg, s0)" by fastforce
  let ?a = "states s ! g"
  have a: "decider_of ?a = policy_of sv cfg" "set_inv peek (answered s0) (owned ?a)"
    using server_inv_state [OF inv g] by (simp_all add: c runs_config_def)
  obtain ctx1 w1 where t: "with_timeout ctx (decisionTimeout ?a) w = (ctx1, w1)" by (metis surj_pair)
  obtain ans x w2 where x0: "policy_of sv cfg ctx1 req (owned ?a, w1) = (ans, (x, w2))" by (metis surj_pair)
  then have "decide_on g ctx req (s, w) = (ans, (s\<lparr>states := (states s)[g := ?a\<lparr>owned := x\<rparr>]\<rparr>, w2))"
    by (simp only: decide_on_def Let_def fst_conv snd_conv a(1) t prod.case)
  with d x0 have x: "policy_of sv cfg ctx1 req (owned ?a, w1) = ((ok, msg, err), (x, w'))"
    and s': "s' = s\<lparr>states := (states s)[g := ?a\<lparr>owned := x\<rparr>]\<rparr>"
    by simp_all
  have good: "policy_inv (sv_os sv) peek (answered s0) (owned ?a, w1)"
    using inv a(2) by (simp add: policy_inv_def server_inv_def)
  have chain: "decider (policy_of sv cfg) (replies builtin_public) (policy_inv (sv_os sv) peek (answered s0))"
    unfolding policy_of_def assms(1) by (rule builtin_decider)
  show "err = None" "msg \<in> replies builtin_public req"
    using decider.never_fails [OF chain good, of ctx1 req]
      decider.public_reply [OF chain good, of ctx1 req] x by simp_all
  have "policy_inv (sv_os sv) peek (answered s0) (x, w')"
    using decider.keeps [OF chain good, of ctx1 req] x by simp
  then have "runs_config sv peek (cs ! g) (?a\<lparr>owned := x\<rparr>)"
    using server_inv_state [OF inv g] by (simp add: c runs_config_def policy_inv_def)
  then have "list_all2 (runs_config sv peek) cs ((states s)[g := ?a\<lparr>owned := x\<rparr>])"
    using inv list_all2_update_cong [of "runs_config sv peek" cs "states s" "cs ! g" "?a\<lparr>owned := x\<rparr>" g]
    by (simp add: server_inv_def)
  then show "server_inv sv peek cs s'"
    using inv by (simp add: server_inv_def s')
  show "is_admin (NewAdminRule (AdminUsers (fst (cs ! g))) (AdminGroups (fst (cs ! g))))
        (vouched (answered (snd (cs ! g))) (User req)) \<or>
      granted (sv_os sv) (Allowlist (fst (cs ! g))) (vouched (answered (snd (cs ! g))) (User req)) p"
    if "ok" "p \<in> host_paths req"
  proof -
    have "fst (chain_decide (builtin_chain (sv_os sv) ops cfg) ctx1 req
        (owned ?a, w1)) = (True, msg, err)"
      using x that(1) unfolding policy_of_def assms(1) by simp
    from decide_host_paths [OF good this that(2)] show ?thesis by (simp add: c)
  qed
qed

lemma reload_sound:
  assumes "sv_ops sv = ops" and "\<forall>k. peek (sv_empty sv) k = None"
    and inv: "server_inv sv peek cs s" and b: "build_set sv is_print cfg = Inr d"
    and p: "reload_pair load_pair (Server cfg) (tlsEnabled s) = Inr c"
  shows "server_inv sv peek (cs @ [(cfg, d)]) (swap_in sv (policy_of sv cfg) cfg d c s)"
proof -
  have "set_inv peek (answered d) (set_flush ops d)"
    by (rule set_flush_inv, rule set_inv_providers, rule fresh_set, rule b, rule assms(2))
  then have "runs_config sv peek (cfg, d)
      \<lparr>decider_of = policy_of sv cfg, decisionTimeout = DecisionTimeout (Server cfg),
       owned = set_flush (sv_ops sv) d\<rparr>"
    using b by (auto simp: runs_config_def assms(1))
  then show ?thesis
    using inv p by (auto simp: server_inv_def reload_pair_def list_all2_appendI split: option.splits sum.splits if_splits)
qed

text \<open>The server is itself a decider.\<close>

lemma Decide_decider:
  assumes "sv_ops sv = ops"
  shows "decider (Decide :: ((('c, 'b) ds_set, 'b, 'k) server, 'b) decider) (replies builtin_public)
    (\<lambda>(s, w). server_inv sv peek cs s)"
proof unfold_locales
  fix ctx req and st :: "(('c, 'b) ds_set, 'b, 'k) server \<times> 'b world"
  assume "(\<lambda>(s, w). server_inv sv peek cs s) st"
  moreover obtain s w where st: "st = (s, w)" by fastforce
  ultimately have inv: "server_inv sv peek cs s" by simp
  then have g: "active s < length (states s)" by (simp add: server_inv_def)
  obtain ok msg err s' w' where d: "decide_on (active s) ctx req (s, w) = ((ok, msg, err), (s', w'))"
    by (metis surj_pair)
  note sound = decide_on_sound [OF assms inv g d]
  show "snd (snd (fst (Decide ctx req st))) = None" "fst (snd (fst (Decide ctx req st))) \<in> replies builtin_public req"
    "(\<lambda>(s, w). server_inv sv peek cs s) (snd (Decide ctx req st))"
    using sound(1-3) by (simp_all add: Decide_def st d)
qed simp

end

text \<open>The services of the program, with the LRU of 4096 entries.\<close>

definition with_lru4096 :: "os_env \<Rightarrow> (yaml_node, 'b) registry \<Rightarrow> meter \<Rightarrow> (lru_list, 'b) services" where
  "with_lru4096 os reg mt =
     \<lparr>sv_os = os, sv_ops = list_lru defaultCacheSize, sv_empty = [], sv_registry = reg, sv_meter = mt\<rparr>"

lemma with_lru4096_fields [simp]:
  "sv_ops (with_lru4096 os reg mt) = list_lru defaultCacheSize" "sv_os (with_lru4096 os reg mt) = os"
  "sv_empty (with_lru4096 os reg mt) = []" "sv_registry (with_lru4096 os reg mt) = reg"
  "sv_meter (with_lru4096 os reg mt) = mt"
  by (simp_all add: with_lru4096_def)

interpretation serving: decider Decide "replies builtin_public"
    "\<lambda>(s, w). server_inv (with_lru4096 os reg mt) map_of cs s" for os reg mt cs
  by (rule lru4096.Decide_decider) simp

subsection \<open>Running\<close>

text \<open>\<open>calls\<close> are the requests that have loaded a state and not answered yet, \<open>served\<close> what
  was answered, with the state that decided. \<open>built\<close> is kept by the model only: for each
  state the configuration and the fresh datasource set it came from.\<close>

record ('c, 'b, 'k) process =
  srv :: "(('c, 'b) ds_set, 'b, 'k) server"
  wrld :: "'b world"
  calls :: "nat \<rightharpoonup> nat"
  served :: "(nat \<times> authz_req \<times> bool \<times> string \<times> go_error option) list"
  built :: "(conf \<times> ('c, 'b) ds_set) list"

text \<open>A request loads the active state, and answers later; a reload succeeds or fails; the
  world (clock, directory) moves. Each of these is one step, as the pointer to the active
  state is atomic.\<close>

inductive step ::
  "('c, 'b) services \<Rightarrow> ('c, 'b, 'k) process \<Rightarrow> ('c, 'b, 'k) process \<Rightarrow> bool" for sv where
  arrive: "calls p i = None \<Longrightarrow> step sv p (p\<lparr>calls := (calls p)(i \<mapsto> active (srv p))\<rparr>)"
| answer: "calls p i = Some g \<Longrightarrow> decide_on g ctx req (srv p, wrld p) = (a, (s', w')) \<Longrightarrow>
     step sv p (p\<lparr>srv := s', wrld := w', calls := (calls p)(i := None), served := served p @ [(g, req, a)]\<rparr>)"
| reload: "Reload sv load_pair is_print (Some cfg) (srv p) = (None, s') \<Longrightarrow>
     build_set sv is_print cfg = Inr d \<Longrightarrow>
     step sv p (p\<lparr>srv := s', built := built p @ [(cfg, d)]\<rparr>)"
| reload_failed: "Reload sv load_pair is_print cfg' (srv p) = (Some e, s') \<Longrightarrow> step sv p (p\<lparr>srv := s'\<rparr>)"
| world_moves: "step sv p (p\<lparr>wrld := w\<rparr>)"

text \<open>A process as \<open>New\<close>, and then \<open>Start\<close>, leave it, its decider built from the same
  configuration.\<close>

definition started_process :: "('c, 'b) services \<Rightarrow> ('c, 'b, 'k) process \<Rightarrow> bool" where
  "started_process sv p \<longleftrightarrow>
     (\<exists>other load_pair is_print cfg d s (m :: unit).
        build_set sv is_print cfg = Inr d \<and>
        New other load_pair (Some cfg) (Some (policy_of sv cfg, d)) (Some m) = Built s \<and>
        (srv p = s \<or> (\<exists>listen. srv p = snd (Start listen s))) \<and>
        calls p = Map.empty \<and> served p = [] \<and> built p = [(cfg, d)])"

inductive reachable :: "('c, 'b) services \<Rightarrow> ('c, 'b, 'k) process \<Rightarrow> bool" for sv where
  start: "started_process sv p \<Longrightarrow> reachable sv p"
| run: "reachable sv p \<Longrightarrow> step sv p p' \<Longrightarrow> reachable sv p'"

inductive_cases stepE: "step sv p p'"

text \<open>What every answer so far has to satisfy.\<close>

definition answer_ok ::
  "os_env \<Rightarrow> conf \<times> ('c, 'b) ds_set \<Rightarrow> authz_req \<Rightarrow> bool \<times> string \<times> go_error option \<Rightarrow> bool" where
  "answer_ok os c req a \<longleftrightarrow>
     (case (c, a) of
        ((cfg, s0), (ok, msg, err)) \<Rightarrow>
          err = None \<and> msg \<in> replies builtin_public req \<and>
          (ok \<longrightarrow> (\<forall>p\<in>host_paths req.
             is_admin (NewAdminRule (AdminUsers cfg) (AdminGroups cfg)) (vouched (answered s0) (User req)) \<or>
             granted os (Allowlist cfg) (vouched (answered s0) (User req)) p)))"

definition process_inv ::
  "('c, 'b) services \<Rightarrow> ('c \<Rightarrow> string \<Rightarrow> cache_entry option) \<Rightarrow> ('c, 'b, 'k) process \<Rightarrow> bool" where
  "process_inv sv peek p \<longleftrightarrow>
     server_inv sv peek (built p) (srv p) \<and> ran (calls p) \<subseteq> {..<length (states (srv p))} \<and>
     list_all (\<lambda>(g, req, a). g < length (built p) \<and> answer_ok (sv_os sv) (built p ! g) req a) (served p)"

text \<open>From a given moment on, everything new is decided by the state that was active then or a
  later one.\<close>

definition since :: "nat \<Rightarrow> nat \<Rightarrow> ('c, 'b, 'k) process \<Rightarrow> bool" where
  "since n g0 p \<longleftrightarrow>
     g0 \<le> active (srv p) \<and> active (srv p) < length (states (srv p)) \<and> (\<forall>g\<in>ran (calls p). g0 \<le> g) \<and>
     list_all (\<lambda>(g, _). g0 \<le> g) (drop n (served p)) \<and> n \<le> length (served p)"

lemma ran_less: "ran m \<subseteq> {..<n} \<Longrightarrow> m i = Some g \<Longrightarrow> g < n"
  by (auto dest: ranI)

lemma ran_del: "ran (m(i := None)) \<subseteq> ran m"
  by (auto simp: ran_def)

lemma Start_fields [simp]:
  "states (snd (Start listen s)) = states s" "active (snd (Start listen s)) = active s"
  "tlsEnabled (snd (Start listen s)) = tlsEnabled s" "cert (snd (Start listen s)) = cert s"
  by (simp_all add: Start_def Let_def split: sum.split)

lemma NewD:
  assumes "New other load_pair (Some cfg) (Some (decide, x)) (Some m) = Built s"
  shows "states s = [\<lparr>decider_of = decide, decisionTimeout = DecisionTimeout (Server cfg), owned = x\<rparr>]"
    and "active s = 0" and "tlsEnabled s \<Longrightarrow> cert s \<noteq> None"
    and "\<not> mux_rejects other (MetricsPath (Server cfg))"
    and "addr s = ListenAddr (Server cfg)" and "\<not> started s"
  using assms
  by (auto simp: New_def Let_def split: if_split_asm sum.split_asm)

context lru
begin

lemma process_inv_start:
  assumes "fair (sv_os sv)" and "\<forall>k. peek (sv_empty sv) k = None" and "started_process sv p"
  shows "process_inv sv peek p"
proof -
  obtain other load_pair is_print cfg d s and m :: unit where b: "build_set sv is_print cfg = Inr d"
    and n: "New other load_pair (Some cfg) (Some (policy_of sv cfg, d)) (Some m) = Built s"
    and srv: "srv p = s \<or> (\<exists>listen. srv p = snd (Start listen s))"
    and p: "calls p = Map.empty" "served p = []" "built p = [(cfg, d)]"
    using assms(3) unfolding started_process_def by blast
  have "runs_config sv peek (cfg, d)
      \<lparr>decider_of = policy_of sv cfg, decisionTimeout = DecisionTimeout (Server cfg), owned = d\<rparr>"
    using b fresh_set [where peek = peek, OF b assms(2)] by (auto simp: runs_config_def)
  moreover have "states (srv p) = states s" "active (srv p) = active s" "tlsEnabled (srv p) = tlsEnabled s"
      "cert (srv p) = cert s"
    using srv by auto
  ultimately show ?thesis
    using NewD [OF n] assms(1) p by (simp add: process_inv_def server_inv_def)
qed

lemma process_inv_step:
  assumes "sv_ops sv = ops" and "\<forall>k. peek (sv_empty sv) k = None"
    and "step sv p p'" and inv: "process_inv sv peek p"
  shows "process_inv sv peek p'"
  using assms(3)
proof (cases rule: step.cases)
  case (arrive i)
  with inv show ?thesis by (auto simp: process_inv_def server_inv_def ran_def)
next
  case (answer i g ctx req a s' w')
  have g: "g < length (states (srv p))"
    using inv answer(2) by (auto simp: process_inv_def dest: ran_less)
  obtain ok msg err where a: "a = (ok, msg, err)" by (metis surj_pair)
  note sound = decide_on_sound [OF assms(1) _ g answer(3) [unfolded a]]
  have si: "server_inv sv peek (built p) (srv p)" using inv by (simp add: process_inv_def)
  have "answer_ok (sv_os sv) (built p ! g) req a"
    using sound(2-4) [OF si] by (cases "built p ! g") (auto simp: answer_ok_def a)
  moreover have "g < length (built p)" using g server_inv_length [OF si] by simp
  ultimately show ?thesis
    using inv sound(1) [OF si] decide_on_fields(4) [OF answer(3)] ran_del [of "calls p" i]
    by (auto simp: process_inv_def answer(1))
next
  case (reload load_pair is_print cfg s' d)
  from reload(2,3) obtain c where c: "reload_pair load_pair (Server cfg) (tlsEnabled (srv p)) = Inr c"
    and s': "s' = swap_in sv (policy_of sv cfg) cfg d c (srv p)"
    by (elim ReloadE) auto
  have si: "server_inv sv peek (built p) (srv p)" using inv by (simp add: process_inv_def)
  show ?thesis
    using inv reload_sound [OF assms(1,2) si reload(3) c] server_inv_length [OF si]
    by (auto simp: process_inv_def reload(1) s' list_all_iff nth_append)
next
  case (reload_failed load_pair is_print cfg' e s')
  with inv show ?thesis by (auto elim!: ReloadE)
next
  case (world_moves w)
  with inv show ?thesis by (simp add: process_inv_def)
qed

lemma reachable_inv:
  assumes "sv_ops sv = ops" and "fair (sv_os sv)" and "\<forall>k. peek (sv_empty sv) k = None"
    and "reachable sv p"
  shows "process_inv sv peek p"
  using assms(4)
proof (induction rule: reachable.induct)
  case (start p)
  then show ?case by (rule process_inv_start [OF assms(2,3)])
next
  case (run p p')
  show ?case by (rule process_inv_step [OF assms(1,3) run(2) run(3)])
qed

end

lemma since_step:
  assumes "step sv p p'" and "since n g0 p"
  shows "since n g0 p'"
  using assms(1)
proof (cases rule: step.cases)
  case (arrive i)
  with assms(2) show ?thesis by (auto simp: since_def ran_def)
next
  case (answer i g ctx req a s' w')
  have "g0 \<le> g" using answer(2) assms(2) by (auto simp: since_def dest: ranI)
  with answer(1) assms(2) decide_on_fields [OF answer(3)] ran_del [of "calls p" i] show ?thesis
    by (auto simp: since_def)
next
  case (reload load_pair is_print cfg s' d)
  then show ?thesis using assms(2) by (elim ReloadE) (auto simp: since_def)
next
  case (reload_failed load_pair is_print cfg' e s')
  with assms(2) show ?thesis by (auto elim!: ReloadE)
next
  case (world_moves w)
  with assms(2) show ?thesis by (simp add: since_def)
qed

lemma since_steps: "(step sv)\<^sup>*\<^sup>* p p' \<Longrightarrow> since n g0 p \<Longrightarrow> since n g0 p'"
  by (induction rule: rtranclp_induct) (blast intro: since_step)+

lemma tls_step:
  assumes "step sv p p'"
  shows "tlsEnabled (srv p') = tlsEnabled (srv p)"
  using assms
proof (cases rule: step.cases)
  case (answer i g ctx req a s' w')
  with decide_on_fields(1) show ?thesis by auto
qed (auto elim!: ReloadE)

lemma reachable_steps: "(step sv)\<^sup>*\<^sup>* p p' \<Longrightarrow> reachable sv p \<Longrightarrow> reachable sv p'"
  by (induction rule: rtranclp_induct) (blast intro: run)+

end
