(* ===== verification/Config_Laws.thy ===== *)
theory Config_Laws
  imports Config
begin

text \<open>What merging, overriding and validating give: unions keep order and lose nothing,
  datasource names stay distinct with the last file winning, only the six listener and
  logging fields can be overridden, and what passes is well-formed.\<close>

subsection \<open>Merging\<close>

lemma unionStrings_dedup: "unionStrings base add = dedup_onto base add"
  by (induction base add rule: unionStrings.induct) simp_all

definition names :: "'r datasource_config list \<Rightarrow> string list" where
  "names ds = map DsName ds"

definition ds_lookup :: "'r datasource_config list \<Rightarrow> string \<Rightarrow> 'r datasource_config option" where
  "ds_lookup ds n = map_of (map (\<lambda>d. (DsName d, d)) ds) n"

lemma ds_index_None: "ds_index base n = None \<longleftrightarrow> n \<notin> set (names base)"
proof -
  have "map fst (zip (map DsName base) [0..<length base]) = map DsName base" by simp
  then have "fst ` set (zip (map DsName base) [0..<length base]) = set (map DsName base)"
    by (metis set_map)
  then show ?thesis by (simp add: ds_index_def names_def map_of_eq_None_iff del: set_map)
qed

lemma ds_index_Some: "ds_index base n = Some i \<Longrightarrow> i < length base \<and> DsName (base ! i) = n"
  by (auto simp: ds_index_def set_zip dest!: map_of_SomeD)

lemma names_replace: "i < length base \<Longrightarrow> DsName (base ! i) = DsName d \<Longrightarrow> names (base[i := d]) = names base"
  by (simp add: names_def map_update) (metis length_map list_update_same_conv nth_map)

lemma names_merge: "names (merge_datasources base ds) = dedup_onto (names base) (names ds)"
proof (induction base ds rule: merge_datasources.induct)
  case (2 base d ds)
  show ?case
  proof (cases "ds_index base (DsName d)")
    case None
    then have "DsName d \<notin> set (names base)" by (simp add: ds_index_None)
    with 2(1) [OF None] None show ?thesis by (simp add: names_def)
  next
    case (Some i)
    then have "DsName d \<in> set (names base)" using ds_index_None [of base "DsName d"] by auto
    with 2(2) [OF Some] Some ds_index_Some [OF Some] show ?thesis
      by (simp add: names_replace) (simp add: names_def)
  qed
qed (simp add: names_def)

lemma lookup_replace:
  assumes "distinct (names base)" and "i < length base" and "DsName (base ! i) = DsName d"
  shows "ds_lookup (base[i := d]) n = (if n = DsName d then Some d else ds_lookup base n)"
proof -
  have "map (\<lambda>d. (DsName d, d)) (base[i := d]) = (map (\<lambda>d. (DsName d, d)) base)[i := (DsName d, d)]"
    by (simp add: map_update)
  moreover have "map_of ((map (\<lambda>d. (DsName d, d)) base)[i := (DsName d, d)]) n =
      (if n = DsName d then Some d else map_of (map (\<lambda>d. (DsName d, d)) base) n)"
    using assms unfolding names_def
  proof (induction base arbitrary: i)
    case (Cons b base)
    show ?case
    proof (cases i)
      case 0
      with Cons.prems show ?thesis by auto
    next
      case (Suc j)
      then have "DsName (base ! j) = DsName d" "j < length base" using Cons.prems by auto
      moreover from this have "DsName b \<noteq> DsName d"
        using Cons.prems(1) by (metis distinct.simps(2) length_map list.simps(9) nth_map nth_mem)
      ultimately show ?thesis using Suc Cons.IH [of j] Cons.prems(1) by auto
    qed
  qed simp
  ultimately show ?thesis by (simp add: ds_lookup_def)
qed

lemma ds_lookup_append:
  "ds_lookup (as @ bs) n = (case ds_lookup as n of None \<Rightarrow> ds_lookup bs n | Some d \<Rightarrow> Some d)"
  by (simp add: ds_lookup_def map_add_def split: option.split)

lemma ds_lookup_single: "ds_lookup [d] n = (if n = DsName d then Some d else None)"
  by (simp add: ds_lookup_def)

lemma ds_lookup_new: "DsName d \<notin> set (names base) \<Longrightarrow> ds_lookup base (DsName d) = None"
  by (auto simp: ds_lookup_def names_def map_of_eq_None_iff)

lemma lookup_append:
  "DsName d \<notin> set (names base) \<Longrightarrow>
     ds_lookup (base @ [d]) n = (if n = DsName d then Some d else ds_lookup base n)"
  by (simp add: ds_lookup_append ds_lookup_single ds_lookup_new split: option.split)

lemma lookup_merge:
  "distinct (names base) \<Longrightarrow>
     ds_lookup (merge_datasources base ds) n =
     (case ds_lookup (rev ds) n of None \<Rightarrow> ds_lookup base n | Some d \<Rightarrow> Some d)"
proof (induction base ds rule: merge_datasources.induct)
  case (2 base d ds)
  have rev_lookup: "ds_lookup (rev (d # ds)) n =
      (case ds_lookup (rev ds) n of None \<Rightarrow> (if n = DsName d then Some d else None) | Some e \<Rightarrow> Some e)"
    by (simp add: ds_lookup_append ds_lookup_single split: option.split)
  show ?case
  proof (cases "ds_index base (DsName d)")
    case None
    then have new: "DsName d \<notin> set (names base)" by (simp add: ds_index_None)
    then have "distinct (names (base @ [d]))" using 2(3) by (simp add: names_def)
    from 2(1) [OF None this] None rev_lookup lookup_append [OF new] show ?thesis
      by (auto split: option.splits)
  next
    case (Some i)
    note i = ds_index_Some [OF Some]
    have "distinct (names (base[i := d]))" using i 2(3) by (simp add: names_replace)
    from 2(2) [OF Some this] Some rev_lookup lookup_replace [OF 2(3)] i show ?thesis
      by (auto split: option.splits)
  qed
qed (simp add: ds_lookup_def)

subsection \<open>Layers only add policy\<close>

text \<open>\<open>b\<close> keeps every policy entry of \<open>a\<close>, in order, and repeats none it did not repeat.\<close>

definition policy_extends :: "'r config \<Rightarrow> 'r config \<Rightarrow> bool" where
  "policy_extends a b \<longleftrightarrow>
     prefix (Allowlist a) (Allowlist b) \<and> prefix (AdminUsers a) (AdminUsers b) \<and>
     prefix (AdminGroups a) (AdminGroups b) \<and> prefix (names (Datasources a)) (names (Datasources b))"

definition policy_distinct :: "'r config \<Rightarrow> bool" where
  "policy_distinct c \<longleftrightarrow>
     distinct (Allowlist c) \<and> distinct (AdminUsers c) \<and> distinct (AdminGroups c) \<and>
     distinct (names (Datasources c))"

lemma policy_extends_refl [simp]: "policy_extends a a"
  by (simp add: policy_extends_def)

lemma policy_extends_trans: "policy_extends a b \<Longrightarrow> policy_extends b c \<Longrightarrow> policy_extends a c"
  unfolding policy_extends_def by (meson prefix_order.trans)

lemma merge_fields_policy:
  "policy_extends cfg (merge_fields present layer cfg) \<and>
   (policy_distinct cfg \<longrightarrow> policy_distinct (merge_fields present layer cfg))"
  by (simp add: merge_fields_def policy_extends_def policy_distinct_def unionStrings_dedup names_merge
      prefix_dedup_onto)

lemma mergeLayer_policy:
  "mergeLayer env cfg file w = (Inr cfg', w') \<Longrightarrow>
     policy_extends cfg cfg' \<and> (policy_distinct cfg \<longrightarrow> policy_distinct cfg')"
  using merge_fields_policy by (auto simp: mergeLayer_def Let_def split: sum.splits prod.splits)

lemma merge_layers_policy:
  "merge_layers env dir es cfg w = (Inr cfg', w') \<Longrightarrow>
     policy_extends cfg cfg' \<and> (policy_distinct cfg \<longrightarrow> policy_distinct cfg')"
proof (induction env dir es cfg w arbitrary: rule: merge_layers.induct)
  case (2 env dir name isDir es cfg w)
  show ?case
  proof (cases "isDir \<or> path_ext name \<noteq> ''.yaml''")
    case True
    with 2 show ?thesis by simp
  next
    case False
    with 2(3) obtain c1 w1 where m: "mergeLayer env cfg (path_join dir name) w = (Inr c1, w1)"
      by (auto split: prod.splits sum.splits)
    with False 2(3) have "merge_layers env dir es c1 w1 = (Inr cfg', w')" by simp
    with 2(2) [OF False m [symmetric]] mergeLayer_policy [OF m] show ?thesis
      by (auto intro: policy_extends_trans)
  qed
qed simp

lemma defaults_policy [simp]:
  "Allowlist (applyDefaults c) = Allowlist c" "AdminUsers (applyDefaults c) = AdminUsers c"
  "AdminGroups (applyDefaults c) = AdminGroups c"
  "names (Datasources (applyDefaults c)) = names (Datasources c)"
  by (simp_all add: applyDefaults_def names_def)

lemma Load_policy_distinct:
  assumes "Load env path w = (Inr cfg, w')"
  shows "policy_distinct cfg"
proof -
  obtain c1 w1 where m: "mergeLayer env zero_config path w = (Inr c1, w1)"
    using assms by (auto simp: Load_def split: prod.splits sum.splits)
  have "policy_distinct (zero_config :: conf)"
    by (simp add: policy_distinct_def zero_config_def names_def)
  with mergeLayer_policy [OF m] have c1: "policy_distinct (c1\<lparr>ConfigDir := d\<rparr>)" for d
    by (simp add: policy_distinct_def)
  obtain es c2 where l: "merge_layers env (conf_dir path (ConfigDir c1)) es
      (c1\<lparr>ConfigDir := conf_dir path (ConfigDir c1)\<rparr>) w1 = (Inr c2, w')"
    and cfg: "cfg = applyDefaults c2"
    using assms m by (auto simp: Load_def Let_def split: prod.splits sum.splits if_splits)
  from merge_layers_policy [OF l] c1 have "policy_distinct c2" by blast
  then show ?thesis by (simp add: cfg policy_distinct_def)
qed

subsection \<open>Validation\<close>

lemma validate_from_Nil:
  "validate_from is_print i seen ds = [] \<longleftrightarrow>
     (\<forall>d\<in>set ds. DsName d \<noteq> [] \<and> DsType d \<noteq> [] \<and> DsName d \<notin> set seen) \<and> distinct (names ds)"
proof (induction ds arbitrary: i seen)
  case (Cons d ds)
  show ?case
  proof (cases "DsName d = [] \<or> DsType d = [] \<or> DsName d \<in> set seen")
    case True
    then show ?thesis by (auto simp: Let_def)
  next
    case False
    then have "validate_from is_print i seen (d # ds) = validate_from is_print (Suc i) (DsName d # seen) ds"
      by (simp add: Let_def)
    then show ?thesis using False by (auto simp only: Cons.IH) (auto simp: names_def image_iff)
  qed
qed (simp add: names_def)

text \<open>What a configuration must be to pass.\<close>

definition valid_config :: "config_env \<Rightarrow> 'r config \<Rightarrow> bool" where
  "valid_config env cfg \<longleftrightarrow>
     valid_level_name (LoggingLevel cfg) \<and> Allowlist cfg \<noteq> [] \<and>
     (ServerCert (Server cfg) = [] \<and> ServerKey (Server cfg) = [] \<or>
      ServerCert (Server cfg) \<noteq> [] \<and> ServerKey (Server cfg) \<noteq> [] \<and>
      stat_file env (ServerCert (Server cfg)) = None \<and> stat_file env (ServerKey (Server cfg)) = None) \<and>
     list_all (\<lambda>d. DsName d \<noteq> [] \<and> DsType d \<noteq> []) (Datasources cfg) \<and> distinct (names (Datasources cfg)) \<and>
     list_all valid_setting
       [HostNetwork (Checks cfg), Privileged (Checks cfg), DockerCP (Checks cfg), DockerExec (Checks cfg)]"

lemma Validate_None: "Validate env is_print cfg = None \<longleftrightarrow> valid_config env cfg"
  by (auto simp: Validate_def issues_of_def valid_config_def validateServerTLS_def Let_def
      validateDatasources_def validate_from_Nil validateChecks_def list_all_iff split: option.splits)

subsection \<open>Overrides and the whole load\<close>

text \<open>The fields neither the environment nor the command line reaches.\<close>

definition same_policy :: "'r config \<Rightarrow> 'r config \<Rightarrow> bool" where
  "same_policy a b \<longleftrightarrow>
     Allowlist a = Allowlist b \<and> Datasources a = Datasources b \<and> Checks a = Checks b \<and>
     AdminUsers a = AdminUsers b \<and> AdminGroups a = AdminGroups b \<and> ConfigDir a = ConfigDir b"

lemma ApplyEnv_policy: "ApplyEnv env is_print cfg = Inr cfg' \<Longrightarrow> same_policy cfg' cfg"
  by (auto simp: ApplyEnv_def Let_def same_policy_def split: option.splits sum.splits)

lemma ApplyFlags_policy: "ApplyFlags env is_print o' cfg = Inr cfg' \<Longrightarrow> same_policy cfg' cfg"
  by (auto simp: ApplyFlags_def flag_fields_def Let_def same_policy_def split: if_splits sum.splits)

lemma LoadFullE:
  assumes "LoadFull env path o' w = (Inr cfg, w')"
  obtains cfg0 cfg1 where "Load env path w = (Inr cfg0, w')"
    and "ApplyEnv env (print_table w) cfg0 = Inr cfg1"
    and "ApplyFlags env (print_table w) o' cfg1 = Inr cfg" and "valid_config env cfg"
  using assms Validate_None
  by (auto simp: LoadFull_def Let_def split: prod.splits sum.splits option.splits)

definition pick :: "string \<Rightarrow> string option \<Rightarrow> string \<Rightarrow> string" where
  "pick flag var file = (if flag \<noteq> [] then flag else case var of Some v \<Rightarrow> v | None \<Rightarrow> file)"

lemma ApplyEnv_fields:
  assumes "ApplyEnv env ip cfg = Inr cfg'"
  shows "LoggingLevel cfg' = override (lookup_env env ''AUTHZ_LOGGING_LEVEL'') (LoggingLevel cfg)"
    and "ListenAddr (Server cfg') = override (lookup_env env ''AUTHZ_SERVER_LISTEN_ADDR'') (ListenAddr (Server cfg))"
    and "ServerCert (Server cfg') = override (lookup_env env ''AUTHZ_SERVER_CERT'') (ServerCert (Server cfg))"
    and "ServerKey (Server cfg') = override (lookup_env env ''AUTHZ_SERVER_KEY'') (ServerKey (Server cfg))"
    and "MetricsPath (Server cfg') = override (lookup_env env ''AUTHZ_SERVER_METRICS_PATH'') (MetricsPath (Server cfg))"
    and "case lookup_env env ''AUTHZ_SERVER_DECISION_TIMEOUT'' of
           None \<Rightarrow> DecisionTimeout (Server cfg') = DecisionTimeout (Server cfg)
         | Some v \<Rightarrow> ParseDuration (float_frac env) v = Inr (DecisionTimeout (Server cfg'))"
  using assms
  by (auto simp: ApplyEnv_def Let_def split: option.split_asm sum.split_asm)

lemma ApplyFlags_fields:
  assumes "ApplyFlags env ip o' cfg = Inr cfg'"
  shows "LoggingLevel cfg' = set_flag (flagLoggingLevel o') (LoggingLevel cfg)"
    and "ListenAddr (Server cfg') = set_flag (flagListenAddr o') (ListenAddr (Server cfg))"
    and "ServerCert (Server cfg') = set_flag (flagServerCert o') (ServerCert (Server cfg))"
    and "ServerKey (Server cfg') = set_flag (flagServerKey o') (ServerKey (Server cfg))"
    and "MetricsPath (Server cfg') = set_flag (flagMetricsPath o') (MetricsPath (Server cfg))"
    and "if flagDecisionTimeout o' = [] then DecisionTimeout (Server cfg') = DecisionTimeout (Server cfg)
         else ParseDuration (float_frac env) (flagDecisionTimeout o') = Inr (DecisionTimeout (Server cfg'))"
  using assms
  by (auto simp: ApplyFlags_def flag_fields_def Let_def split: if_split_asm sum.split_asm)

lemma loaded_config_ok:
  assumes "LoadFull env path o' w = (Inr cfg, w')"
  shows "valid_config env cfg \<and> policy_distinct cfg"
  using assms
proof (rule LoadFullE)
  fix c0 c1
  assume load: "Load env path w = (Inr c0, w')" and e: "ApplyEnv env (print_table w) c0 = Inr c1"
    and f: "ApplyFlags env (print_table w) o' c1 = Inr cfg" and "valid_config env cfg"
  then show ?thesis
    using Load_policy_distinct [OF load] ApplyEnv_policy [OF e] ApplyFlags_policy [OF f]
    by (simp add: policy_distinct_def same_policy_def)
qed

section \<open>Properties of the configuration\<close>

text \<open>An installation to instantiate them on: \<open>config.yaml\<close> sets the allowlist and a closed
  check, one conf.d file adds an entry, and one environment variable is set.\<close>

definition leaf :: "string \<Rightarrow> yaml_node" where
  "leaf v = Node ScalarNode v []"

definition sample_tree :: "string \<Rightarrow> yaml_node" where
  "sample_tree data =
     Node DocumentNode []
       [Node MappingNode []
         ([leaf ''allowlist'', leaf []] @
          (if data = ''main'' then [leaf ''checks'', Node MappingNode [] [leaf ''privileged'', leaf ''deny'']]
           else [leaf ''extra'', leaf []]))]"

definition sample_layer :: "string \<Rightarrow> conf" where
  "sample_layer data =
     (if data = ''main''
      then zero_config\<lparr>Allowlist := [''/data''], Checks := zero_checks\<lparr>Privileged := CheckDeny\<rparr>\<rparr>
      else zero_config\<lparr>Allowlist := [''/data'', ''/srv'']\<rparr>)"

definition sample_env :: "config_env" where
  "sample_env =
     \<lparr>read_file = (\<lambda>p. Inr (if p = ''/etc/a/config.yaml'' then ''main'' else ''extra'')),
      read_dir = (\<lambda>_. Inr [(''10.yaml'', False), (''old'', True), (''x.txt'', False)]),
      stat_file = (\<lambda>_. None),
      lookup_env = (\<lambda>v. if v = ''AUTHZ_LOGGING_LEVEL'' then Some ''debug'' else None),
      yaml_tree = (\<lambda>data. Inr (sample_tree data)),
      yaml_string = (\<lambda>n. Inr (yaml_value n)),
      yaml_common = (\<lambda>dur n. case dur (leaf ''10m'') of Inl e \<Rightarrow> Inl e | Inr d \<Rightarrow> Inr (''ad'', ''ldap'', d)),
      yaml_config = (\<lambda>dur ds data. Inr (sample_layer data)),
      float_frac = (\<lambda>f unit scale. f * unit div scale)\<rparr>"

definition sample_flags :: flag_overrides where
  "sample_flags =
     \<lparr>flagLoggingLevel = [], flagListenAddr = '':8080'', flagServerCert = [], flagServerKey = [],
      flagMetricsPath = [], flagDecisionTimeout = ''1s''\<rparr>"

definition start_world :: "unit world" where
  "start_world =
     \<lparr>clock = (\<lambda>n. int n), ticks = 0, trace = [], print_table = (\<lambda>_. False), backend = ()\<rparr>"

definition sample_loaded :: "conf" where
  "sample_loaded =
     \<lparr>LoggingLevel = ''debug'',
      Server = \<lparr>ListenAddr = '':8080'', ServerCert = [], ServerKey = [], MetricsPath = ''/metrics'',
                DecisionTimeout = second\<rparr>,
      Allowlist = [''/data'', ''/srv''], Datasources = [],
      Checks = \<lparr>HostNetwork = CheckAllow, Privileged = CheckDeny, DockerCP = CheckAllow, DockerExec = CheckAllow\<rparr>,
      AdminUsers = [], AdminGroups = [], ConfigDir = ''/etc/a/conf.d''\<rparr>"

lemma sample_load:
  "fst (LoadFull sample_env ''/etc/a/config.yaml'' sample_flags start_world) = Inr sample_loaded"
  by code_simp

text \<open>Precedence of the overridable fields: a command-line flag that is not empty, else
  an environment variable that is set (even to the empty string), else the files.\<close>

theorem override_precedence:
  assumes "LoadFull env path o' w = (Inr cfg, w')"
  shows "\<exists>file. Load env path w = (Inr file, w') \<and>
    LoggingLevel cfg = set_flag (flagLoggingLevel o')
      (override (lookup_env env ''AUTHZ_LOGGING_LEVEL'') (LoggingLevel file)) \<and>
    ListenAddr (Server cfg) = set_flag (flagListenAddr o')
      (override (lookup_env env ''AUTHZ_SERVER_LISTEN_ADDR'') (ListenAddr (Server file))) \<and>
    ServerCert (Server cfg) = set_flag (flagServerCert o')
      (override (lookup_env env ''AUTHZ_SERVER_CERT'') (ServerCert (Server file))) \<and>
    ServerKey (Server cfg) = set_flag (flagServerKey o')
      (override (lookup_env env ''AUTHZ_SERVER_KEY'') (ServerKey (Server file))) \<and>
    MetricsPath (Server cfg) = set_flag (flagMetricsPath o')
      (override (lookup_env env ''AUTHZ_SERVER_METRICS_PATH'') (MetricsPath (Server file))) \<and>
    (if flagDecisionTimeout o' \<noteq> []
     then ParseDuration (float_frac env) (flagDecisionTimeout o') = Inr (DecisionTimeout (Server cfg))
     else
       (case lookup_env env ''AUTHZ_SERVER_DECISION_TIMEOUT'' of
          None \<Rightarrow> DecisionTimeout (Server cfg) = DecisionTimeout (Server file)
        | Some v \<Rightarrow> ParseDuration (float_frac env) v = Inr (DecisionTimeout (Server cfg))))"
  using assms
proof (rule LoadFullE)
  fix c0 c1
  assume load: "Load env path w = (Inr c0, w')" and e: "ApplyEnv env (print_table w) c0 = Inr c1"
    and f: "ApplyFlags env (print_table w) o' c1 = Inr cfg"
  show ?thesis
    using load ApplyFlags_fields(6) [OF f] ApplyEnv_fields(6) [OF e]
    by (intro exI [of _ c0])
      (auto simp: ApplyFlags_fields(1-5) [OF f] ApplyEnv_fields(1-5) [OF e] split: option.splits if_splits)
qed

lemma override_precedence_witness:
  "LoggingLevel sample_loaded = ''debug'' \<and> ListenAddr (Server sample_loaded) = '':8080''"
proof -
  obtain w' where "LoadFull sample_env ''/etc/a/config.yaml'' sample_flags start_world = (Inr sample_loaded, w')"
    using sample_load by (metis prod.collapse)
  from override_precedence [OF this] show ?thesis
    by (auto simp: sample_flags_def sample_env_def set_flag_def override_def)
qed

text \<open>C32. Security policy lives in the files only: allowlist, datasources, checks and admin
  lists of the loaded configuration are those of the files, whatever the environment and
  the flags say.\<close>

theorem policy_from_files_only:
  assumes "LoadFull env path o' w = (Inr cfg, w')"
  shows "\<exists>file. Load env path w = (Inr file, w') \<and> same_policy cfg file"
  using assms
proof (rule LoadFullE)
  fix c0 c1
  assume load: "Load env path w = (Inr c0, w')" and e: "ApplyEnv env (print_table w) c0 = Inr c1"
    and f: "ApplyFlags env (print_table w) o' c1 = Inr cfg"
  show ?thesis
    using load ApplyEnv_policy [OF e] ApplyFlags_policy [OF f]
    by (intro exI [of _ c0]) (simp add: same_policy_def)
qed

lemma policy_from_files_only_witness:
  "\<exists>file. fst (Load sample_env ''/etc/a/config.yaml'' start_world) = Inr file \<and>
     Allowlist file = [''/data'', ''/srv''] \<and> Privileged (Checks file) = CheckDeny"
proof -
  obtain w' where "LoadFull sample_env ''/etc/a/config.yaml'' sample_flags start_world = (Inr sample_loaded, w')"
    using sample_load by (metis prod.collapse)
  from policy_from_files_only [OF this] obtain c0 where
    load: "Load sample_env ''/etc/a/config.yaml'' start_world = (Inr c0, w')"
    and same: "same_policy sample_loaded c0" by blast
  from same have "Allowlist c0 = Allowlist sample_loaded" "Checks c0 = Checks sample_loaded"
    by (simp_all add: same_policy_def)
  with load show ?thesis by (intro exI [of _ c0]) (simp add: sample_loaded_def)
qed

text \<open>C31. Whatever was loaded is well-formed: a known level, a non-empty allowlist without
  duplicates, TLS files both there or both unset, named, typed and distinct datasources,
  checks that are \<open>allow\<close> or \<open>deny\<close>.\<close>

theorem loaded_config_valid:
  assumes "LoadFull env path o' w = (Inr cfg, w')"
  shows "valid_config env cfg \<and> policy_distinct cfg"
  using assms by (rule loaded_config_ok)

lemma loaded_config_valid_witness: "valid_config sample_env sample_loaded"
proof -
  obtain w' where "LoadFull sample_env ''/etc/a/config.yaml'' sample_flags start_world = (Inr sample_loaded, w')"
    using sample_load by (metis prod.collapse)
  from loaded_config_valid [OF this] show ?thesis by blast
qed

text \<open>Validation is exact: no issue is reported precisely for the well-formed
  configurations.\<close>

theorem validate_exact: "Validate env is_print cfg = None \<longleftrightarrow> valid_config env cfg"
  by (rule Validate_None)

text \<open>A conf.d file can only add allowlist, admin and datasource entries, after those
  already there and without duplicates; none is removed or reordered.\<close>

theorem layers_only_add:
  assumes "merge_layers env dir es cfg w = (Inr cfg', w')" and "policy_distinct cfg"
  shows "policy_extends cfg cfg' \<and> policy_distinct cfg'"
  using merge_layers_policy [OF assms(1)] assms(2) by blast

lemma layers_only_add_witness:
  "\<exists>cfg'. fst (merge_layers sample_env ''/d'' [(''10.yaml'', False)] (sample_layer ''main'') start_world) = Inr cfg' \<and>
     prefix [''/data''] (Allowlist cfg')"
proof -
  have ok: "is_ok (fst (merge_layers sample_env ''/d'' [(''10.yaml'', False)] (sample_layer ''main'') start_world))"
    by code_simp
  then obtain cfg' w' where m:
    "merge_layers sample_env ''/d'' [(''10.yaml'', False)] (sample_layer ''main'') start_world = (Inr cfg', w')"
    by (metis is_ok_iff prod.collapse)
  have "policy_distinct (sample_layer ''main'')"
    by (simp add: policy_distinct_def sample_layer_def zero_config_def names_def)
  from layers_only_add [OF m this] m show ?thesis
    by (simp add: policy_extends_def sample_layer_def)
qed

text \<open>Datasources merge by name: the last entry of a name wins, a name the layer does
  not have keeps its entry, and the order is that of first appearance.\<close>

theorem datasources_last_wins:
  assumes "distinct (names base)"
  shows "ds_lookup (merge_datasources base ds) n =
      (case ds_lookup (rev ds) n of None \<Rightarrow> ds_lookup base n | Some d \<Rightarrow> Some d) \<and>
    names (merge_datasources base ds) = dedup_onto (names base) (names ds)"
  using lookup_merge [OF assms] names_merge by blast

definition entry :: "string \<Rightarrow> string \<Rightarrow> ds_entry" where
  "entry n t = \<lparr>DsName = n, DsType = t, DsCacheTTL = 0, DsRaw = leaf []\<rparr>"

lemma datasources_last_wins_witness:
  "ds_lookup (merge_datasources [entry ''a'' ''ldap'', entry ''b'' ''ldap''] [entry ''a'' ''x'', entry ''a'' ''y'']) ''a'' =
     Some (entry ''a'' ''y'')"
proof -
  have "distinct (names [entry ''a'' ''ldap'', entry ''b'' ''ldap''])" by (simp add: names_def entry_def)
  then show ?thesis
    by (simp only: datasources_last_wins [THEN conjunct1]) (simp add: ds_lookup_def entry_def)
qed

text \<open>Any number of SIGHUPs, each finding its own files and environment.\<close>

fun sighups ::
  "config_env list \<Rightarrow> string \<Rightarrow> flag_overrides \<Rightarrow> conf \<Rightarrow> 'b world \<Rightarrow> conf \<times> 'b world" where
  "sighups [] path o' store w = (store, w)"
| "sighups (env # envs) path o' store w =
     (let (_, store', w') = on_sighup env path o' store w in sighups envs path o' store' w')"

text \<open>The store never holds a configuration that did not load and validate as a whole:
  after any sequence of reloads, failed ones included, it is the initial one or a
  well-formed one loaded by some reload.\<close>

theorem store_always_valid:
  "fst (sighups envs path o' store w) \<in>
     insert store {cfg. list_ex (\<lambda>env. valid_config env cfg) envs \<and> policy_distinct cfg}"
proof (induction envs arbitrary: store w)
  case (Cons env envs)
  obtain r store' w' where s: "on_sighup env path o' store w = (r, store', w')" by (metis surj_pair)
  have "store' = store \<or> valid_config env store' \<and> policy_distinct store'"
    using s loaded_config_ok
    by (fastforce simp: on_sighup_def Let_def split: prod.splits sum.splits)
  with Cons.IH [of store' w'] s show ?case by auto
qed simp

text \<open>C35. Durations survive being written and read: what \<open>MarshalYAML\<close> prints of any \<open>int64\<close>
  duration, \<open>UnmarshalYAML\<close> reads back as the same duration, when the YAML library hands
  the text over unchanged. (Fractions of a unit are computed in floating point, which is
  exact for the ones \<open>String\<close> prints.)\<close>

theorem duration_roundtrip:
  assumes "- (2 ^ 63) \<le> d" and "d < 2 ^ 63" and "float_exact (float_frac env)"
    and "yaml_string env node = Duration_MarshalYAML d"
  shows "Duration_UnmarshalYAML env is_print node = Inr d"
  using parse_formatted [OF assms(1-3)] assms(4)
  by (simp add: Duration_UnmarshalYAML_def Duration_MarshalYAML_def)

lemma sample_float: "float_exact (float_frac sample_env)"
  by (simp add: float_exact_def sample_env_def div_mult_swap [symmetric])

lemma duration_roundtrip_witness:
  "Duration_UnmarshalYAML sample_env (\<lambda>_. True) (leaf ''1h1m1.5s'') = Inr 3661500000000"
proof -
  have "yaml_string sample_env (leaf ''1h1m1.5s'') = Duration_MarshalYAML 3661500000000"
    by code_simp
  from duration_roundtrip [OF _ _ sample_float this] show ?thesis by simp
qed

end
