(* ===== verification/Examples.thy ===== *)
theory Examples
  imports Policy
begin

text \<open>
  One small installation on which the properties are instantiated: a file system, a
  datasource that knows one user, a configuration with one check closed, and requests.
\<close>

definition sample_lstat :: "string \<Rightarrow> file_kind result" where
  "sample_lstat p =
     (if p \<in> {''/home'', ''/home/alice'', ''/home/bob'', ''/data'', ''/data/app1'', ''/data/app12'', ''/etc''}
      then Inr Directory
      else if p = ''/home/alice/out'' then Inr Symlink
      else Inl ''no such file or directory'')"

definition sample_os :: os_env where
  "sample_os =
     \<lparr>os_getwd = Inr ''/'', os_lstat = sample_lstat, os_readlink = (\<lambda>_. Inr ''../../etc''),
      os_schedule = (\<lambda>n. [0..<n])\<rparr>"

definition sample_values :: resolved where
  "sample_values = [(''USER'', [''alice'']), (''GROUP'', [''dev''])]"

definition sample_provider :: "unit provider" where
  "sample_provider ctx vars w =
     (if read_string vars identityVar = ''CN=alice'' then Inr sample_values else Inl ''not found'', w)"

definition sample_set :: "(lru_list, unit) ds_set" where
  "sample_set =
     \<lparr>providers = [decorated ''ad'' ''ldap'' 0 defaultNegativeCacheTTL sample_provider []]\<rparr>"

definition sample_world :: "unit world" where
  "sample_world =
     \<lparr>clock = (\<lambda>n. 1000000000 * int n), ticks = 0, trace = [], print_table = (\<lambda>_. False), backend = ()\<rparr>"

abbreviation sample_ops :: "lru_list lru_ops" where
  "sample_ops \<equiv> list_lru defaultCacheSize"

abbreviation sample_state :: "(lru_list, unit) policy_state" where
  "sample_state \<equiv> (sample_set, sample_world)"

definition sample_config :: "unit config" where
  "sample_config =
     \<lparr>LoggingLevel = ''info'', Server = zero_server,
      Allowlist = [''/home/$USER'', ''/data/app1''], Datasources = [],
      Checks = \<lparr>HostNetwork = CheckAllow, Privileged = CheckDeny, DockerCP = CheckAllow,
                 DockerExec = CheckDeny\<rparr>,
      AdminUsers = [''root''], AdminGroups = [], ConfigDir = []\<rparr>"

text \<open>A request to create a container, or a volume, with the given body.\<close>

definition request :: "string \<Rightarrow> string \<Rightarrow> string \<Rightarrow> string \<Rightarrow> authz_req" where
  "request user mth uri body =
     zero_req\<lparr>User := user, RequestMethod := mth, RequestURI := uri, RequestBody := body\<rparr>"

definition create_alice :: authz_req where \<open>
  create_alice = request ''CN=alice'' ''POST'' ''/v1.43/containers/create?name=x''
     ''{"HostConfig":{"Binds":["/home/alice:/x:ro"],"Mounts":[{"Type":"bind","Source":"/data/app1"}],"Privileged":true}}''\<close>

definition create_bob :: authz_req where \<open>
  create_bob = request ''CN=alice'' ''POST'' ''/containers/create''
     ''{"HostConfig":{"Binds":["/home/alice:/x","/home/bob:/y"]}}''\<close>

definition create_privileged :: authz_req where \<open>
  create_privileged = request ''CN=alice'' ''POST'' ''/containers/create''
     ''{"HostConfig":{"Privileged":true}}''\<close>

lemma fair_sample [simp]: "fair sample_os"
  by (simp add: fair_def sample_os_def)

lemma fields_request [simp]:
  "User (request u m r b) = u" "RequestMethod (request u m r b) = m"
  "RequestURI (request u m r b) = r" "RequestBody (request u m r b) = b"
  by (simp_all add: request_def)

lemma sample_inv [simp]: "policy_inv sample_os map_of (answered sample_set) sample_state"
proof -
  have "provider_answers (answered sample_set) sample_provider"
    unfolding provider_answers_def answered_def sample_set_def decorated_def
    by (simp, blast)
  then show ?thesis
    by (simp add: policy_inv_def set_inv_def cache_inv_def sample_set_def decorated_def)
qed

lemma binds_alice: "binds (RequestURI create_alice) (RequestBody create_alice) = [''/home/alice'', ''/data/app1'']"
  by code_simp

lemma binds_bob: "binds (RequestURI create_bob) (RequestBody create_bob) = [''/home/alice'', ''/home/bob'']"
  by code_simp

lemma decide_alice:
  "fst (chain_decide (builtin_chain sample_os sample_ops sample_config) background create_alice sample_state) =
     (True, ''mount path(s) /home/alice, /data/app1 allowed'', None)"
  by code_simp

lemma decide_bob:
  "fst (chain_decide (builtin_chain sample_os sample_ops sample_config) background create_bob sample_state) =
     (False, ''CN=alice: mount path /home/bob not allowed'', None)"
  by code_simp

lemma decide_privileged:
  "fst (chain_decide (builtin_chain sample_os sample_ops sample_config) background create_privileged sample_state) =
     (False, ''CN=alice: privileged mode requested and denied by policy'', None)"
  by code_simp

end
