(* ===== verification/Service.thy ===== *)
theory Service
  imports Server_Run Config_Laws Examples
begin

text \<open>
  Properties of the plugin as a service: what a daemon reads from the handler over the
  running server, what a reload can and cannot change, and what every answer of a running
  process satisfies.
\<close>

section \<open>A running process\<close>

definition live_config :: conf where
  "live_config =
     \<lparr>LoggingLevel = ''info'',
      Server = zero_server\<lparr>ListenAddr := '':80'', MetricsPath := ''/metrics'', DecisionTimeout := 2 * second\<rparr>,
      Allowlist = [''/home/$USER'', ''/data/app1''],
      Datasources = [\<lparr>DsName = ''ad'', DsType = ''ldap'', DsCacheTTL = 0, DsRaw = Node MappingNode [] []\<rparr>],
      Checks = \<lparr>HostNetwork = CheckAllow, Privileged = CheckDeny, DockerCP = CheckAllow,
                 DockerExec = CheckDeny\<rparr>,
      AdminUsers = [''root''], AdminGroups = [], ConfigDir = []\<rparr>"

abbreviation live_services :: "(lru_list, unit) services" where
  "live_services \<equiv> with_lru4096 sample_os (register ''ldap'' (\<lambda>_ _. Inr sample_provider) Map.empty) (\<lambda>_. None)"

abbreviation no_print :: "nat \<Rightarrow> bool" where
  "no_print \<equiv> \<lambda>_. False"

lemma live_set: "build_set live_services no_print live_config = Inr sample_set"
  by (simp add: build_set_def NewSet_def new_provider_def register_def lookup_def convertDatasources_def
      newCachedProvider_def newCachedProviderWithClock_def newDatasourceMetrics_def live_config_def sample_set_def)

definition live_server :: "((lru_list, unit) ds_set, unit, unit) server" where
  "live_server =
     \<lparr>tlsEnabled = False, cert = None,
      states = [\<lparr>decider_of = policy_of live_services live_config, decisionTimeout = 2 * second, owned = sample_set\<rparr>],
      active = 0, addr = '':80'', metrics_pattern = ''/metrics'', started = False, listener = None\<rparr>"

definition live_process :: "(lru_list, unit, unit) process" where
  "live_process =
     \<lparr>srv = live_server, wrld = sample_world, calls = Map.empty, served = [],
      built = [(live_config, sample_set)]\<rparr>"

lemma live_New:
  "New (\<lambda>_. False) (\<lambda>_ _. Inl ''none'') (Some live_config) (Some (policy_of live_services live_config, sample_set))
     (Some ()) = Built live_server"
  by (simp add: New_def live_config_def live_server_def zero_server_def mux_rejects_def plain_pattern_def)

lemma live_reachable: "reachable live_services live_process"
  by (rule start) (use live_New live_set in \<open>force simp: started_process_def live_process_def\<close>)

lemma live_answer:
  "fst (decide_on 0 background create_alice (live_server, sample_world)) =
     (True, ''mount path(s) /home/alice, /data/app1 allowed'', None)"
  by code_simp

text \<open>A request arrived and was answered.\<close>

lemma live_run:
  obtains p :: "(lru_list, unit, unit) process" where "(step live_services)\<^sup>*\<^sup>* live_process p"
    and "served p = [(0, create_alice, True, ''mount path(s) /home/alice, /data/app1 allowed'', None)]"
    and "built p = [(live_config, sample_set)]"
proof -
  let ?p = "live_process\<lparr>calls := [0 \<mapsto> 0]\<rparr>"
  have one: "step live_services live_process ?p"
    using arrive [of live_process 0 live_services] by (simp add: live_process_def live_server_def)
  obtain a s' w' where d: "decide_on 0 background create_alice (srv ?p, wrld ?p) = (a, (s', w'))"
    by (metis surj_pair)
  then have "decide_on 0 background create_alice (live_server, sample_world) = (a, (s', w'))"
    by (simp add: live_process_def)
  with live_answer have a: "a = (True, ''mount path(s) /home/alice, /data/app1 allowed'', None)" by simp
  have "step live_services ?p (?p\<lparr>srv := s', wrld := w', calls := (calls ?p)(0 := None),
      served := served ?p @ [(0, create_alice, a)]\<rparr>)"
    by (rule answer [OF _ d]) simp
  with one have "(step live_services)\<^sup>*\<^sup>* live_process (?p\<lparr>srv := s', wrld := w', calls := (calls ?p)(0 := None),
      served := served ?p @ [(0, create_alice, a)]\<rparr>)"
    by (meson converse_rtranclp_into_rtranclp r_into_rtranclp)
  from that [OF this] show ?thesis by (simp add: live_process_def a)
qed

text \<open>Safety of the running service, whatever requests, reloads and directory changes
  are interleaved: each answer carries no error and a message the request determines, and
  one that allows makes a host path reachable only if, under the single configuration
  whose state the request had loaded, the caller is an admin or the path is granted, by
  values which the datasources of that same configuration gave for that caller.\<close>

theorem live_policy:
  assumes "lru (sv_ops sv) peek" and "fair (sv_os sv)" and "\<forall>k. peek (sv_empty sv) k = None"
    and "reachable sv p" and "(g, req, ok, msg, err) \<in> set (served p)"
  shows "\<exists>cfg s0. g < length (built p) \<and> built p ! g = (cfg, s0) \<and>
    (\<exists>is_print. build_set sv is_print cfg = Inr s0) \<and> err = None \<and> msg \<in> replies builtin_public req \<and>
    (ok \<longrightarrow> (\<forall>path\<in>host_paths req.
       is_admin (NewAdminRule (AdminUsers cfg) (AdminGroups cfg)) (vouched (answered s0) (User req)) \<or>
       granted (sv_os sv) (Allowlist cfg) (vouched (answered s0) (User req)) path))"
proof -
  have inv: "process_inv sv peek p"
    by (rule lru.reachable_inv [OF assms(1) refl assms(2,3,4)])
  obtain cfg s0 where c: "built p ! g = (cfg, s0)" by fastforce
  have g: "g < length (built p)" "answer_ok (sv_os sv) (cfg, s0) req (ok, msg, err)"
    using inv assms(5) c by (auto simp: process_inv_def list_all_iff)
  have si: "server_inv sv peek (built p) (srv p)" using inv by (simp add: process_inv_def)
  have "runs_config sv peek (cfg, s0) (states (srv p) ! g)"
    using server_inv_state [OF si] server_inv_length [OF si] g(1) c by metis
  with g c show ?thesis by (auto simp: answer_ok_def runs_config_def)
qed

lemma live_policy_witness:
  "granted sample_os [''/home/$USER'', ''/data/app1''] (vouched (answered sample_set) ''CN=alice'') ''/home/alice'' \<or>
   is_admin (NewAdminRule [''root''] []) (vouched (answered sample_set) ''CN=alice'')"
proof -
  obtain p :: "(lru_list, unit, unit) process" where run: "(step live_services)\<^sup>*\<^sup>* live_process p"
    and p: "served p = [(0, create_alice, True, ''mount path(s) /home/alice, /data/app1 allowed'', None)]"
      "built p = [(live_config, sample_set)]"
    by (rule live_run)
  have reach: "reachable live_services p" using run live_reachable by (rule reachable_steps)
  have "''/home/alice'' \<in> host_paths create_alice"
    by (simp add: host_paths_def binds_alice)
  moreover have "User create_alice = ''CN=alice''" by (simp add: create_alice_def)
  moreover have "lru (sv_ops live_services) map_of" using lru4096.lru_axioms by simp
  moreover have "(0, create_alice, True, ''mount path(s) /home/alice, /data/app1 allowed'', None) \<in> set (served p)"
    using p(1) by simp
  ultimately show ?thesis
    using live_policy [OF _ _ _ reach, of map_of] p(2) by (fastforce simp: live_config_def)
qed

text \<open>C19. A reload is all or nothing. If it fails, nothing of the server has changed. If it
  succeeds, the mode (TLS or plain HTTP) is the one the server was built with, the new
  state decides by the new configuration and its timeout with empty caches, the loaded key
  pair is the one served, and the states which requests still hold are untouched.\<close>

theorem reload_all_or_nothing:
  assumes "Reload sv load_pair is_print cfg' s = (r, s')"
  shows "(r \<noteq> None \<longrightarrow> s' = s) \<and>
    (r = None \<longrightarrow> (\<exists>cfg d. cfg' = Some cfg \<and> build_set sv is_print cfg = Inr d \<and>
       tlsEnabled s' = tlsEnabled s \<and> tlsEnabled s = (ServerCert (Server cfg) \<noteq> []) \<and>
       active s' = length (states s) \<and> take (length (states s)) (states s') = states s \<and>
       states s' ! active s' =
         \<lparr>decider_of = policy_of sv cfg, decisionTimeout = DecisionTimeout (Server cfg),
          owned = set_flush (sv_ops sv) d\<rparr> \<and>
       (if tlsEnabled s
        then map_option Inr (cert s') = Some (load_pair (ServerCert (Server cfg)) (ServerKey (Server cfg)))
        else cert s' = cert s)))"
  using assms
proof (rule ReloadE)
  fix cfg d c
  assume r: "r = None" "cfg' = Some cfg" "build_set sv is_print cfg = Inr d"
      "reload_pair load_pair (Server cfg) (tlsEnabled s) = Inr c" "s' = swap_in sv (policy_of sv cfg) cfg d c s"
      "tlsEnabled s = (ServerCert (Server cfg) \<noteq> [])"
  then have "if tlsEnabled s
      then map_option Inr (cert s') = Some (load_pair (ServerCert (Server cfg)) (ServerKey (Server cfg)))
      else cert s' = cert s"
    by (auto simp: reload_pair_def split: sum.splits if_splits)
  with r show ?thesis by simp
qed simp

lemma reload_all_or_nothing_witness:
  "active (snd (Reload live_services (\<lambda>_ _. Inl ''none'') no_print (Some live_config) live_server)) = 1 \<and>
   snd (Reload live_services (\<lambda>_ _. Inl ''none'') no_print None live_server) = live_server"
proof -
  have "fst (Reload live_services (\<lambda>_ _. Inl ''none'') no_print (Some live_config) live_server) = None"
    "fst (Reload live_services (\<lambda>_ _. Inl ''none'') no_print None live_server) \<noteq> None"
    by code_simp+
  with reload_all_or_nothing [OF prod.collapse [symmetric], of live_services "\<lambda>_ _. Inl ''none''" no_print _ live_server]
  show ?thesis by (metis One_nat_def length_Cons list.size(3) live_server_def server.select_convs(3))
qed

text \<open>C20. A reload takes effect: from a moment when no request is in flight, whatever is
  answered later is decided by the state active then or by one installed later, never by
  an older configuration.\<close>

theorem no_stale_policy:
  assumes "lru (sv_ops sv) peek" and "fair (sv_os sv)" and "\<forall>k. peek (sv_empty sv) k = None"
    and "reachable sv p" and "calls p = Map.empty" and "(step sv)\<^sup>*\<^sup>* p p'"
    and "(g, req, a) \<in> set (drop (length (served p)) (served p'))"
  shows "active (srv p) \<le> g"
proof -
  have "process_inv sv peek p"
    by (rule lru.reachable_inv [OF assms(1) refl assms(2,3,4)])
  then have "since (length (served p)) (active (srv p)) p"
    using assms(5) by (simp add: since_def process_inv_def server_inv_def)
  with assms(6) have "since (length (served p)) (active (srv p)) p'"
    by (rule since_steps)
  with assms(7) show ?thesis by (auto simp: since_def list_all_iff)
qed

lemma no_stale_policy_witness: "active (srv live_process) \<le> 0"
proof -
  obtain p :: "(lru_list, unit, unit) process" where run: "(step live_services)\<^sup>*\<^sup>* live_process p"
    and "served p = [(0, create_alice, True, ''mount path(s) /home/alice, /data/app1 allowed'', None)]"
    by (rule live_run)
  then have "(0, create_alice, True, ''mount path(s) /home/alice, /data/app1 allowed'', None)
      \<in> set (drop (length (served live_process)) (served p))"
    by (simp add: live_process_def)
  moreover have "lru (sv_ops live_services) map_of" "calls live_process = Map.empty"
    using lru4096.lru_axioms by (simp_all add: live_process_def)
  ultimately show ?thesis
    using no_stale_policy [OF _ _ _ live_reachable _ run, of map_of] by fastforce
qed

text \<open>The mode is fixed and TLS always has a certificate to present: over any run, a
  server keeps the mode it was built with, and a TLS handshake never finds none loaded.\<close>

theorem tls_always_served:
  assumes "lru (sv_ops sv) peek" and "fair (sv_os sv)" and "\<forall>k. peek (sv_empty sv) k = None"
    and "reachable sv p" and "(step sv)\<^sup>*\<^sup>* p p'"
  shows "TLSEnabled (srv p') = TLSEnabled (srv p) \<and>
    (TLSEnabled (srv p') \<longrightarrow> (\<exists>c. getCertificate (srv p') = Inr c))"
proof -
  have "tlsEnabled (srv p') = tlsEnabled (srv p)"
    using assms(5) by (induction rule: rtranclp_induct) (auto dest: tls_step)
  moreover have "process_inv sv peek p'"
    by (rule lru.reachable_inv [OF assms(1) refl assms(2,3) reachable_steps [OF assms(5,4)]])
  ultimately show ?thesis
    by (auto simp: TLSEnabled_def getCertificate_def process_inv_def server_inv_def)
qed

definition tls_config :: conf where
  "tls_config = live_config\<lparr>Server := (Server live_config)\<lparr>ServerCert := ''c.pem'', ServerKey := ''k.pem''\<rparr>\<rparr>"

definition tls_process :: "(lru_list, unit, string) process" where
  "tls_process =
     \<lparr>srv = \<lparr>tlsEnabled = True, cert = Some ''pair'',
        states = [\<lparr>decider_of = policy_of live_services tls_config, decisionTimeout = 2 * second, owned = sample_set\<rparr>],
        active = 0, addr = '':80'', metrics_pattern = ''/metrics'', started = False, listener = None\<rparr>,
      wrld = sample_world, calls = Map.empty, served = [], built = [(tls_config, sample_set)]\<rparr>"

lemma tls_reachable: "reachable live_services tls_process"
proof (rule start)
  have "New (\<lambda>_. False) (\<lambda>_ _. Inr ''pair'') (Some tls_config) (Some (policy_of live_services tls_config, sample_set))
     (Some ()) = Built (srv tls_process)"
    by (simp add: New_def tls_config_def live_config_def tls_process_def zero_server_def mux_rejects_def
        plain_pattern_def)
  moreover have "build_set live_services no_print tls_config = Inr sample_set"
    using live_set by (simp add: build_set_def tls_config_def)
  ultimately show "started_process live_services tls_process"
    by (force simp: started_process_def tls_process_def)
qed

lemma tls_always_served_witness: "TLSEnabled (srv tls_process) \<and> (\<exists>c. getCertificate (srv tls_process) = Inr c)"
proof -
  have "lru (sv_ops live_services) map_of" using lru4096.lru_axioms by simp
  moreover have "TLSEnabled (srv tls_process)" by (simp add: TLSEnabled_def tls_process_def)
  ultimately show ?thesis
    using tls_always_served [OF _ _ _ tls_reachable rtranclp.rtrancl_refl, of map_of] by simp
qed

section \<open>The handler\<close>

text \<open>What the daemon reads is what the server decided: a body that decodes is answered
  200, and reading the answer back gives the decision of the active state on the decoded
  request, without an error, its message determined by the request (invalid UTF-8 in it
  replaced by U+FFFD).\<close>

theorem reply_is_decision:
  assumes "lru (sv_ops sv) peek" and "fair (sv_os sv)" and "\<forall>k. peek (sv_empty sv) k = None"
    and "reachable sv p" and "decode_req body = Some req"
  shows "\<exists>ok msg st. Decide ctx req (srv p, emit (TraceReq req) (wrld p)) = ((ok, msg, None), st) \<and>
    msg \<in> replies builtin_public req \<and>
    (let res = fst (handleAuthZRes err_text Decide ctx body (srv p, wrld p))
     in status res = 200 \<and>
        decode_res (payload res) = Some \<lparr>ResAllow = ok, ResMsg = valid_utf8 msg, ResErr = []\<rparr>)"
proof -
  have "process_inv sv peek p"
    by (rule lru.reachable_inv [OF assms(1) refl assms(2,3,4)])
  then have okay: "(\<lambda>(s, w). server_inv sv peek (built p) s) (srv p, wrld p)"
    by (simp add: process_inv_def)
  obtain ok msg x w' where
    "Decide ctx req (srv p, emit (TraceReq req) (wrld p)) = ((ok, msg, None), (x, w'))"
    "msg \<in> replies builtin_public req"
    "handleAuthZRes err_text Decide ctx body (srv p, wrld p) =
      (writeJSON 200 (encode_res \<lparr>ResAllow = ok, ResMsg = msg, ResErr = []\<rparr>),
       (x, emit (TraceRes \<lparr>ResAllow = ok, ResMsg = msg, ResErr = []\<rparr>) w'))"
    by (rule decider.handle_decoded [OF lru.Decide_decider [OF assms(1) refl] okay assms(5)])
  then show ?thesis
    by (simp add: writeJSON_def decode_encode_res valid_utf8_Nil)
qed

definition ping_body :: string where \<open>
  ping_body = ''{"User":"CN=bob","RequestMethod":"GET","RequestURI":"/_ping"}''\<close>

lemma decode_ping: "map_option User (decode_req ping_body) = Some ''CN=bob''"
  by code_simp

lemma reply_is_decision_witness:
  "status (fst (handleAuthZRes (\<lambda>_. []) Decide background ping_body (srv live_process, wrld live_process))) = 200"
proof -
  obtain req where "decode_req ping_body = Some req" using decode_ping by blast
  moreover have "lru (sv_ops live_services) map_of" using lru4096.lru_axioms by simp
  ultimately show ?thesis
    using reply_is_decision [OF _ _ _ live_reachable, of map_of ping_body req background "\<lambda>_. []"]
    by (auto simp: Let_def)
qed

text \<open>Fail closed: whatever decides behind the handler, a body that is not a request is
  answered 400 and read back as a refusal, and nothing is asked, logged or changed.\<close>

theorem malformed_refused:
  assumes "decode_req body = None"
  shows "handleAuthZRes err_text decide ctx body st =
      (writeJSON 400 (encode_res \<lparr>ResAllow = False, ResMsg = [],
         ResErr = ''malformed AuthZReq: '' @ err_text body\<rparr>), st) \<and>
    decode_res (payload (fst (handleAuthZRes err_text decide ctx body st))) =
      Some \<lparr>ResAllow = False, ResMsg = [], ResErr = valid_utf8 (''malformed AuthZReq: '' @ err_text body)\<rparr>"
  using assms by (simp add: handleAuthZRes_def decodeRequest_def writeJSON_def decode_encode_res valid_utf8_Nil)

lemma malformed_refused_witness:
  "snd (handleAuthZRes (\<lambda>_. ''EOF'') Decide background [] (srv live_process, wrld live_process)) =
     (srv live_process, wrld live_process)"
proof -
  have "decode_req [] = None" by code_simp
  then show ?thesis by (simp only: malformed_refused [THEN conjunct1] snd_conv)
qed

text \<open>The two authorization endpoints give the same answers: the one called before
  execution is the one called after it, started one clock reading later and followed by
  exactly one latency measurement, whatever the outcome, bad bodies included.\<close>

theorem endpoints_agree:
  "handleAuthZReq err_text decide ctx body (x, w) =
     (let (res, (x', w')) = handleAuthZRes err_text decide ctx body (x, snd (now w))
      in (res, (x', emit (latency (time_sub (clock w' (ticks w')) (clock w (ticks w)))) (snd (now w')))))"
  by (simp add: handleAuthZReq_def handleAuthZRes_def now_def Let_def split: prod.splits sum.splits)

text \<open>Validation does not look at the metrics path: a configuration that is valid stays
  valid with an empty one or \<open>/\<close>, and then building the server panics on registering it.\<close>

theorem metrics_path_unchecked:
  assumes "Validate env is_print cfg = None" and "pat = [] \<or> pat = ''/''"
  shows "Validate env is_print (cfg\<lparr>Server := (Server cfg)\<lparr>MetricsPath := pat\<rparr>\<rparr>) = None \<and>
    New other load_pair (Some (cfg\<lparr>Server := (Server cfg)\<lparr>MetricsPath := pat\<rparr>\<rparr>)) (Some d) (Some m) = Panic pat"
proof -
  have v: "valid_config env cfg" using assms(1) by (simp add: Validate_None)
  have "mux_rejects other pat" using assms(2) by (auto simp: mux_rejects_def plain_pattern_def)
  with v have "New other load_pair (Some (cfg\<lparr>Server := (Server cfg)\<lparr>MetricsPath := pat\<rparr>\<rparr>)) (Some d) (Some m) =
      Panic pat"
    by (cases d) (auto simp: New_def Let_def valid_config_def)
  with v show ?thesis by (simp add: Validate_None valid_config_def)
qed

lemma metrics_path_unchecked_witness:
  "New (\<lambda>_. False) (\<lambda>_ _. Inl ''none'') (Some (sample_loaded\<lparr>Server := (Server sample_loaded)\<lparr>MetricsPath := []\<rparr>\<rparr>))
     (Some (policy_of live_services live_config, sample_set)) (Some ()) = Panic []"
proof -
  have "Validate sample_env no_print sample_loaded = None" by code_simp
  then show ?thesis by (rule metrics_path_unchecked [OF _ disjI1 [OF refl], THEN conjunct2])
qed

end
