(* ===== verification/Cache_Shared.thy ===== *)
theory Cache_Shared
  imports Cache_Lru
begin

text \<open>
  One datasource's cache shared by any number of callers (\<open>internal/datasources/cache.go\<close>):
  \<open>Resolve\<close> cut at its accesses to shared state, so that other callers, flushes and the
  outside world come in between. The singleflight library is the argument \<open>fops\<close>; the
  locale \<open>flight\<close> states what its documentation promises.
\<close>

subsection \<open>Singleflight\<close>

text \<open>\<open>fl_enter g k\<close>: does a caller of \<open>Do\<close> run its function, or wait for the call under way?
  \<open>fl_leave\<close>: the call of \<open>k\<close> has ended.\<close>

record 'g flight_ops =
  fl_enter :: "'g \<Rightarrow> string \<Rightarrow> bool \<times> 'g"
  fl_leave :: "'g \<Rightarrow> string \<Rightarrow> 'g"

locale flight =
  fixes fops :: "'g flight_ops" and running :: "'g \<Rightarrow> string set"
  assumes enter_leads: "fst (fl_enter fops g k) \<longleftrightarrow> k \<notin> running g"
    and enter_runs: "running (snd (fl_enter fops g k)) = insert k (running g)"
    and leave_ends: "running (fl_leave fops g k) = running g - {k}"

locale shared_cache = lru ops peek + flight fops running
  for ops :: "'c lru_ops" and peek and fops :: "'g flight_ops" and running

text \<open>An instance: the keys under way, as a list.\<close>

definition list_flight :: "string list flight_ops" where
  "list_flight = \<lparr>fl_enter = (\<lambda>g k. (k \<notin> set g, List.insert k g)), fl_leave = (\<lambda>g k. removeAll k g)\<rparr>"

interpretation listed: flight list_flight set
  by unfold_locales (simp_all add: list_flight_def)

interpretation shared4096: shared_cache "list_lru defaultCacheSize" map_of list_flight set
  by unfold_locales

subsection \<open>Callers\<close>

text \<open>Where a caller of \<open>Resolve\<close> is; \<open>start\<close> is the time it began.\<close>

datatype phase =
    Asked
  | Missed (began: int)
  | Entered (began: int)
  | Calling (began: int) (previous: "cache_entry option")
  | Fetched (began: int) (previous: "cache_entry option") (fetched: "resolved result")
  | Published (began: int) (outcome: "resolved result")
  | Waiting (began: int)
  | Got (began: int) (outcome: "resolved result")
  | Answered (outcome: "resolved result")

record caller =
  c_ctx :: go_ctx
  c_vars :: "string go_map"
  c_phase :: phase

definition key :: "caller \<Rightarrow> string" where
  "key c = read_string (c_vars c) identityVar"

text \<open>\<open>said\<close> is kept by the model only: the values the datasource gave, in order.\<close>

record ('c, 'g, 'b) shared =
  decorator :: "('c, 'b) cached_provider"
  flights :: 'g
  outside :: "'b world"
  callers :: "nat \<rightharpoonup> caller"
  said :: "(string \<times> resolved) list"

definition become :: "nat \<Rightarrow> caller \<Rightarrow> phase \<Rightarrow> (nat \<rightharpoonup> caller) \<Rightarrow> (nat \<rightharpoonup> caller)" where
  "become i c ph m = m(i \<mapsto> c\<lparr>c_phase := ph\<rparr>)"

subsection \<open>Steps of a caller\<close>

text \<open>\<open>Resolve\<close> up to \<open>group.Do\<close>.\<close>

definition look_up ::
  "'c lru_ops \<Rightarrow> string \<Rightarrow> ('c, 'b) cached_provider \<Rightarrow> 'b world \<Rightarrow>
     phase \<times> ('c, 'b) cached_provider \<times> 'b world" where
  "look_up ops identity cp w0 =
     (if identity = [] then (Answered (Inl errUnresolved), cp, w0)
      else
        (let (start, w1) = now w0;
             (found, c1) = lru_get ops (cp_cache cp) identity;
             cp1 = cp\<lparr>cp_cache := c1\<rparr>
         in case found of
              None \<Rightarrow> (Missed start, cp1, emit (recordMiss cp1) w1)
            | Some e \<Rightarrow>
                (let (t, w2) = now w1
                 in case servedFresh e t (cp_ttl cp) of
                      None \<Rightarrow> (Missed start, cp1, emit (recordMiss cp1) w2)
                    | Some r \<Rightarrow>
                        (let (t', w3) = now (emit (recordHit cp) w2)
                         in (Answered r, cp1, emit (recordDuration cp ''hit'' (time_sub t' start)) w3)))))"

text \<open>\<open>Resolve\<close> after \<open>group.Do\<close>.\<close>

definition conclude :: "('c, 'b) cached_provider \<Rightarrow> int \<Rightarrow> 'b world \<Rightarrow> 'b world" where
  "conclude cp start w =
     (case now w of (t, w') \<Rightarrow> emit (recordDuration cp ''miss'' (time_sub t start)) w')"

text \<open>The call of \<open>k\<close> ends: everyone who waits for it gets its result.\<close>

definition handed :: "string \<Rightarrow> resolved result \<Rightarrow> caller \<Rightarrow> caller" where
  "handed k r c =
     (case c_phase c of Waiting start \<Rightarrow> if key c = k then c\<lparr>c_phase := Got start r\<rparr> else c | _ \<Rightarrow> c)"

definition hand_out :: "string \<Rightarrow> resolved result \<Rightarrow> (nat \<rightharpoonup> caller) \<Rightarrow> (nat \<rightharpoonup> caller)" where
  "hand_out k r m = (\<lambda>j. map_option (handed k r) (m j))"

text \<open>What caller \<open>i\<close> does next; \<open>None\<close> when it waits or has its answer.\<close>

definition advance ::
  "'c lru_ops \<Rightarrow> 'g flight_ops \<Rightarrow> nat \<Rightarrow> ('c, 'g, 'b) shared \<Rightarrow> ('c, 'g, 'b) shared option" where
  "advance ops fops i s =
     (case callers s i of
        None \<Rightarrow> None
      | Some c \<Rightarrow>
          (case c_phase c of
             Asked \<Rightarrow>
               (let (ph, cp, w) = look_up ops (key c) (decorator s) (outside s)
                in Some (s\<lparr>decorator := cp, outside := w, callers := become i c ph (callers s)\<rparr>))
           | Missed start \<Rightarrow>
               (let (leads, g) = fl_enter fops (flights s) (key c)
                in Some (s\<lparr>flights := g,
                       callers := become i c (if leads then Entered start else Waiting start) (callers s)\<rparr>))
           | Entered start \<Rightarrow>
               (let (prev, cp, w) = start_refresh ops (key c) (decorator s) (outside s)
                in Some (s\<lparr>decorator := cp, outside := w, callers := become i c (Calling start prev) (callers s)\<rparr>))
           | Calling start prev \<Rightarrow>
               (let (r, w) = cp_provider (decorator s) (c_ctx c) (c_vars c) (outside s)
                in Some (s\<lparr>outside := w, callers := become i c (Fetched start prev r) (callers s),
                       said := said s @ (case r of Inl _ \<Rightarrow> [] | Inr v \<Rightarrow> [(key c, v)])\<rparr>))
           | Fetched start prev result \<Rightarrow>
               (let (r, cp, w) = settle ops (key c) prev result (decorator s) (outside s)
                in Some (s\<lparr>decorator := cp, outside := w, callers := become i c (Published start r) (callers s)\<rparr>))
           | Published start r \<Rightarrow>
               Some (s\<lparr>flights := fl_leave fops (flights s) (key c),
                   callers := hand_out (key c) r (become i c (Got start r) (callers s))\<rparr>)
           | Waiting _ \<Rightarrow> None
           | Got start r \<Rightarrow>
               Some (s\<lparr>outside := conclude (decorator s) start (outside s),
                   callers := become i c (Answered r) (callers s)\<rparr>)
           | Answered _ \<Rightarrow> None))"

subsection \<open>Steps of the whole\<close>

inductive shared_step ::
  "'c lru_ops \<Rightarrow> 'g flight_ops \<Rightarrow> ('c, 'g, 'b) shared \<Rightarrow> ('c, 'g, 'b) shared \<Rightarrow> bool" for ops fops where
  call: "callers s i = None \<Longrightarrow>
     shared_step ops fops s (s\<lparr>callers := (callers s)(i \<mapsto> \<lparr>c_ctx = ctx, c_vars = vars, c_phase = Asked\<rparr>)\<rparr>)"
| caller_step: "advance ops fops i s = Some s' \<Longrightarrow> shared_step ops fops s s'"
| flush: "shared_step ops fops s (s\<lparr>decorator := cache_flush ops (decorator s)\<rparr>)"
| outside_moves: "shared_step ops fops s (s\<lparr>outside := w\<rparr>)"

inductive_cases shared_stepE: "shared_step ops fops s s'"

text \<open>Nobody has called yet.\<close>

definition idle :: "('g \<Rightarrow> string set) \<Rightarrow> ('c, 'g, 'b) shared \<Rightarrow> bool" where
  "idle running s \<longleftrightarrow> callers s = Map.empty \<and> running (flights s) = {} \<and> said s = []"

subsection \<open>Leaders and waiters\<close>

fun in_refresh :: "phase \<Rightarrow> bool" where
  "in_refresh (Entered _) = True"
| "in_refresh (Calling _ _) = True"
| "in_refresh (Fetched _ _ _) = True"
| "in_refresh (Published _ _) = True"
| "in_refresh _ = False"

definition at_phase :: "(phase \<Rightarrow> bool) \<Rightarrow> (nat \<rightharpoonup> caller) \<Rightarrow> string \<Rightarrow> nat set" where
  "at_phase Q m k = {i. \<exists>c. m i = Some c \<and> Q (c_phase c) \<and> key c = k}"

abbreviation leaders :: "(nat \<rightharpoonup> caller) \<Rightarrow> string \<Rightarrow> nat set" where
  "leaders \<equiv> at_phase in_refresh"

abbreviation waiters :: "(nat \<rightharpoonup> caller) \<Rightarrow> string \<Rightarrow> nat set" where
  "waiters \<equiv> at_phase is_Waiting"

text \<open>A key is under way exactly when one caller leads it, and only such a key is waited for.\<close>

definition flights_ok :: "('g \<Rightarrow> string set) \<Rightarrow> ('c, 'g, 'b) shared \<Rightarrow> bool" where
  "flights_ok running s \<longleftrightarrow>
     (\<forall>k. if k \<in> running (flights s) then \<exists>i. leaders (callers s) k = {i}
          else leaders (callers s) k = {} \<and> waiters (callers s) k = {}) \<and>
     finite (dom (callers s))"

lemma key_phase [simp]: "key (c\<lparr>c_phase := ph\<rparr>) = key c"
  by (simp add: key_def)

lemma at_phase_become:
  "m i = Some c \<Longrightarrow>
     at_phase Q (become i c ph m) k = (at_phase Q m k - {i}) \<union> (if Q ph \<and> key c = k then {i} else {})"
  by (auto simp: at_phase_def become_def)

lemma handed_fields:
  "key (handed k r c) = key c" "in_refresh (c_phase (handed k r c)) = in_refresh (c_phase c)"
  "is_Waiting (c_phase (handed k r c)) \<longleftrightarrow> is_Waiting (c_phase c) \<and> key c \<noteq> k"
  by (cases "c_phase c"; simp add: handed_def)+

lemma at_phase_hand_out:
  "at_phase Q (hand_out k r m) k' = {i. \<exists>c. m i = Some c \<and> Q (c_phase (handed k r c)) \<and> key c = k'}"
  by (force simp: at_phase_def hand_out_def handed_fields)

lemma leaders_hand_out: "leaders (hand_out k r m) k' = leaders m k'"
  by (simp add: at_phase_hand_out handed_fields) (simp add: at_phase_def)

lemma waiters_hand_out: "waiters (hand_out k r m) k' = (if k' = k then {} else waiters m k')"
  unfolding at_phase_hand_out by (auto simp: handed_fields at_phase_def)

lemma dom_hand_out [simp]: "dom (hand_out k r m) = dom m"
  by (auto simp: hand_out_def dom_def)

lemma dom_become: "m i = Some c \<Longrightarrow> dom (become i c ph m) = dom m"
  by (auto simp: become_def)

lemma at_phase_new:
  "m i = None \<Longrightarrow> \<not> Q (c_phase c) \<Longrightarrow> at_phase Q (m(i \<mapsto> c)) k = at_phase Q m k"
  by (auto simp: at_phase_def)

text \<open>A step that leaves the leadership of its caller as it was.\<close>

lemma flights_ok_become:
  assumes "flights_ok running s" and "callers s i = Some c"
    and "flights s' = flights s" and "callers s' = become i c ph (callers s)"
    and "in_refresh ph = in_refresh (c_phase c)" and "\<not> is_Waiting ph"
  shows "flights_ok running s'"
proof -
  have "leaders (callers s') k = leaders (callers s) k" for k
    using assms(2,4,5) by (auto simp: at_phase_become) (auto simp: at_phase_def)
  moreover have "waiters (callers s') k \<subseteq> waiters (callers s) k" for k
    using assms(2,4,6) by (auto simp: at_phase_become)
  ultimately show ?thesis
    using assms(1-4) unfolding flights_ok_def by (fastforce simp: dom_become)
qed

lemma look_up_phase:
  "look_up ops k cp w = (ph, cp', w') \<Longrightarrow> \<not> in_refresh ph \<and> \<not> is_Waiting ph"
  by (auto simp: look_up_def Let_def split: if_splits prod.splits option.splits)

context shared_cache
begin

lemma enterE:
  assumes "fl_enter fops g k = (leads, g')"
  shows "leads \<longleftrightarrow> k \<notin> running g" and "running g' = insert k (running g)"
  using enter_leads [of g k] enter_runs [of g k] assms by simp_all

lemma flights_ok_enter:
  assumes inv: "flights_ok running s" and c: "callers s i = Some c" "c_phase c = Missed start"
    and e: "fl_enter fops (flights s) (key c) = (leads, g)"
  shows "flights_ok running (s\<lparr>flights := g,
    callers := become i c (if leads then Entered start else Waiting start) (callers s)\<rparr>)"
proof (cases leads)
  case True
  then have "leaders (callers s) (key c) = {}" "waiters (callers s) (key c) = {}"
    using inv enterE [OF e] by (auto simp: flights_ok_def)
  moreover have "i \<notin> leaders (callers s) k" "i \<notin> waiters (callers s) k" for k
    using c by (auto simp: at_phase_def)
  ultimately show ?thesis
    using inv c True enterE [OF e] by (simp add: flights_ok_def at_phase_become dom_become)
next
  case False
  moreover have "i \<notin> leaders (callers s) k" for k
    using c by (auto simp: at_phase_def)
  ultimately show ?thesis
    using inv c enterE [OF e] by (auto simp: flights_ok_def at_phase_become dom_become insert_absorb)
qed

lemma flights_ok_leave:
  assumes inv: "flights_ok running s" and c: "callers s i = Some c" "c_phase c = Published start r"
  shows "flights_ok running (s\<lparr>flights := fl_leave fops (flights s) (key c),
    callers := hand_out (key c) r (become i c (Got start r) (callers s))\<rparr>)"
proof -
  have "i \<in> leaders (callers s) (key c)" using c by (auto simp: at_phase_def)
  then have "leaders (callers s) (key c) = {i}"
    using inv unfolding flights_ok_def by (metis empty_iff singletonD)
  moreover have "i \<notin> leaders (callers s) k" if "k \<noteq> key c" for k
    using c that by (auto simp: at_phase_def)
  ultimately show ?thesis
    using inv c
    by (auto simp: flights_ok_def leaders_hand_out waiters_hand_out at_phase_become dom_become leave_ends)
qed

lemma flights_ok_advance:
  assumes inv: "flights_ok running s" and a: "advance ops fops i s = Some s'"
  shows "flights_ok running s'"
proof -
  obtain c where c: "callers s i = Some c"
    using a by (auto simp: advance_def split: option.splits)
  show ?thesis
  proof (cases "c_phase c")
    case Asked
    obtain ph cp w where l: "look_up ops (key c) (decorator s) (outside s) = (ph, cp, w)" by (metis surj_pair)
    then show ?thesis
      using a c Asked look_up_phase [OF l] by (intro flights_ok_become [OF inv c]) (auto simp: advance_def)
  next
    case (Missed start)
    obtain leads g where e: "fl_enter fops (flights s) (key c) = (leads, g)" by (metis surj_pair)
    show ?thesis using a c Missed e flights_ok_enter [OF inv c Missed e] by (simp add: advance_def)
  next
    case (Published start r)
    then show ?thesis using a c flights_ok_leave [OF inv c Published] by (auto simp: advance_def)
  qed (use a c in \<open>auto simp: advance_def split: prod.splits intro!: flights_ok_become [OF inv c]\<close>)
qed

lemma flights_ok_step: "shared_step ops fops s s' \<Longrightarrow> flights_ok running s \<Longrightarrow> flights_ok running s'"
proof (induction rule: shared_step.induct)
  case (caller_step i s s')
  then show ?case by (blast intro: flights_ok_advance)
qed (auto simp: flights_ok_def at_phase_new)

lemma flights_ok_reachable:
  assumes "(shared_step ops fops)\<^sup>*\<^sup>* s0 s" and "idle running s0"
  shows "flights_ok running s"
  using assms
proof (induction rule: rtranclp_induct)
  case base
  then show ?case by (simp add: idle_def flights_ok_def at_phase_def)
next
  case (step s s')
  then show ?case by (blast intro: flights_ok_step)
qed

end

subsection \<open>Where values come from\<close>

text \<open>The values a caller at this point holds.\<close>

definition kept :: "cache_entry option \<Rightarrow> resolved set" where
  "kept prev = {v. \<exists>e. prev = Some e \<and> hasValue e \<and> v = entry_value e}"

fun carries :: "phase \<Rightarrow> resolved set" where
  "carries (Calling _ prev) = kept prev"
| "carries (Fetched _ prev r) = kept prev \<union> {v. r = Inr v}"
| "carries (Published _ r) = {v. r = Inr v}"
| "carries (Got _ r) = {v. r = Inr v}"
| "carries (Answered r) = {v. r = Inr v}"
| "carries _ = {}"

fun concluded :: "phase \<Rightarrow> bool" where
  "concluded (Got _ _) = True"
| "concluded (Answered _) = True"
| "concluded _ = False"

text \<open>Every value in the cache, or with a caller other than those in \<open>X\<close>, who had their
  answer already, satisfies \<open>P\<close> of its identity.\<close>

definition values_ok ::
  "('c \<Rightarrow> string \<Rightarrow> cache_entry option) \<Rightarrow> (string \<Rightarrow> resolved \<Rightarrow> bool) \<Rightarrow> nat set \<Rightarrow> ('c, 'g, 'b) shared \<Rightarrow> bool" where
  "values_ok peek P X s \<longleftrightarrow>
     cache_inv peek P (decorator s) \<and>
     (\<forall>i c. callers s i = Some c \<longrightarrow>
        (if i \<in> X then concluded (c_phase c) else \<forall>v\<in>carries (c_phase c). P (key c) v)) \<and>
     X \<subseteq> dom (callers s)"

lemma values_ok_mono: "values_ok peek P X s \<Longrightarrow> (\<And>k v. P k v \<Longrightarrow> Q k v) \<Longrightarrow> values_ok peek Q X s"
  unfolding values_ok_def cache_inv_def by (metis (full_types))

lemma values_ok_become:
  assumes "values_ok peek P X s" and "callers s i = Some c" and "callers s' = become i c ph (callers s)"
    and "cache_inv peek P (decorator s')"
    and "i \<in> X \<Longrightarrow> concluded ph" and "i \<notin> X \<Longrightarrow> \<forall>v\<in>carries ph. P (key c) v"
  shows "values_ok peek P X s'"
  using assms by (auto simp: values_ok_def become_def)

lemma handed_concluded: "concluded (c_phase c) \<Longrightarrow> handed k r c = c"
  by (cases "c_phase c") (simp_all add: handed_def)

lemma carries_handed:
  "v \<in> carries (c_phase (handed k r c)) \<Longrightarrow> v \<in> carries (c_phase c) \<or> key c = k \<and> r = Inr v"
  by (cases "c_phase c") (auto simp: handed_def split: if_splits)

lemma values_ok_hand_out:
  assumes "values_ok peek P X s" and "\<And>v. r = Inr v \<Longrightarrow> P k v"
  shows "values_ok peek P X (s\<lparr>flights := g, callers := hand_out k r (callers s)\<rparr>)"
  using assms unfolding values_ok_def
  by (fastforce simp: hand_out_def handed_concluded handed_fields dest: carries_handed)

context shared_cache
begin

lemma look_up_values:
  assumes "look_up ops k cp w = (ph, cp', w')" and "cache_inv peek P cp"
  shows "cache_inv peek P cp' \<and> (\<forall>v\<in>carries ph. P k v) \<and> same_setup cp cp'"
proof -
  obtain found c1 where g: "lru_get ops (cp_cache cp) k = (found, c1)" by fastforce
  show ?thesis
    using assms g lru_getE [OF g]
    by (auto simp: look_up_def Let_def cache_inv_def dest!: servedFresh_value
        split: if_splits prod.splits option.splits)
qed

lemma start_refresh_values:
  assumes "start_refresh ops k cp w = (prev, cp', w')" and "cache_inv peek P cp"
  shows "cache_inv peek P cp' \<and> (\<forall>v\<in>kept prev. P k v) \<and> same_setup cp cp'"
proof -
  obtain prev' c1 where g: "lru_get ops (cp_cache cp) k = (prev', c1)" by fastforce
  show ?thesis
    using assms g lru_getE [OF g] by (auto simp: start_refresh_def cache_inv_def kept_def)
qed

lemma settle_values:
  assumes "settle ops k prev r cp w = (r', cp', w')" and "cache_inv peek P cp"
    and "\<forall>v\<in>kept prev \<union> {v. r = Inr v}. P k v"
  shows "cache_inv peek P cp' \<and> (\<forall>v. r' = Inr v \<longrightarrow> P k v) \<and> same_setup cp cp'"
  using assms
  by (auto simp: settle_def Let_def now_def kept_def intro: cache_inv_add
      split: sum.splits option.splits if_splits)

lemma values_ok_advance:
  assumes inv: "values_ok peek P X s" and a: "advance ops fops i s = Some s'"
    and said: "\<And>k v. (k, v) \<in> set (drop (length (said s)) (said s')) \<Longrightarrow> P k v"
  shows "values_ok peek P X s'"
proof -
  obtain c where c: "callers s i = Some c"
    using a by (auto simp: advance_def split: option.splits)
  have ci: "cache_inv peek P (decorator s)" using inv by (simp add: values_ok_def)
  have X: "i \<notin> X \<or> concluded (c_phase c)" and P: "i \<notin> X \<Longrightarrow> \<forall>v\<in>carries (c_phase c). P (key c) v"
    using inv c unfolding values_ok_def by metis+
  note become = values_ok_become [OF inv c]
  show ?thesis
  proof (cases "c_phase c")
    case Asked
    obtain ph cp w where l: "look_up ops (key c) (decorator s) (outside s) = (ph, cp, w)" by (metis surj_pair)
    with a c X Asked look_up_values [OF l ci] show ?thesis
      by (intro become [of s' ph]) (auto simp: advance_def)
  next
    case (Entered start)
    obtain prev cp w where l: "start_refresh ops (key c) (decorator s) (outside s) = (prev, cp, w)" by (metis surj_pair)
    with a c X Entered start_refresh_values [OF l ci] show ?thesis
      by (intro become [of s' "Calling start prev"]) (auto simp: advance_def)
  next
    case (Calling start prev)
    with a c X P ci said show ?thesis
      by (auto simp: advance_def split: prod.splits sum.splits intro!: become)
  next
    case (Fetched start prev r)
    obtain r' cp w where l: "settle ops (key c) prev r (decorator s) (outside s) = (r', cp, w)" by (metis surj_pair)
    have "i \<notin> X" using X Fetched by simp
    with P Fetched have "\<forall>v\<in>kept prev \<union> {v. r = Inr v}. P (key c) v" by simp
    from settle_values [OF l ci this] a c X Fetched l show ?thesis
      by (intro become [of s' "Published start r'"]) (auto simp: advance_def)
  next
    case (Published start r)
    then have r: "P (key c) v" if "r = Inr v" for v using X P that by simp
    have "values_ok peek P X (s\<lparr>callers := become i c (Got start r) (callers s)\<rparr>)"
      using X Published r ci by (intro become [of _ "Got start r"]) auto
    from values_ok_hand_out [OF this, of r "key c"] r have "values_ok peek P X
        (s\<lparr>flights := g, callers := hand_out (key c) r (become i c (Got start r) (callers s))\<rparr>)" for g
      by simp
    with a c Published show ?thesis by (auto simp: advance_def)
  qed (use a c X P ci in \<open>auto simp: advance_def split: prod.splits if_splits intro!: become\<close>)
qed

lemma said_grows: "shared_step ops fops s s' \<Longrightarrow> prefix (said s) (said s')"
proof (induction rule: shared_step.induct)
  case (caller_step i s s')
  then show ?case
    by (auto simp: advance_def split: option.splits phase.splits prod.splits sum.splits)
qed simp_all

lemma values_ok_step:
  assumes "shared_step ops fops s s'" and "values_ok peek P X s"
    and "\<And>k v. (k, v) \<in> set (drop (length (said s)) (said s')) \<Longrightarrow> P k v"
  shows "values_ok peek P X s'"
  using assms
proof (cases rule: shared_step.cases)
  case (caller_step i)
  then show ?thesis using assms values_ok_advance by blast
next
  case flush
  then show ?thesis using assms(2) by (auto simp: values_ok_def cache_flush_inv)
qed (auto simp: values_ok_def)

text \<open>From the flush on, only what was said since is passed on.\<close>

lemma values_since:
  assumes "(shared_step ops fops)\<^sup>*\<^sup>* s s'" and "values_ok peek (\<lambda>k v. False) X s"
  shows "values_ok peek (\<lambda>k v. (k, v) \<in> set (drop (length (said s)) (said s'))) X s' \<and>
    prefix (said s) (said s')"
  using assms(1)
proof (induction rule: rtranclp_induct)
  case base
  then show ?case using assms(2) by (simp add: values_ok_mono)
next
  case (step s1 s2)
  have p: "prefix (said s) (said s1)" "prefix (said s1) (said s2)"
    using step said_grows by auto
  then obtain xs ys where e: "said s1 = said s @ xs" "said s2 = said s @ xs @ ys"
    by (auto simp: prefix_def)
  let ?P = "\<lambda>k v. (k, v) \<in> set (drop (length (said s)) (said s2))"
  have "values_ok peek ?P X s1"
    by (rule values_ok_mono [OF conjunct1 [OF step.IH]]) (auto simp: e)
  then have "values_ok peek ?P X s2"
    by (rule values_ok_step [OF step.hyps(2)]) (auto simp: e)
  with e show ?case by simp
qed

end

subsection \<open>Everyone gets an answer\<close>

fun rank :: "phase \<Rightarrow> nat" where
  "rank Asked = 7"
| "rank (Missed _) = 6"
| "rank (Entered _) = 5"
| "rank (Calling _ _) = 4"
| "rank (Fetched _ _ _) = 3"
| "rank (Published _ _) = 2"
| "rank (Waiting _) = 2"
| "rank (Got _ _) = 1"
| "rank (Answered _) = 0"

definition work :: "('c, 'g, 'b) shared \<Rightarrow> nat" where
  "work s = (\<Sum>i\<in>dom (callers s). rank (c_phase (the (callers s i))))"

text \<open>Runs in which the callers there are go on, and nothing else happens.\<close>

inductive callers_run ::
  "'c lru_ops \<Rightarrow> 'g flight_ops \<Rightarrow> ('c, 'g, 'b) shared \<Rightarrow> ('c, 'g, 'b) shared \<Rightarrow> bool" for ops fops where
  stop: "callers_run ops fops s s"
| go: "advance ops fops i s = Some s' \<Longrightarrow> callers_run ops fops s' s'' \<Longrightarrow> callers_run ops fops s s''"

lemma rank_handed: "rank (c_phase (handed k r c)) \<le> rank (c_phase c)"
  by (cases "c_phase c") (simp_all add: handed_def)

lemma advance_dom:
  assumes "advance ops fops i s = Some s'"
  shows "dom (callers s') = dom (callers s)"
proof -
  obtain c where "callers s i = Some c" using assms by (auto simp: advance_def split: option.splits)
  then have "\<forall>s'. advance ops fops i s = Some s' \<longrightarrow> dom (callers s') = dom (callers s)"
    by (simp add: advance_def dom_become split: phase.split prod.split)
  with assms show ?thesis by blast
qed

lemma work_drops:
  assumes "finite (dom (callers s))" and a: "advance ops fops i s = Some s'"
  shows "work s' < work s"
proof -
  obtain c where c: "callers s i = Some c" using a by (auto simp: advance_def split: option.splits)
  have le: "rank (c_phase (the (callers s' j))) \<le> rank (c_phase (the (callers s j)))"
    if "j \<in> dom (callers s)" "j \<noteq> i" for j
    using a c that rank_handed
    by (auto simp: advance_def become_def hand_out_def split: phase.splits prod.splits)
  have less: "rank (c_phase (the (callers s' i))) < rank (c_phase (the (callers s i)))"
    using a c
    by (auto simp: advance_def become_def hand_out_def handed_def look_up_def Let_def
        split: phase.splits prod.splits if_splits option.splits)
  have "i \<in> dom (callers s)" using c by blast
  with le less show ?thesis
    unfolding work_def advance_dom [OF a]
    by (intro sum_strict_mono_ex1 [OF assms(1)]) (auto intro: le less_imp_le)
qed

context shared_cache
begin

lemma someone_advances:
  assumes "flights_ok running s" and "callers s i = Some c" and "\<nexists>r. c_phase c = Answered r"
  shows "\<exists>j s'. advance ops fops j s = Some s'"
proof (cases "is_Waiting (c_phase c)")
  case True
  then have "i \<in> waiters (callers s) (key c)" using assms(2) by (auto simp: at_phase_def)
  then obtain j where "leaders (callers s) (key c) = {j}"
    using assms(1) unfolding flights_ok_def by (metis empty_iff)
  then obtain d where "callers s j = Some d" "in_refresh (c_phase d)"
    unfolding at_phase_def by blast
  then have "advance ops fops j s \<noteq> None"
    by (cases "c_phase d") (simp_all add: advance_def split: prod.splits)
  then show ?thesis by blast
next
  case False
  with assms(2,3) have "advance ops fops i s \<noteq> None"
    by (cases "c_phase c") (simp_all add: advance_def split: prod.splits)
  then show ?thesis by blast
qed

lemma all_come_to_an_end:
  "flights_ok running s \<Longrightarrow> \<exists>s'. callers_run ops fops s s' \<and> dom (callers s') = dom (callers s) \<and>
     (\<forall>i c. callers s' i = Some c \<longrightarrow> (\<exists>r. c_phase c = Answered r))"
proof (induction "work s" arbitrary: s rule: less_induct)
  case less
  show ?case
  proof (cases "\<forall>i c. callers s i = Some c \<longrightarrow> (\<exists>r. c_phase c = Answered r)")
    case False
    then obtain i s1 where a: "advance ops fops i s = Some s1"
      using someone_advances [OF less.prems] by blast
    have "work s1 < work s"
      using work_drops [OF _ a] less.prems by (simp add: flights_ok_def)
    from less.hyps [OF this flights_ok_advance [OF less.prems a]] advance_dom [OF a]
    show ?thesis by (metis callers_run.go [OF a])
  qed (blast intro: callers_run.stop)
qed

end

subsection \<open>A caller on its own\<close>

text \<open>\<open>cached_resolve\<close> is the composition of the steps.\<close>

lemma cached_resolve_pieces:
  "cached_resolve ops ctx vars cp w =
     (case look_up ops (read_string vars identityVar) cp w of
        (ph, cp1, w1) \<Rightarrow>
          (case ph of
             Missed start \<Rightarrow>
               (let (prev, cp2, w2) = start_refresh ops (read_string vars identityVar) cp1 w1;
                    (r, w3) = cp_provider cp2 ctx vars w2;
                    (r', cp3, w4) = settle ops (read_string vars identityVar) prev r cp2 w3
                in (r', cp3, conclude cp start w4))
           | Answered r \<Rightarrow> (r, cp1, w1)))"
  by (auto simp: cached_resolve_def look_up_def resolve_miss_def refresh_def conclude_def Let_def
      recordMiss_def recordHit_def recordDuration_def metric_labels_def
      split: prod.splits option.splits)

lemma become_simps [simp]:
  "become i c ph m i = Some (c\<lparr>c_phase := ph\<rparr>)"
  "become i (c\<lparr>c_phase := ph'\<rparr>) ph (become i c ph' m) = become i c ph m"
  by (simp_all add: become_def)

lemma conclude_same: "same_setup cp cp' \<Longrightarrow> conclude cp' start w = conclude cp start w"
  using same_setup_fields [of cp cp'] by (simp add: conclude_def recordDuration_def metric_labels_def)

lemma hand_out_nobody: "waiters m k = {} \<Longrightarrow> hand_out k r m = m"
  by (rule ext) (auto simp: hand_out_def handed_def at_phase_def split: phase.splits option.splits
      intro!: option.map_ident_strong)

lemma callers_run_step: "advance ops fops i s = Some s' \<Longrightarrow> callers_run ops fops s s'"
  by (blast intro: callers_run.intros)

lemma callers_run_trans: "callers_run ops fops s s' \<Longrightarrow> callers_run ops fops s' s'' \<Longrightarrow> callers_run ops fops s s''"
  by (induction rule: callers_run.induct) (blast intro: callers_run.go)+

lemma callers_run_steps: "callers_run ops fops s s' \<Longrightarrow> (shared_step ops fops)\<^sup>*\<^sup>* s s'"
  by (induction rule: callers_run.induct) (blast intro: converse_rtranclp_into_rtranclp caller_step)+

text \<open>Under any interleaving: before the leader \<open>i\<close> has handed out the failure, those of \<open>J\<close> wait for
  it; afterwards they have it.\<close>

definition failing :: "phase \<Rightarrow> bool" where
  "failing ph \<longleftrightarrow>
     (\<exists>start prev err. ph = Fetched start prev (Inl err) \<and> kept prev = {}) \<or>
     (\<exists>start. ph = Published start (Inl errUnresolved))"

definition has_failed :: "phase \<Rightarrow> bool" where
  "has_failed ph \<longleftrightarrow> (\<exists>start. ph = Got start (Inl errUnresolved)) \<or> ph = Answered (Inl errUnresolved)"

definition doomed :: "string \<Rightarrow> nat \<Rightarrow> nat set \<Rightarrow> ('c, 'g, 'b) shared \<Rightarrow> bool" where
  "doomed k i J s \<longleftrightarrow>
     (\<exists>c. callers s i = Some c \<and> key c = k \<and> failing (c_phase c) \<and>
        (\<forall>j\<in>J. \<exists>d. callers s j = Some d \<and> key d = k \<and> is_Waiting (c_phase d))) \<or>
     (\<forall>j\<in>insert i J. \<exists>d. callers s j = Some d \<and> has_failed (c_phase d))"

context shared_cache
begin

lemma runs_alone:
  assumes inv: "flights_ok running s" and c: "callers s i = Some c" "c_phase c = Asked"
    and k: "key c \<notin> running (flights s)"
    and r: "cached_resolve ops (c_ctx c) (c_vars c) (decorator s) (outside s) = (r, cp', w')"
  shows "\<exists>s'. callers_run ops fops s s' \<and> decorator s' = cp' \<and> outside s' = w' \<and>
    callers s' = become i c (Answered r) (callers s) \<and> running (flights s') = running (flights s)"
proof -
  obtain ph cp1 w1 where l: "look_up ops (key c) (decorator s) (outside s) = (ph, cp1, w1)" by (metis surj_pair)
  let ?s1 = "s\<lparr>decorator := cp1, outside := w1, callers := become i c ph (callers s)\<rparr>"
  have a1: "advance ops fops i s = Some ?s1" using c l by (simp add: advance_def)
  have "(\<exists>start. ph = Missed start) \<or> (\<exists>r. ph = Answered r)"
    using l by (auto simp: look_up_def Let_def split: if_splits prod.splits option.splits)
  then show ?thesis
  proof (elim disjE exE)
    fix r' assume "ph = Answered r'"
    then show ?thesis
      using r l callers_run_step [OF a1] by (auto simp: cached_resolve_pieces key_def intro!: exI [of _ ?s1])
  next
    fix start assume ph: "ph = Missed start"
    obtain leads g where e: "fl_enter fops (flights s) (key c) = (leads, g)" by (metis surj_pair)
    have leads: "leads" using enterE [OF e] k by simp
    obtain prev cp2 w2 where sr: "start_refresh ops (key c) cp1 w1 = (prev, cp2, w2)" by (metis surj_pair)
    obtain res w3 where p: "cp_provider cp2 (c_ctx c) (c_vars c) w2 = (res, w3)" by (metis surj_pair)
    obtain r' cp3 w4 where st: "settle ops (key c) prev res cp2 w3 = (r', cp3, w4)" by (metis surj_pair)
    have res: "r = r'" "cp' = cp3" "w' = conclude (decorator s) start w4"
      using r l ph sr p st by (simp_all add: cached_resolve_pieces key_def)
    have "cache_inv peek (\<lambda>_ _. True) cp" for cp :: "('c, 'd) cached_provider" by (simp add: cache_inv_def)
    note any = this
    have "same_setup (decorator s) cp1" using look_up_values [OF l any] by simp
    moreover have "same_setup cp1 cp2" using start_refresh_values [OF sr any] by simp
    moreover have "same_setup cp2 cp3" using settle_values [OF st any] by simp
    ultimately have "same_setup (decorator s) cp3" by (blast intro: same_setup_trans)
    note same = conclude_same [OF this]
    let ?s2 = "?s1\<lparr>flights := g, callers := become i c (Entered start) (callers s)\<rparr>"
    let ?s3 = "?s2\<lparr>decorator := cp2, outside := w2, callers := become i c (Calling start prev) (callers s)\<rparr>"
    let ?s4 = "?s3\<lparr>outside := w3, callers := become i c (Fetched start prev res) (callers s),
      said := said s @ (case res of Inl _ \<Rightarrow> [] | Inr v \<Rightarrow> [(key c, v)])\<rparr>"
    let ?s5 = "?s4\<lparr>decorator := cp3, outside := w4, callers := become i c (Published start r) (callers s)\<rparr>"
    let ?s6 = "?s5\<lparr>flights := fl_leave fops g (key c), callers := become i c (Got start r) (callers s)\<rparr>"
    let ?s7 = "?s6\<lparr>outside := w', callers := become i c (Answered r) (callers s)\<rparr>"
    have "waiters (callers s) (key c) = {}" using inv k by (simp add: flights_ok_def)
    then have "hand_out (key c) r (become i c (Got start r) (callers s)) = become i c (Got start r) (callers s)"
      using c by (intro hand_out_nobody) (simp add: at_phase_become)
    then have steps: "advance ops fops i ?s1 = Some ?s2" "advance ops fops i ?s2 = Some ?s3"
        "advance ops fops i ?s3 = Some ?s4" "advance ops fops i ?s4 = Some ?s5"
        "advance ops fops i ?s5 = Some ?s6" "advance ops fops i ?s6 = Some ?s7"
      using c ph e leads sr p st res same by (simp_all add: advance_def split: sum.split)
    have "callers_run ops fops s ?s7"
      by (rule callers_run.go [OF a1], rule callers_run.go [OF steps(1)], rule callers_run.go [OF steps(2)],
          rule callers_run.go [OF steps(3)], rule callers_run.go [OF steps(4)],
          rule callers_run.go [OF steps(5)], rule callers_run_step [OF steps(6)])
    moreover have "running (fl_leave fops g (key c)) = running (flights s)"
      using k by (simp add: leave_ends enterE(2) [OF e])
    ultimately show ?thesis using res by (intro exI [of _ ?s7]) simp
  qed
qed

lemma settle_failed:
  assumes "settle ops k prev (Inl err) cp w = (r, cp', w')" and "kept prev = {}"
  shows "r = Inl errUnresolved"
    and "peek (cp_cache cp') k = Some (negative_entry (clock w (ticks w) + cp_negTTL cp))"
  using assms
  by (auto simp: settle_def now_def Let_def add_same kept_def split: option.splits if_splits)

text \<open>The leader's next steps after a failed call, taken at once.\<close>

lemma failure_handed_out:
  assumes c: "callers s i = Some c" "c_phase c = Calling start prev" "kept prev = {}"
    and p: "cp_provider (decorator s) (c_ctx c) (c_vars c) (outside s) = (Inl err, w)"
    and s1: "advance ops fops i s = Some s1"
  shows "\<exists>s2 s'. advance ops fops i s1 = Some s2 \<and> advance ops fops i s2 = Some s' \<and>
    (\<forall>j d start'. callers s j = Some d \<longrightarrow> c_phase d = Waiting start' \<longrightarrow> key d = key c \<longrightarrow>
       callers s' j = Some (d\<lparr>c_phase := Got start' (Inl errUnresolved)\<rparr>)) \<and>
    peek (cp_cache (decorator s')) (key c) =
      Some (negative_entry (clock w (ticks w) + cp_negTTL (decorator s)))"
proof -
  obtain r cp w' where st: "settle ops (key c) prev (Inl err) (decorator s) w = (r, cp, w')" by (metis surj_pair)
  note f = settle_failed [OF st c(3)]
  let ?s1 = "s\<lparr>outside := w, callers := become i c (Fetched start prev (Inl err)) (callers s)\<rparr>"
  let ?s2 = "?s1\<lparr>decorator := cp, outside := w', callers := become i c (Published start r) (callers s)\<rparr>"
  let ?s3 = "?s2\<lparr>flights := fl_leave fops (flights s) (key c),
    callers := hand_out (key c) r (become i c (Got start r) (callers s))\<rparr>"
  have "advance ops fops i s = Some ?s1" "advance ops fops i ?s1 = Some ?s2" "advance ops fops i ?s2 = Some ?s3"
    using c p st by (simp_all add: advance_def)
  moreover from this(1) have "s1 = ?s1" using s1 by simp
  moreover have "callers ?s3 j = Some (d\<lparr>c_phase := Got start' (Inl errUnresolved)\<rparr>)"
    if "callers s j = Some d" "c_phase d = Waiting start'" "key d = key c" for j d start'
  proof -
    have "j \<noteq> i" using c that by auto
    then show ?thesis using that f(1) by (simp add: hand_out_def become_def handed_def)
  qed
  ultimately show ?thesis using f(2) by (intro exI [of _ ?s2] exI [of _ ?s3]) auto
qed

lemma failing_refreshes: "failing ph \<Longrightarrow> in_refresh ph"
  by (auto simp: failing_def)

lemma advance_others:
  assumes "advance ops fops i s = Some s'" and "callers s j = Some d" and "j \<noteq> i"
  obtains (same) "callers s' j = Some d"
  | (handed) c start r where "callers s i = Some c" "c_phase c = Published start r" "key c = key d"
      "is_Waiting (c_phase d)"
proof -
  obtain c where c: "callers s i = Some c" using assms(1) by (auto simp: advance_def split: option.splits)
  show ?thesis
  proof (cases "\<exists>start r. c_phase c = Published start r \<and> key c = key d \<and> is_Waiting (c_phase d)")
    case False
    then have "callers s' j = Some d"
      using assms c
      by (auto simp: advance_def become_def hand_out_def handed_def split: phase.splits prod.splits)
    then show ?thesis by (rule same)
  qed (use handed c in blast)
qed

lemma doomed_advance:
  assumes a: "advance ops fops n s = Some s'" and ok: "flights_ok running s" and inv: "doomed k i J s"
  shows "doomed k i J s'"
  using inv unfolding doomed_def [of k i J s]
proof (elim disjE exE conjE)
  fix c assume c: "callers s i = Some c" "key c = k" "failing (c_phase c)"
    and J: "\<forall>j\<in>J. \<exists>d. callers s j = Some d \<and> key d = k \<and> is_Waiting (c_phase d)"
  have "\<not> is_Waiting (c_phase c)" using failing_refreshes [OF c(3)] by (cases "c_phase c") simp_all
  with c(1) J have "i \<notin> J" by force
  show ?thesis
  proof (cases "n = i")
    case True
    from c(3) show ?thesis
      unfolding failing_def
    proof (elim disjE exE conjE)
      fix start prev err assume ph: "c_phase c = Fetched start prev (Inl err)" "kept prev = {}"
      obtain r cp w where st: "settle ops (key c) prev (Inl err) (decorator s) (outside s) = (r, cp, w)" by (metis surj_pair)
      then have "s' = s\<lparr>decorator := cp, outside := w, callers := become i c (Published start (Inl errUnresolved)) (callers s)\<rparr>"
        using a True c(1) ph settle_failed(1) [OF st ph(2)] by (simp add: advance_def)
      with J c \<open>i \<notin> J\<close> show ?thesis
        unfolding doomed_def
        by (intro disjI1 exI [of _ "c\<lparr>c_phase := Published start (Inl errUnresolved)\<rparr>"])
          (auto simp: become_def failing_def)
    next
      fix start assume ph: "c_phase c = Published start (Inl errUnresolved)"
      then have s': "callers s' = hand_out k (Inl errUnresolved) (become i c (Got start (Inl errUnresolved)) (callers s))"
        using a True c by (auto simp: advance_def)
      have "\<exists>d. callers s' j = Some d \<and> has_failed (c_phase d)" if "j \<in> insert i J" for j
      proof (cases "j = i")
        case True
        then show ?thesis by (simp add: s' hand_out_def become_def handed_def has_failed_def)
      next
        case False
        with that J obtain d where "callers s j = Some d" "key d = k" "is_Waiting (c_phase d)" by blast
        with False show ?thesis
          by (auto simp: s' hand_out_def become_def handed_def has_failed_def is_Waiting_def)
      qed
      then show ?thesis unfolding doomed_def by blast
    qed
  next
    case False
    have other: "\<not> (\<exists>c' start r. callers s n = Some c' \<and> c_phase c' = Published start r \<and> key c' = k)"
    proof
      assume "\<exists>c' start r. callers s n = Some c' \<and> c_phase c' = Published start r \<and> key c' = k"
      then have "n \<in> leaders (callers s) k" by (auto simp: at_phase_def)
      moreover have "i \<in> leaders (callers s) k" using c failing_refreshes by (auto simp: at_phase_def)
      ultimately show False using ok False unfolding flights_ok_def by (metis empty_iff singletonD)
    qed
    have keep: "callers s' j = Some d" if "callers s j = Some d" "key d = k" "j \<noteq> n" for j d
      by (rule advance_others [OF a that(1,3)]) (use other that in auto)
    have "n \<notin> J"
    proof
      assume "n \<in> J"
      with J obtain d where "callers s n = Some d" "is_Waiting (c_phase d)" by blast
      with a show False by (auto simp: advance_def is_Waiting_def)
    qed
    with J c keep False show ?thesis unfolding doomed_def by metis
  qed
next
  assume all: "\<forall>j\<in>insert i J. \<exists>d. callers s j = Some d \<and> has_failed (c_phase d)"
  have "\<exists>d. callers s' j = Some d \<and> has_failed (c_phase d)" if j: "j \<in> insert i J" for j
  proof -
    from all j obtain d where d: "callers s j = Some d" "has_failed (c_phase d)" by blast
    show ?thesis
    proof (cases "j = n")
      case True
      with a d show ?thesis by (auto simp: has_failed_def advance_def become_def)
    next
      case False
      from a d(1) False show ?thesis
        by (rule advance_others) (use d(2) in \<open>auto simp: has_failed_def\<close>)
    qed
  qed
  then show ?thesis unfolding doomed_def by blast
qed

lemma doomed_step:
  assumes "shared_step ops fops s s'" and "flights_ok running s" and "doomed k i J s"
  shows "doomed k i J s'"
  using assms(1)
proof (cases rule: shared_step.cases)
  case (call n ctx vars)
  then have keep: "callers s' j = Some d" if "callers s j = Some d" for j d using that by auto
  have all: "\<forall>j\<in>X. \<exists>d. callers s' j = Some d \<and> Q d" if "\<forall>j\<in>X. \<exists>d. callers s j = Some d \<and> Q d" for X Q
    using that keep by meson
  from assms(3) show ?thesis
    unfolding doomed_def [of k i J s]
  proof (elim disjE exE conjE)
    fix c assume "callers s i = Some c" "key c = k" "failing (c_phase c)"
      and "\<forall>j\<in>J. \<exists>d. callers s j = Some d \<and> key d = k \<and> is_Waiting (c_phase d)"
    then show ?thesis unfolding doomed_def using keep all [of J "\<lambda>d. key d = k \<and> is_Waiting (c_phase d)"] by blast
  next
    assume "\<forall>j\<in>insert i J. \<exists>d. callers s j = Some d \<and> has_failed (c_phase d)"
    then show ?thesis unfolding doomed_def using all [of "insert i J" "\<lambda>d. has_failed (c_phase d)"] by blast
  qed
next
  case (caller_step n)
  then show ?thesis using doomed_advance assms(2,3) by blast
qed (use assms(3) in \<open>simp_all add: doomed_def\<close>)

lemma doomed_run:
  assumes "(shared_step ops fops)\<^sup>*\<^sup>* s s'" and "flights_ok running s" and "doomed k i J s"
  shows "doomed k i J s'"
proof -
  from assms have "flights_ok running s' \<and> doomed k i J s'"
    by (induction rule: rtranclp_induct) (blast intro: flights_ok_step doomed_step)+
  then show ?thesis by blast
qed

lemma negative_hit:
  assumes "peek (cp_cache cp) k = Some (negative_entry t)" and "k \<noteq> []"
    and "clock w (Suc (ticks w)) < t" and "t \<noteq> 0"
  shows "fst (look_up ops k cp w) = Answered (Inl errUnresolved)"
proof -
  obtain found c1 where g: "lru_get ops (cp_cache cp) k = (found, c1)" by fastforce
  have "servedFresh (negative_entry t) (clock w (Suc (ticks w))) (cp_ttl cp) = Some (Inl errUnresolved)"
    using assms(3,4) by (simp add: servedFresh_def)
  then show ?thesis
    using g lru_getE(1) [OF g] assms(1,2) by (simp add: look_up_def Let_def now_def)
qed

end

section \<open>Properties of the shared cache\<close>

text \<open>A datasource that only answers callers without a deadline.\<close>

definition patient :: "unit provider" where
  "patient ctx vars w =
     (if ctx_deadline ctx = None then Inr [(''USER'', [''u''])] else Inl ''context deadline exceeded'', w)"

definition flying :: "(lru_list, string list, unit) shared" where
  "flying = \<lparr>decorator = decorated ''d'' ''ldap'' 0 defaultNegativeCacheTTL patient [], flights = [],
     outside = \<lparr>clock = (\<lambda>n. int n), ticks = 1, trace = [], print_table = (\<lambda>_. True), backend = ()\<rparr>,
     callers = Map.empty, said = []\<rparr>"

text \<open>Two callers ask for one identity, the first with a deadline; after these steps it is in
  its live call and the other waits for it.\<close>

fun advance_all :: "'c lru_ops \<Rightarrow> 'g flight_ops \<Rightarrow> nat list \<Rightarrow> ('c, 'g, 'b) shared \<Rightarrow> ('c, 'g, 'b) shared option" where
  "advance_all ops fops [] s = Some s"
| "advance_all ops fops (i # is) s = Option.bind (advance ops fops i s) (advance_all ops fops is)"

lemma advance_all_run: "advance_all ops fops is s = Some s' \<Longrightarrow> callers_run ops fops s s'"
  by (induction "is" arbitrary: s) (auto intro: callers_run.intros split: bind_splits)

definition asking :: "int option \<Rightarrow> caller" where
  "asking d = \<lparr>c_ctx = \<lparr>ctx_request = None, ctx_deadline = d\<rparr>, c_vars = [(identityVar, ''k'')], c_phase = Asked\<rparr>"

definition two_callers :: "(lru_list, string list, unit) shared" where
  "two_callers = flying\<lparr>callers := [0 \<mapsto> asking (Some 5), 1 \<mapsto> asking None]\<rparr>"

abbreviation (input) ops4096 :: "lru_list lru_ops" where
  "ops4096 \<equiv> list_lru defaultCacheSize"

lemma flying_idle: "idle set flying"
  by (simp add: idle_def flying_def)

lemma two_callers_reachable: "(shared_step ops fops)\<^sup>*\<^sup>* flying two_callers"
proof -
  let ?one = "flying\<lparr>callers := [0 \<mapsto> asking (Some 5)]\<rparr>"
  have "shared_step ops fops flying ?one"
    using shared_step.call [of flying 0] by (simp add: flying_def asking_def)
  moreover have "shared_step ops fops ?one two_callers"
    using shared_step.call [of ?one 1] by (simp add: flying_def asking_def two_callers_def)
  ultimately show ?thesis by auto
qed

lemma advanced_reachable:
  "advance_all ops fops is two_callers = Some s \<Longrightarrow> (shared_step ops fops)\<^sup>*\<^sup>* flying s"
  using two_callers_reachable [of ops fops] callers_run_steps [OF advance_all_run] by (meson rtranclp_trans)

lemma leader_and_waiter:
  obtains s w where "advance_all ops4096 list_flight [0, 0, 0, 1, 1] two_callers = Some s"
    and "callers s 0 = Some (asking (Some 5)\<lparr>c_phase := Calling 1 None\<rparr>)"
    and "callers s 1 = Some (asking None\<lparr>c_phase := Waiting 2\<rparr>)"
    and "cp_provider (decorator s) (c_ctx (asking (Some 5))) (c_vars (asking (Some 5))) (outside s) =
      (Inl ''context deadline exceeded'', w)"
    and "clock w (ticks w) + cp_negTTL (decorator s) = 30000000003"
proof -
  have "case advance_all ops4096 list_flight [0, 0, 0, 1, 1] two_callers of None \<Rightarrow> False
    | Some s \<Rightarrow> callers s 0 = Some (asking (Some 5)\<lparr>c_phase := Calling 1 None\<rparr>) \<and>
        callers s 1 = Some (asking None\<lparr>c_phase := Waiting 2\<rparr>) \<and>
        (case cp_provider (decorator s) (c_ctx (asking (Some 5))) (c_vars (asking (Some 5))) (outside s) of
           (r, w) \<Rightarrow> r = Inl ''context deadline exceeded'' \<and>
             clock w (ticks w) + cp_negTTL (decorator s) = 30000000003)"
    by code_simp
  then show ?thesis by (auto intro: that split: option.splits prod.splits)
qed

text \<open>C36. At most one refresh of an identity runs at a time: whenever a caller refreshes an
  identity or waits for it, exactly one caller refreshes it, under any interleaving of
  callers, flushes and the world.\<close>

theorem one_refresh:
  assumes "shared_cache ops peek fops running" and "idle running s0"
    and "(shared_step ops fops)\<^sup>*\<^sup>* s0 s"
    and "callers s i = Some c" and "in_refresh (c_phase c) \<or> is_Waiting (c_phase c)"
  shows "\<exists>!j. \<exists>d. callers s j = Some d \<and> in_refresh (c_phase d) \<and> key d = key c"
proof -
  have inv: "flights_ok running s"
    by (rule shared_cache.flights_ok_reachable [OF assms(1,3,2)])
  have "i \<in> leaders (callers s) (key c) \<or> i \<in> waiters (callers s) (key c)"
    using assms(4,5) by (auto simp: at_phase_def)
  then obtain j where "leaders (callers s) (key c) = {j}"
    using inv unfolding flights_ok_def by (metis empty_iff)
  then show ?thesis by (auto simp: at_phase_def set_eq_iff)
qed

lemma one_refresh_witness:
  "\<exists>s. callers s 1 = Some (asking None\<lparr>c_phase := Waiting 2\<rparr>) \<and>
     (\<exists>!j. \<exists>d. callers (s :: (lru_list, string list, unit) shared) j = Some d \<and>
        in_refresh (c_phase d) \<and> key d = ''k'')"
proof -
  obtain s w where s: "advance_all ops4096 list_flight [0, 0, 0, 1, 1] two_callers = Some s"
    "callers s 1 = Some (asking None\<lparr>c_phase := Waiting 2\<rparr>)"
    by (rule leader_and_waiter)
  have "key (asking None) = ''k''" by code_simp
  with one_refresh [OF shared4096.shared_cache_axioms flying_idle advanced_reachable [OF s(1)] s(2)] s(2)
  show ?thesis by (intro exI [of _ s]) simp
qed

text \<open>Every call of \<open>Resolve\<close> can come to its answer: from every reachable state the
  callers there are, left alone, all reach one; no one waits for a call that is not there.\<close>

theorem everyone_answered:
  assumes "shared_cache ops peek fops running" and "idle running s0"
    and "(shared_step ops fops)\<^sup>*\<^sup>* s0 s"
  shows "\<exists>s'. callers_run ops fops s s' \<and> dom (callers s') = dom (callers s) \<and>
    (\<forall>i c. callers s' i = Some c \<longrightarrow> (\<exists>r. c_phase c = Answered r))"
  by (rule shared_cache.all_come_to_an_end [OF assms(1) shared_cache.flights_ok_reachable [OF assms(1,3,2)]])

lemma everyone_answered_witness:
  "\<exists>s' :: (lru_list, string list, unit) shared. dom (callers s') = {0, 1} \<and>
    (\<forall>i c. callers s' i = Some c \<longrightarrow> (\<exists>r. c_phase c = Answered r))"
  using everyone_answered [OF shared4096.shared_cache_axioms flying_idle two_callers_reachable]
  by (auto simp: two_callers_def)

text \<open>C37. Revocation, under concurrency: when \<open>Flush\<close> meets no refresh between its read of the
  cache and its return, every value answered from then on is one the datasource gave after
  the flush.\<close>

theorem flush_revokes_shared:
  assumes "shared_cache ops peek fops running"
    and "\<forall>j d. callers s j = Some d \<longrightarrow> carries (c_phase d) = {} \<or> concluded (c_phase d)"
    and "(shared_step ops fops)\<^sup>*\<^sup>* (s\<lparr>decorator := cache_flush ops (decorator s)\<rparr>) s'"
    and "callers s' i = Some c" and "c_phase c = Answered (Inr v)"
    and "\<forall>d. callers s i = Some d \<longrightarrow> \<not> concluded (c_phase d)"
  shows "(key c, v) \<in> set (drop (length (said s)) (said s'))"
proof -
  let ?s = "s\<lparr>decorator := cache_flush ops (decorator s)\<rparr>"
  let ?X = "{j. \<exists>d. callers s j = Some d \<and> concluded (c_phase d)}"
  have "values_ok peek (\<lambda>k v. False) ?X ?s"
    using assms(2) shared_cache.axioms(1) [OF assms(1)]
    by (auto simp: values_ok_def lru.cache_flush_inv)
  from shared_cache.values_since [OF assms(1,3) this] assms(4-6) show ?thesis
    by (force simp: values_ok_def)
qed

text \<open>The cache as one caller sees it (\<open>cached_resolve\<close>, on which the rules are modelled) is
  one of its interleavings: a caller whose identity nobody refreshes, and whose steps come
  together, gets that function's answer and leaves its state.\<close>

theorem sequential_run:
  assumes "shared_cache ops peek fops running" and "idle running s0"
    and "(shared_step ops fops)\<^sup>*\<^sup>* s0 s"
    and "callers s i = Some c" and "c_phase c = Asked"
    and "\<forall>j d. callers s j = Some d \<longrightarrow> in_refresh (c_phase d) \<longrightarrow> key d \<noteq> key c"
    and "cached_resolve ops (c_ctx c) (c_vars c) (decorator s) (outside s) = (r, cp', w')"
  shows "\<exists>s'. callers_run ops fops s s' \<and> decorator s' = cp' \<and> outside s' = w' \<and>
    callers s' = (callers s)(i \<mapsto> c\<lparr>c_phase := Answered r\<rparr>)"
proof -
  have inv: "flights_ok running s"
    by (rule shared_cache.flights_ok_reachable [OF assms(1,3,2)])
  moreover have "leaders (callers s) (key c) = {}" using assms(6) by (auto simp: at_phase_def)
  ultimately have "key c \<notin> running (flights s)" unfolding flights_ok_def by (metis insert_not_empty)
  from shared_cache.runs_alone [OF assms(1) inv assms(4,5) this assms(7)] show ?thesis
    by (auto simp: become_def)
qed

text \<open>C38. A failure is shared, when no value was known to fall back on: once the leader's live
  call has failed, for whatever reason, its own deadline included, neither the leader nor anyone
  who waits for it ever gets another answer than the failure, whatever is interleaved; the
  leader's next two steps hand it to all of them; and it is then cached for every later caller
  until \<open>negTTL\<close> has passed (for an identity that is not empty and an expiry that is not the
  zero time).\<close>

theorem failure_shared:
  assumes "shared_cache ops peek fops running" and "idle running s0" and "(shared_step ops fops)\<^sup>*\<^sup>* s0 s"
    and "callers s i = Some c" and "c_phase c = Calling start prev" and "kept prev = {}" and "key c \<noteq> []"
    and "cp_provider (decorator s) (c_ctx c) (c_vars c) (outside s) = (Inl err, w)"
    and "advance ops fops i s = Some s1"
    and "clock w (ticks w) + cp_negTTL (decorator s) = t" and "t \<noteq> 0"
  shows "(\<forall>s2 j d. (shared_step ops fops)\<^sup>*\<^sup>* s1 s2 \<longrightarrow> callers s j = Some d \<longrightarrow>
       j = i \<or> key d = key c \<and> is_Waiting (c_phase d) \<longrightarrow>
       (\<exists>e. callers s2 j = Some e \<and> (\<forall>x. c_phase e = Answered x \<longrightarrow> x = Inl errUnresolved))) \<and>
    (\<exists>s2 s'. advance ops fops i s1 = Some s2 \<and> advance ops fops i s2 = Some s' \<and>
       (\<forall>j d start'. callers s j = Some d \<longrightarrow> c_phase d = Waiting start' \<longrightarrow> key d = key c \<longrightarrow>
          callers s' j = Some (d\<lparr>c_phase := Got start' (Inl errUnresolved)\<rparr>)) \<and>
       (\<forall>w'. clock w' (Suc (ticks w')) < t \<longrightarrow>
          fst (look_up ops (key c) (decorator s') w') = Answered (Inl errUnresolved)))"
proof (intro conjI allI impI)
  obtain s2 s' where "advance ops fops i s1 = Some s2" "advance ops fops i s2 = Some s'"
    "\<forall>j d start'. callers s j = Some d \<longrightarrow> c_phase d = Waiting start' \<longrightarrow> key d = key c \<longrightarrow>
       callers s' j = Some (d\<lparr>c_phase := Got start' (Inl errUnresolved)\<rparr>)"
    "peek (cp_cache (decorator s')) (key c) = Some (negative_entry t)"
    using shared_cache.failure_handed_out [OF assms(1,4,5,6,8,9)] assms(10) by blast
  then show "\<exists>s2 s'. advance ops fops i s1 = Some s2 \<and> advance ops fops i s2 = Some s' \<and>
       (\<forall>j d start'. callers s j = Some d \<longrightarrow> c_phase d = Waiting start' \<longrightarrow> key d = key c \<longrightarrow>
          callers s' j = Some (d\<lparr>c_phase := Got start' (Inl errUnresolved)\<rparr>)) \<and>
       (\<forall>w'. clock w' (Suc (ticks w')) < t \<longrightarrow>
          fst (look_up ops (key c) (decorator s') w') = Answered (Inl errUnresolved))"
    using shared_cache.negative_hit [OF assms(1) _ assms(7) _ assms(11)] by blast
next
  fix s2 j d
  assume run: "(shared_step ops fops)\<^sup>*\<^sup>* s1 s2"
    and j: "callers s j = Some d" "j = i \<or> key d = key c \<and> is_Waiting (c_phase d)"
  let ?J = "{j. \<exists>d. callers s j = Some d \<and> key d = key c \<and> is_Waiting (c_phase d)}"
  have "flights_ok running s" by (rule shared_cache.flights_ok_reachable [OF assms(1,3,2)])
  then have ok: "flights_ok running s1" using shared_cache.flights_ok_advance [OF assms(1) _ assms(9)] by blast
  have "callers s1 = become i c (Fetched start prev (Inl err)) (callers s)"
    using assms(4,5,8,9) by (auto simp: advance_def)
  then have "doomed (key c) i ?J s1"
    using assms(4-6) by (auto simp: doomed_def failing_def become_def)
  from shared_cache.doomed_run [OF assms(1) run ok this] j
  show "\<exists>e. callers s2 j = Some e \<and> (\<forall>x. c_phase e = Answered x \<longrightarrow> x = Inl errUnresolved)"
    by (fastforce simp: doomed_def failing_def
        has_failed_def is_Waiting_def)
qed

lemma asking_key: "key (asking d) = ''k''"
  by (simp add: key_def asking_def read_string_def)

lemma failure_shared_witness:
  "\<exists>s' :: (lru_list, string list, unit) shared.
    callers s' 1 = Some (asking None\<lparr>c_phase := Got 2 (Inl errUnresolved)\<rparr>) \<and>
    (\<forall>w'. clock w' (Suc (ticks w')) < 30000000003 \<longrightarrow>
       fst (look_up ops4096 ''k'' (decorator s') w') = Answered (Inl errUnresolved))"
proof -
  obtain s w where s: "advance_all ops4096 list_flight [0, 0, 0, 1, 1] two_callers = Some s"
    "callers s 0 = Some (asking (Some 5)\<lparr>c_phase := Calling 1 None\<rparr>)"
    "callers s 1 = Some (asking None\<lparr>c_phase := Waiting 2\<rparr>)"
    "cp_provider (decorator s) (c_ctx (asking (Some 5))) (c_vars (asking (Some 5))) (outside s) =
      (Inl ''context deadline exceeded'', w)"
    "clock w (ticks w) + cp_negTTL (decorator s) = 30000000003"
    by (rule leader_and_waiter)
  obtain s1 where s1: "advance ops4096 list_flight 0 s = Some s1" using s(2,4) by (simp add: advance_def)
  have k: "key (asking None\<lparr>c_phase := Waiting 2\<rparr>) = key (asking (Some 5)\<lparr>c_phase := Calling 1 None\<rparr>)"
    "key (asking (Some 5)\<lparr>c_phase := Calling 1 None\<rparr>) = ''k''"
    by (simp_all add: asking_key)
  have p: "cp_provider (decorator s) (c_ctx (asking (Some 5)\<lparr>c_phase := Calling 1 None\<rparr>))
      (c_vars (asking (Some 5)\<lparr>c_phase := Calling 1 None\<rparr>)) (outside s) = (Inl ''context deadline exceeded'', w)"
    using s(4) by simp
  have prem: "c_phase (asking (Some 5)\<lparr>c_phase := Calling 1 None\<rparr>) = Calling 1 None" "kept None = {}"
    "key (asking (Some 5)\<lparr>c_phase := Calling 1 None\<rparr>) \<noteq> []" "(30000000003 :: int) \<noteq> 0"
    using k(2) by (simp_all add: kept_def)
  from failure_shared [OF shared4096.shared_cache_axioms flying_idle advanced_reachable [OF s(1)] s(2) prem(1-3) p s1 s(5) prem(4)]
  obtain s' :: "(lru_list, string list, unit) shared" where s': "\<forall>j d start'. callers s j = Some d \<longrightarrow> c_phase d = Waiting start' \<longrightarrow>
        key d = key (asking (Some 5)\<lparr>c_phase := Calling 1 None\<rparr>) \<longrightarrow>
        callers s' j = Some (d\<lparr>c_phase := Got start' (Inl errUnresolved)\<rparr>)"
      "\<forall>w'. clock w' (Suc (ticks w')) < 30000000003 \<longrightarrow>
         fst (look_up ops4096 (key (asking (Some 5)\<lparr>c_phase := Calling 1 None\<rparr>)) (decorator s') w') =
           Answered (Inl errUnresolved)"
    by blast
  from s'(1) [rule_format, OF s(3) _ k(1)] have "callers s' 1 = Some (asking None\<lparr>c_phase := Got 2 (Inl errUnresolved)\<rparr>)"
    by simp
  with s'(2) k(2) show ?thesis by (intro exI [of _ s']) simp
qed

text \<open>The second caller on its own, before and after a flush of an old entry.\<close>

definition one_caller :: "(lru_list, string list, unit) shared" where
  "one_caller = flying\<lparr>callers := [1 \<mapsto> asking None],
     decorator := (decorator flying)\<lparr>cp_cache := [(''k'', positive_entry [] 0)]\<rparr>\<rparr>"

lemma flush_revokes_shared_witness:
  "\<exists>s' v. advance_all ops4096 list_flight [1, 1, 1, 1, 1, 1, 1]
      (one_caller\<lparr>decorator := cache_flush ops4096 (decorator one_caller)\<rparr>) = Some s' \<and>
    (''k'', v) \<in> set (said s')"
proof -
  let ?s = "one_caller\<lparr>decorator := cache_flush ops4096 (decorator one_caller)\<rparr>"
  have "case advance_all ops4096 list_flight [1, 1, 1, 1, 1, 1, 1] ?s of None \<Rightarrow> False
    | Some s' \<Rightarrow> callers s' 1 = Some (asking None\<lparr>c_phase := Answered (Inr [(''USER'', [''u''])])\<rparr>)"
    by code_simp
  then obtain s' where s': "advance_all ops4096 list_flight [1, 1, 1, 1, 1, 1, 1] ?s = Some s'"
      "callers s' 1 = Some (asking None\<lparr>c_phase := Answered (Inr [(''USER'', [''u''])])\<rparr>)"
    by (auto split: option.splits)
  have "\<forall>j d. callers one_caller j = Some d \<longrightarrow> carries (c_phase d) = {} \<and> \<not> concluded (c_phase d)"
    by (auto simp: one_caller_def asking_def)
  with flush_revokes_shared [OF shared4096.shared_cache_axioms _ callers_run_steps [OF advance_all_run [OF s'(1)]] s'(2)]
  show ?thesis using s'(1) by (auto simp: asking_key one_caller_def flying_def)
qed

lemma sequential_run_witness:
  "\<exists>s' :: (lru_list, string list, unit) shared.
    callers s' 0 = Some (asking (Some 5)\<lparr>c_phase := Answered (Inl errUnresolved)\<rparr>) \<and>
    callers s' 1 = Some (asking None)"
proof -
  have c: "callers two_callers 0 = Some (asking (Some 5))" "c_phase (asking (Some 5)) = Asked"
    "\<forall>j d. callers two_callers j = Some d \<longrightarrow> in_refresh (c_phase d) \<longrightarrow> key d \<noteq> key (asking (Some 5))"
    by (auto simp: two_callers_def asking_def)
  obtain r cp' w' where r: "cached_resolve ops4096 (c_ctx (asking (Some 5))) (c_vars (asking (Some 5)))
      (decorator two_callers) (outside two_callers) = (r, cp', w')" by (metis surj_pair)
  have "fst (cached_resolve ops4096 (c_ctx (asking (Some 5))) (c_vars (asking (Some 5)))
      (decorator two_callers) (outside two_callers)) = Inl errUnresolved" by code_simp
  then have "r = Inl errUnresolved" using r by simp
  with sequential_run [OF shared4096.shared_cache_axioms flying_idle two_callers_reachable c r]
  obtain s' :: "(lru_list, string list, unit) shared" where "callers s' = (callers two_callers)
      (0 \<mapsto> asking (Some 5)\<lparr>c_phase := Answered (Inl errUnresolved)\<rparr>)" by blast
  then show ?thesis by (intro exI [of _ s']) (simp add: two_callers_def)
qed

end
