(* ===== verification/Rule_Plans.thy ===== *)
theory Rule_Plans
  imports Policy
begin

text \<open>
  The built-in rules cut at the point where they wait for the datasources
  (\<open>resolveVars\<close>, \<open>internal/rules/reqvars.go\<close>): a rule either decides at once or asks for
  the caller's variables and judges by them. The chain run on these halves is the chain
  of \<open>Rules\<close>; what it can decide, by any variables of a given set, is \<open>outcomes\<close>.
\<close>

subsection \<open>Rules in two halves\<close>

datatype plan = At_once decision | Ask "(string \<rightharpoonup> string list) \<Rightarrow> decision"

text \<open>What a rule does with a request, given Go's table of printable characters.\<close>

type_synonym rule_plan = "authz_req \<Rightarrow> (nat \<Rightarrow> bool) \<Rightarrow> plan"

definition admin_judge :: "admin_rule \<Rightarrow> (nat \<Rightarrow> bool) \<Rightarrow> (string \<rightharpoonup> string list) \<Rightarrow> decision" where
  "admin_judge r is_print resolved =
     (case find (\<lambda>u. u \<in> users r) (read_list resolved ''USER'') of
        Some u \<Rightarrow> adminAllow (''user '' @ quote is_print u @ '' matched admin_users'')
      | None \<Rightarrow>
          (case find (\<lambda>g. g \<in> groups r) (read_list resolved ''GROUP'') of
             Some g \<Rightarrow> adminAllow (''group '' @ quote is_print g @ '' matched admin_groups'')
           | None \<Rightarrow> abstain))"

definition admin_plan :: "admin_rule \<Rightarrow> rule_plan" where
  "admin_plan r req is_print =
     (if users r = {} \<and> groups r = {} then At_once abstain else Ask (admin_judge r is_print))"

definition expanded :: "string list \<Rightarrow> (string \<rightharpoonup> string list) \<Rightarrow> matcher" where
  "expanded patterns resolved = new_matcher (concat (map (\<lambda>pattern. expand pattern resolved) patterns))"

definition mount_judge :: "os_env \<Rightarrow> string list \<Rightarrow> string list \<Rightarrow> (string \<rightharpoonup> string list) \<Rightarrow> decision" where
  "mount_judge os patterns paths resolved =
     (case first_denied paths (check_paths_concurrently os paths (expanded patterns resolved)) of
        Some path \<Rightarrow> deny (mount_deny_msg path)
      | None \<Rightarrow> allow (mount_allow_msg paths))"

definition mount_plan :: "os_env \<Rightarrow> string list \<Rightarrow> rule_plan" where
  "mount_plan os patterns req is_print =
     (let paths = binds (RequestURI req) (RequestBody req)
      in if paths = [] then At_once abstain else Ask (mount_judge os patterns paths))"

definition volume_judge :: "os_env \<Rightarrow> string list \<Rightarrow> string \<Rightarrow> (string \<rightharpoonup> string list) \<Rightarrow> decision" where
  "volume_judge os patterns device resolved =
     (if check_path os (expanded patterns resolved) device then allow (volume_allow_msg device)
      else deny (volume_deny_msg device))"

definition volume_plan :: "os_env \<Rightarrow> string list \<Rightarrow> rule_plan" where
  "volume_plan os patterns req is_print =
     (case volume_bind_device (RequestURI req) (RequestBody req) of
        None \<Rightarrow> At_once abstain
      | Some device \<Rightarrow> Ask (volume_judge os patterns device))"

definition host_network_plan :: "CheckSetting \<Rightarrow> rule_plan" where
  "host_network_plan setting req is_print =
     At_once (if network_mode (RequestURI req) (RequestBody req) \<noteq> Some ''host'' then abstain
       else if setting = CheckDeny then deny ''host networking requested and denied by policy''
       else allow ''host networking requested and permitted by policy'')"

definition privileged_plan :: "CheckSetting \<Rightarrow> rule_plan" where
  "privileged_plan setting req is_print =
     At_once (if privileged (RequestURI req) (RequestBody req) \<noteq> Some True then abstain
       else if setting = CheckDeny then deny ''privileged mode requested and denied by policy''
       else allow ''privileged mode requested and permitted by policy'')"

definition docker_cp_plan :: "CheckSetting \<Rightarrow> rule_plan" where
  "docker_cp_plan setting req is_print =
     At_once (if \<not> is_docker_cp (RequestMethod req) (RequestURI req) then abstain
       else if setting = CheckDeny then deny ''docker cp denied by policy''
       else allow ''docker cp permitted by policy'')"

definition docker_exec_plan :: "CheckSetting \<Rightarrow> rule_plan" where
  "docker_exec_plan setting req is_print =
     At_once (if \<not> is_docker_exec_create (RequestMethod req) (RequestURI req) then abstain
       else if setting = CheckDeny then deny ''docker exec denied by policy''
       else allow ''docker exec permitted by policy'')"

lemmas gate_plan_defs = host_network_plan_def privileged_plan_def docker_cp_plan_def docker_exec_plan_def

definition builtin_plans :: "os_env \<Rightarrow> 'r config \<Rightarrow> rule_plan list" where
  "builtin_plans os cfg =
     [admin_plan (NewAdminRule (AdminUsers cfg) (AdminGroups cfg)),
      mount_plan os (Allowlist cfg),
      volume_plan os (Allowlist cfg),
      host_network_plan (HostNetwork (Checks cfg)),
      privileged_plan (Privileged (Checks cfg)),
      docker_cp_plan (DockerCP (Checks cfg)),
      docker_exec_plan (DockerExec (Checks cfg))]"

text \<open>A rule run in one piece: its two halves around \<open>resolveVars\<close>.\<close>

definition follow :: "os_env \<Rightarrow> 'c lru_ops \<Rightarrow> rule_plan \<Rightarrow> ('c, 'b) policy_state rule" where
  "follow os ops rp ctx req st =
     (case rp req (print_table (snd st)) of
        At_once d \<Rightarrow> (Inr d, st)
      | Ask judge \<Rightarrow> (let (m, st') = resolveVars os ops ctx req st in (Inr (judge m), st')))"

lemma admin_follows: "admin_evaluate os ops r ctx req st = follow os ops (admin_plan r) ctx req st"
  by (auto simp: admin_evaluate_def follow_def admin_plan_def admin_judge_def Let_def
      split: prod.split option.split)

lemma mount_follows: "mount_evaluate os ops (NewMountAllowlistRule patterns) ctx req st = follow os ops (mount_plan os patterns) ctx req st"
  by (auto simp: mount_evaluate_def follow_def mount_plan_def mount_judge_def expanded_def resolveMatcher_def
      Let_def split: prod.split option.split)

lemma volume_follows: "volume_evaluate os ops (NewVolumeBindMountRule patterns) ctx req st = follow os ops (volume_plan os patterns) ctx req st"
  by (auto simp: volume_evaluate_def follow_def volume_plan_def volume_judge_def expanded_def resolveMatcher_def
      Let_def split: prod.split option.split)

lemma gates_follow:
  "host_network_evaluate (NewHostNetworkRule setting) ctx req st = follow os ops (host_network_plan setting) ctx req st"
  "privileged_evaluate (NewPrivilegedRule setting) ctx req st = follow os ops (privileged_plan setting) ctx req st"
  "docker_cp_evaluate (NewDockerCPRule setting) ctx req st = follow os ops (docker_cp_plan setting) ctx req st"
  "docker_exec_evaluate (NewDockerExecRule setting) ctx req st = follow os ops (docker_exec_plan setting) ctx req st"
  by (simp_all add: gate_defs gate_plan_defs follow_def)

lemma builtin_follows: "builtin_chain os ops cfg = map (follow os ops) (builtin_plans os cfg)"
  by (simp add: builtin_chain_def builtin_plans_def fun_eq_iff admin_follows mount_follows volume_follows
      gates_follow [where os = os and ops = ops])

subsection \<open>What the chain can decide\<close>

text \<open>What a rule can say when a question is answered by some map in \<open>M\<close>, and what the chain
  can decide when each question is, not necessarily by the same one each time.\<close>

inductive judges :: "(string \<rightharpoonup> string list) set \<Rightarrow> authz_req \<Rightarrow> rule_plan \<Rightarrow> decision \<Rightarrow> bool" for M req rp where
  at_once: "rp req is_print = At_once d \<Longrightarrow> judges M req rp d"
| asked: "rp req is_print = Ask judge \<Longrightarrow> m \<in> M \<Longrightarrow> judges M req rp (judge m)"

inductive_cases judgesE: "judges M req rp d"

inductive may_decide :: "(string \<rightharpoonup> string list) set \<Rightarrow> authz_req \<Rightarrow> rule_plan list \<Rightarrow> decision \<Rightarrow> bool" for M req where
  silent: "may_decide M req [] abstain"
| active: "judges M req rp d \<Longrightarrow> Verdict d \<noteq> Abstain \<Longrightarrow> may_decide M req (rp # rps) d"
| passed: "judges M req rp e \<Longrightarrow> Verdict e = Abstain \<Longrightarrow> may_decide M req rps d \<Longrightarrow> may_decide M req (rp # rps) d"

inductive_cases may_decideE: "may_decide M req (rp # rps) d"
inductive_simps may_decide_Nil: "may_decide M req [] d"

subsection \<open>The halves' conditions\<close>

lemma admin_judge_spec:
  "\<exists>detail. admin_judge r is_print m = (if is_admin r (resolved_value m) then adminAllow detail else abstain)"
proof (cases "is_admin r (resolved_value m)")
  case True
  then show ?thesis
    unfolding admin_judge_def is_admin_def resolved_value_def
    by (auto simp: find_None_iff split: option.split)
next
  case False
  then have "find (\<lambda>u. u \<in> users r) (read_list m ''USER'') = None" "find (\<lambda>g. g \<in> groups r) (read_list m ''GROUP'') = None"
    by (auto simp: is_admin_def resolved_value_def find_None_iff)
  with False show ?thesis by (simp add: admin_judge_def)
qed

lemma mount_judge_spec:
  assumes "fair os"
  shows "mount_judge os patterns paths m =
    (case find (\<lambda>p. \<not> granted os patterns (resolved_value m) p) paths of
       None \<Rightarrow> allow (mount_allow_msg paths) | Some p \<Rightarrow> deny (mount_deny_msg p))"
proof -
  have "first_denied ps (map f ps) = find (\<lambda>p. \<not> f p) ps" for f and ps :: "string list"
    by (induction ps) simp_all
  with assms show ?thesis
    by (simp add: mount_judge_def expanded_def check_paths_fair check_path_granted split: option.splits)
qed

lemma volume_judge_spec:
  "volume_judge os patterns device m =
    (if granted os patterns (resolved_value m) device then allow (volume_allow_msg device)
     else deny (volume_deny_msg device))"
  by (simp add: volume_judge_def expanded_def check_path_granted)

text \<open>Every value in the map is one that \<open>P\<close> vouches for.\<close>

definition sound_maps :: "(string \<Rightarrow> resolved \<Rightarrow> bool) \<Rightarrow> string \<Rightarrow> (string \<rightharpoonup> string list) set" where
  "sound_maps P identity = {m. \<forall>n v. resolved_value m n v \<longrightarrow> vouched P identity n v}"

lemma sound_admin: "m \<in> sound_maps P k \<Longrightarrow> is_admin r (resolved_value m) \<Longrightarrow> is_admin r (vouched P k)"
  unfolding is_admin_def sound_maps_def by blast

lemma sound_granted:
  "m \<in> sound_maps P k \<Longrightarrow> granted os patterns (resolved_value m) p \<Longrightarrow> granted os patterns (vouched P k) p"
  unfolding sound_maps_def by (blast intro: granted_mono)

lemma admin_says:
  assumes "judges (sound_maps P k) req (admin_plan r) d"
  shows "d = abstain \<or> (\<exists>detail. d = adminAllow detail) \<and> is_admin r (vouched P k)"
  using assms
proof (cases rule: judges.cases)
  case (asked is_print judge m)
  then have d: "d = admin_judge r is_print m" by (simp add: admin_plan_def split: if_splits)
  obtain detail where "admin_judge r is_print m = (if is_admin r (resolved_value m) then adminAllow detail else abstain)"
    using admin_judge_spec by blast
  with d sound_admin [OF asked(3)] show ?thesis by (auto split: if_splits)
qed (simp add: admin_plan_def split: if_splits)

lemma mount_says:
  assumes "judges (sound_maps P k) req (mount_plan os patterns) d" and "fair os"
  shows "(let paths = binds (RequestURI req) (RequestBody req) in
    if paths = [] then d = abstain
    else d = allow (mount_allow_msg paths) \<and> (\<forall>p\<in>set paths. granted os patterns (vouched P k) p) \<or>
      (\<exists>p\<in>set paths. d = deny (mount_deny_msg p)))"
  using assms(1)
proof (cases rule: judges.cases)
  case (asked is_print judge m)
  then have "binds (RequestURI req) (RequestBody req) \<noteq> []"
    and "d = mount_judge os patterns (binds (RequestURI req) (RequestBody req)) m"
    by (simp_all add: mount_plan_def Let_def split: if_splits)
  with sound_granted [OF asked(3)] show ?thesis
    by (auto simp: mount_judge_spec [OF assms(2)] find_None_iff Let_def split: option.splits dest: find_hit)
qed (simp add: mount_plan_def Let_def split: if_splits)

lemma volume_says:
  assumes "judges (sound_maps P k) req (volume_plan os patterns) d"
  shows "case volume_bind_device (RequestURI req) (RequestBody req) of
      None \<Rightarrow> d = abstain
    | Some device \<Rightarrow> d = allow (volume_allow_msg device) \<and> granted os patterns (vouched P k) device \<or>
        d = deny (volume_deny_msg device)"
  using assms(1)
proof (cases rule: judges.cases)
  case (asked is_print judge m)
  with sound_granted [OF asked(3)] show ?thesis
    by (auto simp: volume_plan_def volume_judge_spec split: option.splits if_splits)
qed (simp add: volume_plan_def split: option.splits)

lemmas plans_say = admin_says mount_says volume_says

lemma gates_say:
  "judges M req (host_network_plan setting) d \<Longrightarrow> d = abstain \<or> Verdict d \<noteq> Abstain \<and> Msg d \<in> builtin_public req"
  "judges M req (privileged_plan setting) d \<Longrightarrow> d = abstain \<or> Verdict d \<noteq> Abstain \<and> Msg d \<in> builtin_public req"
  "judges M req (docker_cp_plan setting) d \<Longrightarrow> d = abstain \<or> Verdict d \<noteq> Abstain \<and> Msg d \<in> builtin_public req"
  "judges M req (docker_exec_plan setting) d \<Longrightarrow> d = abstain \<or> Verdict d \<noteq> Abstain \<and> Msg d \<in> builtin_public req"
  by (auto simp: gate_plan_defs builtin_public_def Let_def elim!: judgesE split: if_splits)

subsection \<open>What the built-in chain can decide\<close>

lemma builtin_says:
  assumes "judges (sound_maps P k) req rp d" and "rp \<in> set (builtin_plans os cfg)" and "fair os"
  shows "d = abstain \<or> Verdict d \<noteq> Abstain \<and> Msg d \<in> builtin_public req"
proof -
  consider "rp = admin_plan (NewAdminRule (AdminUsers cfg) (AdminGroups cfg))"
    | "rp = mount_plan os (Allowlist cfg)" | "rp = volume_plan os (Allowlist cfg)"
    | "rp = host_network_plan (HostNetwork (Checks cfg))" | "rp = privileged_plan (Privileged (Checks cfg))"
    | "rp = docker_cp_plan (DockerCP (Checks cfg))" | "rp = docker_exec_plan (DockerExec (Checks cfg))"
    using assms(2) by (auto simp: builtin_plans_def)
  then show ?thesis
  proof cases
    case 1
    with assms(1) admin_says show ?thesis by (force simp: builtin_public_def Let_def)
  next
    case 2
    with assms(1) have "judges (sound_maps P k) req (mount_plan os (Allowlist cfg)) d" by simp
    from mount_says [OF this assms(3)] show ?thesis
      by (auto simp: builtin_public_def Let_def split: if_splits)
  next
    case 3
    with assms(1) have "judges (sound_maps P k) req (volume_plan os (Allowlist cfg)) d" by simp
    from volume_says [OF this] show ?thesis
      by (auto simp: builtin_public_def Let_def split: option.splits)
  qed (use assms(1) gates_say in blast)+
qed

lemma decide_public:
  assumes "may_decide M req rps d"
    and "\<And>rp e. rp \<in> set rps \<Longrightarrow> judges M req rp e \<Longrightarrow> e = abstain \<or> Verdict e \<noteq> Abstain \<and> Msg e \<in> builtin_public req"
  shows "d = abstain \<or> Verdict d \<noteq> Abstain \<and> Msg d \<in> builtin_public req"
  using assms
proof (induction rule: may_decide.induct)
  case (active rp d rps)
  from active(3) [OF _ active(1)] show ?case by simp
qed auto

lemma plans_host_paths:
  assumes "may_decide (sound_maps P k) req (builtin_plans os cfg) d" and "fair os"
    and "Verdict d \<noteq> Deny" and "p \<in> host_paths req"
  shows "is_admin (NewAdminRule (AdminUsers cfg) (AdminGroups cfg)) (vouched P k) \<or>
    granted os (Allowlist cfg) (vouched P k) p"
proof (rule disjCI)
  assume no: "\<not> granted os (Allowlist cfg) (vouched P k) p"
  note says = mount_says [OF _ assms(2), of P k req "Allowlist cfg"] volume_says [of P k req os "Allowlist cfg"]
  from assms(1) show "is_admin (NewAdminRule (AdminUsers cfg) (AdminGroups cfg)) (vouched P k)"
    unfolding builtin_plans_def
  proof (cases rule: may_decide.cases)
    case (passed e)
    from passed(3) show ?thesis
    proof (cases rule: may_decide.cases)
      case active
      have "volume_bind_device (RequestURI req) (RequestBody req) = None"
        if "binds (RequestURI req) (RequestBody req) \<noteq> []"
        using that create_shapes_disjoint by (cases "is_container_create (RequestURI req)") simp_all
      with says(1) [OF active(1)] active(2) no assms(3,4) show ?thesis
        by (auto simp: host_paths_def Let_def split: if_splits)
    next
      case (passed e')
      then have b: "binds (RequestURI req) (RequestBody req) = []"
        using says(1) [OF passed(1)] by (auto simp: Let_def split: if_splits)
      then have v: "volume_bind_device (RequestURI req) (RequestBody req) = Some p"
        using assms(4) by (auto simp: host_paths_def)
      from passed(3) show ?thesis
        by (cases rule: may_decide.cases) (use v no assms(3) in \<open>auto dest!: says(2)\<close>)
    qed
  qed (use admin_says in force)
qed

end
