(* ===== verification/Service_Shared.thy ===== *)
theory Service_Shared
  imports Service Cache_Shared Rule_Plans
begin

text \<open>
  The running service at its finest interleaving. A decision (\<open>Server.Decide\<close>,
  \<open>Chain.Evaluate\<close>, \<open>Set.Resolve\<close>) is cut wherever it touches shared state: it loads the
  active state, takes its deadline, runs the rules, and each rule that asks for the
  caller's variables becomes one caller of every datasource's cache, whose steps are those
  of \<open>Cache_Shared\<close>. Other decisions, reloads, flushes and the world come in between any
  two of these steps.
\<close>

subsection \<open>States\<close>

text \<open>Where a decision is. \<open>Waits\<close>: its goroutines are the callers numbered \<open>ticket\<close>, one in
  each datasource's cache.\<close>

datatype stage =
    Loaded
  | Deciding "rule_plan list"
  | Waits nat "(string \<rightharpoonup> string list) \<Rightarrow> decision" "rule_plan list"
  | Decided decision

record pending =
  r_gen :: nat
  r_ctx :: go_ctx
  r_req :: authz_req
  r_stage :: stage

text \<open>A state requests decide on: the rules, the decision timeout, the datasources.\<close>

record ('c, 'g, 'b) live_state =
  chain_of :: "rule_plan list"
  timeout_of :: int
  sources :: "('c, 'g, 'b) shared list"

definition opened :: "'g \<Rightarrow> 'b world \<Rightarrow> ('c, 'b) cached_provider \<Rightarrow> ('c, 'g, 'b) shared" where
  "opened g0 w cp = \<lparr>decorator = cp, flights = g0, outside = w, callers = Map.empty, said = []\<rparr>"

definition bring_up ::
  "os_env \<Rightarrow> 'g \<Rightarrow> 'b world \<Rightarrow> conf \<Rightarrow> (('c, 'b) ds_set, 'b) active_state \<Rightarrow> ('c, 'g, 'b) live_state" where
  "bring_up os g0 w cfg a =
     \<lparr>chain_of = builtin_plans os cfg, timeout_of = decisionTimeout a,
      sources = map (opened g0 w) (providers (owned a))\<rparr>"

text \<open>\<open>front\<close> is the server as \<open>New\<close> and \<open>Reload\<close> leave it, \<open>live\<close> the states it ever had, in
  the same order. \<open>configs\<close> is kept by the model only.\<close>

record ('c, 'g, 'b, 'k) plant =
  front :: "(('c, 'b) ds_set, 'b, 'k) server"
  live :: "('c, 'g, 'b) live_state list"
  world_now :: "'b world"
  requests :: "nat \<rightharpoonup> pending"
  answers :: "(nat \<times> authz_req \<times> bool \<times> string \<times> go_error option) list"
  configs :: "(conf \<times> ('c, 'b) ds_set) list"

subsection \<open>Steps\<close>

definition after :: "decision \<Rightarrow> rule_plan list \<Rightarrow> stage" where
  "after d rest = (if Verdict d \<noteq> Abstain then Decided d else Deciding rest)"

text \<open>The goroutines of \<open>Set.Resolve\<close>: one caller per datasource, and what they left in
  \<open>results\<close>.\<close>

definition ask_all ::
  "nat \<Rightarrow> go_ctx \<Rightarrow> string go_map \<Rightarrow> ('c, 'g, 'b) shared list \<Rightarrow> ('c, 'g, 'b) shared list" where
  "ask_all n ctx vars =
     map (\<lambda>sh. sh\<lparr>callers := (callers sh)(n \<mapsto> \<lparr>c_ctx = ctx, c_vars = vars, c_phase = Asked\<rparr>)\<rparr>)"

definition answer_to :: "nat \<Rightarrow> ('c, 'g, 'b) shared \<Rightarrow> resolved result option" where
  "answer_to n sh =
     (case callers sh n of
        None \<Rightarrow> None
      | Some c \<Rightarrow> (case c_phase c of Answered r \<Rightarrow> Some r | _ \<Rightarrow> None))"

definition all_back :: "nat \<Rightarrow> ('c, 'g, 'b) shared list \<Rightarrow> bool" where
  "all_back n = list_all (\<lambda>sh. answer_to n sh \<noteq> None)"

definition results_of :: "nat \<Rightarrow> ('c, 'g, 'b) shared list \<Rightarrow> resolved list" where
  "results_of n = map (\<lambda>sh. slot [] (the (answer_to n sh)))"

text \<open>What request \<open>i\<close> does next, taking the ticket \<open>n\<close> should it ask; \<open>None\<close> while it waits.\<close>

definition proceed :: "nat \<Rightarrow> nat \<Rightarrow> ('c, 'g, 'b, 'k) plant \<Rightarrow> ('c, 'g, 'b, 'k) plant option" where
  "proceed n i p =
     (case requests p i of
        None \<Rightarrow> None
      | Some q \<Rightarrow>
          (let g = r_gen q; a = live p ! g; w = world_now p; req = r_req q;
               to = (\<lambda>st. (requests p)(i \<mapsto> q\<lparr>r_stage := st\<rparr>))
           in case r_stage q of
                Loaded \<Rightarrow>
                  (let (ctx, w') = with_timeout (r_ctx q) (timeout_of a) w
                   in Some (p\<lparr>world_now := w',
                          requests := (requests p)(i \<mapsto> q\<lparr>r_ctx := ctx, r_stage := Deciding (chain_of a)\<rparr>)\<rparr>))
              | Deciding [] \<Rightarrow> Some (p\<lparr>requests := to (Decided abstain)\<rparr>)
              | Deciding (rp # rest) \<Rightarrow>
                  (case rp req (print_table w) of
                     At_once d \<Rightarrow> Some (p\<lparr>requests := to (after d rest)\<rparr>)
                   | Ask judge \<Rightarrow>
                       (let ctx = WithRequestContext (r_ctx q) (RequestMethod req) (RequestURI req);
                            (cleaned, evs) = sanitize (print_table w) ctx (Extract req);
                            p1 = p\<lparr>world_now := emit_all evs w\<rparr>
                        in case cleaned of
                             None \<Rightarrow> Some (p1\<lparr>requests := to (after (judge Map.empty) rest)\<rparr>)
                           | Some vars \<Rightarrow>
                               if sources a = [] then Some (p1\<lparr>requests := to (after (judge Map.empty) rest)\<rparr>)
                               else Some (p1\<lparr>live := (live p)[g := a\<lparr>sources := ask_all n ctx vars (sources a)\<rparr>],
                                      requests := to (Waits n judge rest)\<rparr>)))
              | Waits m judge rest \<Rightarrow>
                  if all_back m (sources a)
                  then Some (p\<lparr>requests := to (after (judge (merge_results (results_of m (sources a)))) rest)\<rparr>)
                  else None
              | Decided d \<Rightarrow>
                  Some (p\<lparr>world_now := emit_all (decide_events req (Inr d)) w, requests := (requests p)(i := None),
                      answers := answers p @ [(g, req, decide_answer req (Inr d))]\<rparr>)))"

text \<open>The cache of source \<open>j\<close> of state \<open>g\<close>, in the world as it is.\<close>

definition source :: "nat \<Rightarrow> nat \<Rightarrow> ('c, 'g, 'b, 'k) plant \<Rightarrow> ('c, 'g, 'b) shared" where
  "source g j p = (sources (live p ! g) ! j)\<lparr>outside := world_now p\<rparr>"

definition put_source ::
  "nat \<Rightarrow> nat \<Rightarrow> ('c, 'g, 'b) shared \<Rightarrow> ('c, 'g, 'b, 'k) plant \<Rightarrow> ('c, 'g, 'b, 'k) plant" where
  "put_source g j sh p =
     p\<lparr>live := (live p)[g := (live p ! g)\<lparr>sources := (sources (live p ! g))[j := sh]\<rparr>],
       world_now := outside sh\<rparr>"

definition is_source :: "nat \<Rightarrow> nat \<Rightarrow> ('c, 'g, 'b, 'k) plant \<Rightarrow> bool" where
  "is_source g j p \<longleftrightarrow> g < length (live p) \<and> j < length (sources (live p ! g))"

definition unused :: "nat \<Rightarrow> ('c, 'g, 'b, 'k) plant \<Rightarrow> bool" where
  "unused n p \<longleftrightarrow> (\<forall>a\<in>set (live p). \<forall>sh\<in>set (sources a). callers sh n = None)"

text \<open>Moves of the requests there are, and everything else.\<close>

inductive moves ::
  "'c lru_ops \<Rightarrow> 'g flight_ops \<Rightarrow> ('c, 'g, 'b, 'k) plant \<Rightarrow> ('c, 'g, 'b, 'k) plant \<Rightarrow> bool" for ops fops where
  proceeds: "unused n p \<Longrightarrow> proceed n i p = Some p' \<Longrightarrow> moves ops fops p p'"
| resolves: "is_source g j p \<Longrightarrow> advance ops fops n (source g j p) = Some sh \<Longrightarrow>
     moves ops fops p (put_source g j sh p)"

inductive fine_step ::
  "('c, 'b) services \<Rightarrow> 'g flight_ops \<Rightarrow> 'g \<Rightarrow> ('c, 'g, 'b, 'k) plant \<Rightarrow> ('c, 'g, 'b, 'k) plant \<Rightarrow> bool"
  for sv fops g0 where
  arrives: "requests p i = None \<Longrightarrow>
     fine_step sv fops g0 p (p\<lparr>requests := (requests p)(i \<mapsto>
       \<lparr>r_gen = active (front p), r_ctx = ctx, r_req = req, r_stage = Loaded\<rparr>)\<rparr>)"
| moves_on: "moves (sv_ops sv) fops p p' \<Longrightarrow> fine_step sv fops g0 p p'"
| reloads: "Reload sv load_pair is_print (Some cfg) (front p) = (None, s') \<Longrightarrow>
     build_set sv is_print cfg = Inr d \<Longrightarrow>
     fine_step sv fops g0 p (p\<lparr>front := s', configs := configs p @ [(cfg, d)],
       live := live p @ [bring_up (sv_os sv) g0 (world_now p) cfg (states s' ! active s')]\<rparr>)"
| reload_fails: "Reload sv load_pair is_print cfg' (front p) = (Some e, s') \<Longrightarrow>
     fine_step sv fops g0 p (p\<lparr>front := s'\<rparr>)"
| flushes: "is_source g j p \<Longrightarrow> sh = source g j p \<Longrightarrow>
     fine_step sv fops g0 p (put_source g j (sh\<lparr>decorator := cache_flush (sv_ops sv) (decorator sh)\<rparr>) p)"
| world_turns: "fine_step sv fops g0 p (p\<lparr>world_now := w\<rparr>)"

text \<open>The plant of a process that has just started.\<close>

definition brought_up ::
  "('c, 'b) services \<Rightarrow> 'g \<Rightarrow> ('c, 'b, 'k) process \<Rightarrow> ('c, 'g, 'b, 'k) plant" where
  "brought_up sv g0 pr =
     \<lparr>front = srv pr,
      live = map2 (\<lambda>c. bring_up (sv_os sv) g0 (wrld pr) (fst c)) (built pr) (states (srv pr)),
      world_now = wrld pr, requests = Map.empty, answers = [], configs = built pr\<rparr>"

inductive fine_reachable ::
  "('c, 'b) services \<Rightarrow> 'g flight_ops \<Rightarrow> 'g \<Rightarrow> ('c, 'g, 'b, 'k) plant \<Rightarrow> bool" for sv fops g0 where
  starts: "started_process sv pr \<Longrightarrow> fine_reachable sv fops g0 (brought_up sv g0 pr)"
| runs: "fine_reachable sv fops g0 p \<Longrightarrow> fine_step sv fops g0 p p' \<Longrightarrow> fine_reachable sv fops g0 p'"

subsection \<open>One datasource's cache\<close>

text \<open>Its callers get values that satisfy \<open>P\<close>, what its datasource says satisfies \<open>Q\<close>, and its
  refreshes are led by one caller each.\<close>

definition source_ok ::
  "('c \<Rightarrow> string \<Rightarrow> cache_entry option) \<Rightarrow> ('g \<Rightarrow> string set) \<Rightarrow> (string \<Rightarrow> resolved \<Rightarrow> bool) \<Rightarrow>
     (string \<Rightarrow> resolved \<Rightarrow> bool) \<Rightarrow> ('c, 'g, 'b) shared \<Rightarrow> bool" where
  "source_ok peek running P Q sh \<longleftrightarrow>
     values_ok peek P {} sh \<and> provider_answers Q (cp_provider (decorator sh)) \<and>
     (\<forall>(k, v)\<in>set (said sh). Q k v) \<and> flights_ok running sh"

lemma values_ok_outside [simp]: "values_ok peek P X (sh\<lparr>outside := w\<rparr>) = values_ok peek P X sh"
  by (simp add: values_ok_def)

lemma source_ok_outside [simp]: "source_ok peek running P Q (sh\<lparr>outside := w\<rparr>) = source_ok peek running P Q sh"
  by (simp add: source_ok_def flights_ok_def)

lemma advance_keeps:
  assumes "advance ops fops i s = Some s'" and "callers s j = Some c"
  shows "\<exists>c'. callers s' j = Some c' \<and> key c' = key c"
proof -
  obtain d where d: "callers s i = Some d" using assms(1) by (auto simp: advance_def split: option.splits)
  have b: "\<exists>c'. become i d ph (callers s) j = Some c' \<and> key c' = key c" for ph
    using assms(2) d by (auto simp: become_def)
  have h: "\<exists>c'. hand_out k r (become i d ph (callers s)) j = Some c' \<and> key c' = key c" for k r ph
    using b [of ph] by (auto simp: hand_out_def handed_fields)
  show ?thesis
    using assms(1) d b h by (auto simp: advance_def split: phase.splits prod.splits)
qed

lemma provider_answersD:
  "provider_answers P p \<Longrightarrow> p ctx vars w = (Inr v, w') \<Longrightarrow> P (read_string vars identityVar) v"
  unfolding provider_answers_def by blast

lemma advance_said:
  assumes "advance ops fops i s = Some s'" and "provider_answers P (cp_provider (decorator s))"
    and "(k, v) \<in> set (drop (length (said s)) (said s'))"
  shows "P k v"
  using assms
  by (auto simp: advance_def key_def dest: provider_answersD split: option.splits phase.splits prod.splits sum.splits)

lemma advance_said_grows: "advance ops fops i s = Some s' \<Longrightarrow> set (said s) \<subseteq> set (said s')"
  by (auto simp: advance_def split: option.splits phase.splits prod.splits)

lemma said_cases: "set (said s) \<subseteq> X \<Longrightarrow> set (drop (length (said s)) (said s')) \<subseteq> X \<Longrightarrow>
    advance ops fops i s = Some s' \<Longrightarrow> set (said s') \<subseteq> X"
  by (auto simp: advance_def split: option.splits phase.splits prod.splits)

lemma source_ok_answer:
  assumes "source_ok peek running P Q s" and "callers s n = Some c" and "answer_to n s = Some (Inr v)"
  shows "P (key c) v"
  using assms by (auto simp: source_ok_def values_ok_def answer_to_def split: phase.splits)

context shared_cache
begin

lemma advance_setup:
  assumes "advance ops fops i s = Some s'"
  shows "same_setup (decorator s) (decorator s')"
proof -
  have any: "cache_inv peek (\<lambda>_ _. True) cp" for cp :: "('c, 'd) cached_provider" by (simp add: cache_inv_def)
  show ?thesis
    using assms
    by (auto simp: advance_def split: option.splits phase.splits prod.splits
        dest: look_up_values [OF _ any] start_refresh_values [OF _ any] settle_values [OF _ any])
qed

lemma source_ok_advance:
  assumes ok: "source_ok peek running P Q s" and a: "advance ops fops i s = Some s'"
    and said: "\<forall>(k, v)\<in>set (said s'). P k v"
  shows "source_ok peek running P Q s'"
proof -
  have q: "provider_answers Q (cp_provider (decorator s))" using ok by (simp add: source_ok_def)
  have "values_ok peek P {} s'"
    by (rule values_ok_advance [OF _ a]) (use ok said in \<open>auto simp: source_ok_def dest: in_set_dropD\<close>)
  moreover have "cp_provider (decorator s') = cp_provider (decorator s)"
    using same_setup_fields [OF advance_setup [OF a]] by simp
  moreover have "set (said s') \<subseteq> {(k, v). Q k v}"
    by (rule said_cases [OF _ _ a]) (use ok advance_said [OF a q] in \<open>auto simp: source_ok_def\<close>)
  ultimately show ?thesis
    using ok flights_ok_advance [OF _ a] by (auto simp: source_ok_def)
qed

lemma source_ok_flush:
  "source_ok peek running P Q s \<Longrightarrow> source_ok peek running P Q (s\<lparr>decorator := cache_flush ops (decorator s)\<rparr>)"
  by (simp add: source_ok_def values_ok_def cache_flush_inv flights_ok_def) (simp add: cache_flush_def)

lemma source_ok_ask:
  assumes "source_ok peek running P Q s" and "callers s n = None"
  shows "source_ok peek running P Q (s\<lparr>callers := (callers s)(n \<mapsto> \<lparr>c_ctx = ctx, c_vars = vars, c_phase = Asked\<rparr>)\<rparr>)"
  using assms by (auto simp: source_ok_def values_ok_def flights_ok_def at_phase_new)

lemma source_ok_opened:
  assumes "cache_inv peek (\<lambda>_ _. False) cp" and "provider_answers Q (cp_provider cp)" and "running g0 = {}"
  shows "source_ok peek running P Q (opened g0 w cp)"
  using assms by (auto simp: source_ok_def opened_def values_ok_def flights_ok_def at_phase_def cache_inv_def)

end

subsection \<open>The invariant\<close>

text \<open>A state runs its configuration: the rules and the timeout are that configuration's, and its
  caches pass on what \<open>P\<close> vouches for, and get it from the datasources built from the
  configuration.\<close>

definition lives ::
  "('c, 'b) services \<Rightarrow> ('c \<Rightarrow> string \<Rightarrow> cache_entry option) \<Rightarrow> ('g \<Rightarrow> string set) \<Rightarrow>
     (string \<Rightarrow> resolved \<Rightarrow> bool) \<Rightarrow> conf \<times> ('c, 'b) ds_set \<Rightarrow> ('c, 'g, 'b) live_state \<Rightarrow> bool" where
  "lives sv peek running P c a \<longleftrightarrow>
     chain_of a = builtin_plans (sv_os sv) (fst c) \<and> timeout_of a = DecisionTimeout (Server (fst c)) \<and>
     (\<forall>sh\<in>set (sources a). source_ok peek running P (answered (snd c)) sh) \<and>
     (\<exists>is_print. build_set sv is_print (fst c) = Inr (snd c))"

text \<open>The values the datasources of a state have given so far.\<close>

definition given :: "('c, 'g, 'b) live_state \<Rightarrow> string \<Rightarrow> resolved \<Rightarrow> bool" where
  "given a k v \<longleftrightarrow> (\<exists>sh\<in>set (sources a). (k, v) \<in> set (said sh))"

text \<open>What a decision has still to come to is something its configuration's chain can decide
  on variables \<open>P\<close> vouches for.\<close>

definition leads_to ::
  "(string \<rightharpoonup> string list) set \<Rightarrow> authz_req \<Rightarrow> rule_plan list \<Rightarrow> stage \<Rightarrow> bool" where
  "leads_to M req full st \<longleftrightarrow>
     (case st of
        Decided d \<Rightarrow> may_decide M req full d
      | Deciding rest \<Rightarrow> (\<forall>d. may_decide M req rest d \<longrightarrow> may_decide M req full d)
      | Waits n judge rest \<Rightarrow>
          (\<forall>m\<in>M. if Verdict (judge m) \<noteq> Abstain then may_decide M req full (judge m)
                 else \<forall>d. may_decide M req rest d \<longrightarrow> may_decide M req full d)
      | Loaded \<Rightarrow> True)"

definition on_course ::
  "(string \<Rightarrow> resolved \<Rightarrow> bool) \<Rightarrow> conf \<times> ('c, 'b) ds_set \<Rightarrow> os_env \<Rightarrow> pending \<Rightarrow> bool" where
  "on_course P c os q \<longleftrightarrow>
     leads_to (sound_maps P (User (r_req q))) (r_req q) (builtin_plans os (fst c)) (r_stage q)"

lemma leads_to_simps [simp]:
  "leads_to M req full Loaded"
  "leads_to M req full (Decided d) = may_decide M req full d"
  "leads_to M req full (Deciding full)"
  "leads_to M req full (Deciding []) = may_decide M req full abstain"
  by (simp_all add: leads_to_def may_decide_Nil)

lemma leads_to_Waits:
  "leads_to M req full (Waits n judge rest) \<longleftrightarrow> (\<forall>m\<in>M. leads_to M req full (after (judge m) rest))"
proof -
  have "leads_to M req full (after d rest) \<longleftrightarrow>
      (if Verdict d \<noteq> Abstain then may_decide M req full d
       else \<forall>e. may_decide M req rest e \<longrightarrow> may_decide M req full e)" for d
    by (simp add: leads_to_def after_def)
  then show ?thesis by (simp add: leads_to_def [of _ _ _ "Waits n judge rest"])
qed

lemma leads_to_after:
  "leads_to M req full (Deciding (rp # rest)) \<Longrightarrow> judges M req rp d \<Longrightarrow> leads_to M req full (after d rest)"
  by (auto simp: leads_to_def after_def intro: may_decide.intros)

lemma leads_to_wait:
  assumes "leads_to M req full (Deciding (rp # rest))" and "rp req is_print = Ask judge"
  shows "leads_to M req full (Waits n judge rest)"
  using leads_to_after [OF assms(1) judges.asked [where rp = rp, OF assms(2)]] by (simp add: leads_to_Waits)

lemma after_not_waiting [simp]: "after d rest \<noteq> Waits n judge rest'" "after d rest \<noteq> Loaded"
  by (simp_all add: after_def)

lemma empty_sound [simp]: "Map.empty \<in> sound_maps P k"
  by (simp add: sound_maps_def resolved_value_def)

definition waited :: "pending \<Rightarrow> ('c, 'g, 'b) live_state \<Rightarrow> bool" where
  "waited q a \<longleftrightarrow>
     (case r_stage q of
        Waits n judge rest \<Rightarrow> \<forall>sh\<in>set (sources a). \<exists>c. callers sh n = Some c \<and> key c = User (r_req q)
      | _ \<Rightarrow> True)"

text \<open>Whatever happens beside it, an answer is one the configuration's chain can give on such
  variables.\<close>

definition answer_by ::
  "(string \<Rightarrow> resolved \<Rightarrow> bool) \<Rightarrow> os_env \<Rightarrow> conf \<Rightarrow> authz_req \<Rightarrow> bool \<times> string \<times> go_error option \<Rightarrow> bool" where
  "answer_by P os cfg req a \<longleftrightarrow>
     (case a of (ok, msg, err) \<Rightarrow>
        err = None \<and> msg \<in> replies builtin_public req \<and>
        (ok \<longrightarrow> (\<forall>p\<in>host_paths req.
           is_admin (NewAdminRule (AdminUsers cfg) (AdminGroups cfg)) (vouched P (User req)) \<or>
           granted os (Allowlist cfg) (vouched P (User req)) p)))"

text \<open>In the invariant \<open>Ps g\<close> vouches for the values of state \<open>g\<close>; \<open>heard Ps p\<close> says that it does so for
  every value given so far.\<close>

definition heard ::
  "(nat \<Rightarrow> string \<Rightarrow> resolved \<Rightarrow> bool) \<Rightarrow> ('c, 'g, 'b, 'k) plant \<Rightarrow> bool" where
  "heard Ps p \<longleftrightarrow> (\<forall>g k v. g < length (live p) \<longrightarrow> given (live p ! g) k v \<longrightarrow> Ps g k v)"

definition anything :: "nat \<Rightarrow> string \<Rightarrow> resolved \<Rightarrow> bool" where
  "anything g k v \<longleftrightarrow> True"

lemma heard_anything [simp]: "heard anything p"
  by (simp add: heard_def anything_def)

definition request_ok ::
  "('c, 'b) services \<Rightarrow> (nat \<Rightarrow> string \<Rightarrow> resolved \<Rightarrow> bool) \<Rightarrow> ('c, 'g, 'b, 'k) plant \<Rightarrow> pending \<Rightarrow> bool" where
  "request_ok sv Ps p q \<longleftrightarrow>
     r_gen q < length (live p) \<and> on_course (Ps (r_gen q)) (configs p ! r_gen q) (sv_os sv) q \<and> waited q (live p ! r_gen q)"

definition plant_inv ::
  "('c, 'b) services \<Rightarrow> ('c \<Rightarrow> string \<Rightarrow> cache_entry option) \<Rightarrow> ('g \<Rightarrow> string set) \<Rightarrow>
     (nat \<Rightarrow> string \<Rightarrow> resolved \<Rightarrow> bool) \<Rightarrow> ('c, 'g, 'b, 'k) plant \<Rightarrow> bool" where
  "plant_inv sv peek running Ps p \<longleftrightarrow>
     length (configs p) = length (live p) \<and>
     (\<forall>g<length (live p). lives sv peek running (Ps g) (configs p ! g) (live p ! g)) \<and>
     length (states (front p)) = length (live p) \<and> active (front p) < length (live p) \<and>
     (\<forall>i q. requests p i = Some q \<longrightarrow> request_ok sv Ps p q) \<and>
     list_all (\<lambda>(g, req, x). g < length (live p) \<and> answer_by (Ps g) (sv_os sv) (fst (configs p ! g)) req x) (answers p)"

lemma plant_inv_lives:
  assumes "plant_inv sv peek running Ps p" and "g < length (live p)"
  shows "lives sv peek running (Ps g) (configs p ! g) (live p ! g)"
  using assms unfolding plant_inv_def by blast

lemma plant_inv_request:
  assumes "plant_inv sv peek running Ps p" and "requests p i = Some q"
  shows "request_ok sv Ps p q"
  using assms unfolding plant_inv_def by blast

lemma plant_inv_source:
  assumes "plant_inv sv peek running Ps p" and "is_source g j p"
  shows "source_ok peek running (Ps g) (answered (snd (configs p ! g))) (source g j p)"
  using plant_inv_lives [OF assms(1), of g] assms(2) by (simp add: is_source_def lives_def source_def)

text \<open>A request moves on in a state that is otherwise the same.\<close>

lemma plant_inv_to:
  assumes "plant_inv sv peek running Ps p" and "requests p i = Some q"
    and "q' = q\<lparr>r_ctx := ctx, r_stage := st\<rparr>"
    and "on_course (Ps (r_gen q)) (configs p ! r_gen q) (sv_os sv) q'" and "\<nexists>n judge rest. st = Waits n judge rest"
    and "p' = p\<lparr>world_now := w, requests := (requests p)(i \<mapsto> q')\<rparr>"
  shows "plant_inv sv peek running Ps p'"
proof -
  have "request_ok sv Ps p' q'"
    using plant_inv_request [OF assms(1,2)] assms(3-6)
    by (auto simp: request_ok_def waited_def split: stage.splits)
  moreover have "request_ok sv Ps p' q0 = request_ok sv Ps p q0" for q0
    by (simp add: request_ok_def assms(6))
  ultimately show ?thesis using assms(1) by (auto simp: plant_inv_def assms(6))
qed

lemma request_ok_live:
  assumes "request_ok sv Ps p q" and "length (live p') = length (live p)" and "configs p' = configs p"
    and "waited q (live p ! r_gen q) \<Longrightarrow> waited q (live p' ! r_gen q)"
  shows "request_ok sv Ps p' q"
  using assms by (simp add: request_ok_def)

text \<open>A cache's state is replaced by a sound one with at least the same callers.\<close>

lemma waited_put:
  assumes "waited q (live p ! r_gen q)" and "is_source g j p"
    and "\<And>n c. callers (sources (live p ! g) ! j) n = Some c \<Longrightarrow> \<exists>c'. callers sh n = Some c' \<and> key c' = key c"
  shows "waited q (live (put_source g j sh p) ! r_gen q)"
proof (cases "r_gen q = g")
  case True
  have "\<exists>c. callers sh' n = Some c \<and> key c = User (r_req q)"
    if "r_stage q = Waits n judge rest" "sh' \<in> set ((sources (live p ! g))[j := sh])" for n judge rest sh'
  proof (cases "sh' = sh")
    case True
    have "sources (live p ! g) ! j \<in> set (sources (live p ! g))" using assms(2) by (simp add: is_source_def)
    with assms(1) that(1) obtain c where
      "callers (sources (live p ! g) ! j) n = Some c" "key c = User (r_req q)"
      by (auto simp: waited_def \<open>r_gen q = g\<close>)
    with assms(3) True show ?thesis by metis
  next
    case False
    then have "sh' \<in> set (sources (live p ! g))" using that(2) set_update_subset_insert by fastforce
    with assms(1) that(1) show ?thesis by (auto simp: waited_def True)
  qed
  with assms(2) True show ?thesis
    by (auto simp: waited_def put_source_def is_source_def split: stage.splits)
qed (use assms in \<open>simp add: put_source_def is_source_def\<close>)

lemma plant_inv_put:
  assumes inv: "plant_inv sv peek running Ps p" and src: "is_source g j p"
    and ok: "source_ok peek running (Ps g) (answered (snd (configs p ! g))) sh"
    and keep: "\<And>n c. callers (sources (live p ! g) ! j) n = Some c \<Longrightarrow> \<exists>c'. callers sh n = Some c' \<and> key c' = key c"
  shows "plant_inv sv peek running Ps (put_source g j sh p)"
proof -
  let ?a = "(live p ! g)\<lparr>sources := (sources (live p ! g))[j := sh]\<rparr>"
  have g: "g < length (live p)" using src by (simp add: is_source_def)
  have "lives sv peek running (Ps g) (configs p ! g) ?a"
    using plant_inv_lives [OF inv g] ok by (auto simp: lives_def dest!: set_update_subset_insert [THEN subsetD])
  then have "\<forall>h<length (live p). lives sv peek running (Ps h) (configs p ! h) ((live p)[g := ?a] ! h)"
    using plant_inv_lives [OF inv] g by (simp add: nth_list_update)
  moreover have "request_ok sv Ps (put_source g j sh p) q" if "requests p i = Some q" for i q
    by (rule request_ok_live [OF plant_inv_request [OF inv that] _ _ waited_put])
      (simp_all add: put_source_def src keep)
  ultimately show ?thesis
    using inv by (auto simp: plant_inv_def put_source_def)
qed

lemma heard_put:
  assumes "heard Ps (put_source g j sh p)" and "is_source g j p" and "(k, v) \<in> set (said sh)"
  shows "Ps g k v"
proof -
  have "sh \<in> set ((sources (live p ! g))[j := sh])" using assms(2) by (simp add: is_source_def set_update_memI)
  with assms(2,3) have "given (live (put_source g j sh p) ! g) k v"
    by (auto simp: given_def put_source_def is_source_def)
  with assms(1,2) show ?thesis by (simp add: heard_def put_source_def is_source_def)
qed

text \<open>A rule asks: one new caller in each cache of its state.\<close>

lemma callers_ask_all:
  "sh' \<in> set (ask_all n ctx vars shs) \<longleftrightarrow>
     (\<exists>sh\<in>set shs. sh' = sh\<lparr>callers := (callers sh)(n \<mapsto> \<lparr>c_ctx = ctx, c_vars = vars, c_phase = Asked\<rparr>)\<rparr>)"
  by (auto simp: ask_all_def)

lemma unused_source: "unused n p \<Longrightarrow> g < length (live p) \<Longrightarrow> sh \<in> set (sources (live p ! g)) \<Longrightarrow> callers sh n = None"
  unfolding unused_def using nth_mem by blast

lemma plant_inv_ask:
  assumes "shared_cache ops peek fops running"
    and inv: "plant_inv sv peek running Ps p" and q: "requests p i = Some q" and n: "unused n p"
    and course: "on_course (Ps (r_gen q)) (configs p ! r_gen q) (sv_os sv) (q\<lparr>r_stage := Waits n judge rest\<rparr>)"
    and key: "read_string vars identityVar = User (r_req q)"
    and a: "a = live p ! r_gen q"
    and p': "p' = p\<lparr>world_now := w, live := (live p)[r_gen q := a\<lparr>sources := ask_all n ctx vars (sources a)\<rparr>],
      requests := (requests p)(i \<mapsto> q\<lparr>r_stage := Waits n judge rest\<rparr>)\<rparr>"
  shows "plant_inv sv peek running Ps p'"
proof -
  let ?a = "a\<lparr>sources := ask_all n ctx vars (sources a)\<rparr>"
  have g: "r_gen q < length (live p)" using plant_inv_request [OF inv q] by (simp add: request_ok_def)
  have fresh: "callers sh n = None" if "sh \<in> set (sources a)" for sh
    using unused_source [OF n g] that a by simp
  have "lives sv peek running (Ps (r_gen q)) (configs p ! r_gen q) ?a"
    using plant_inv_lives [OF inv g] shared_cache.source_ok_ask [OF assms(1) _ fresh]
    by (auto simp: lives_def a callers_ask_all)
  then have "\<forall>h<length (live p). lives sv peek running (Ps h) (configs p ! h) ((live p)[r_gen q := ?a] ! h)"
    using plant_inv_lives [OF inv] g by (simp add: nth_list_update)
  moreover have "request_ok sv Ps p' (q\<lparr>r_stage := Waits n judge rest\<rparr>)"
    using course g key by (auto simp: request_ok_def waited_def p' callers_ask_all key_def)
  moreover have "request_ok sv Ps p' q0" if q0: "requests p k = Some q0" for k q0
  proof (rule request_ok_live [OF plant_inv_request [OF inv q0]])
    assume w: "waited q0 (live p ! r_gen q0)"
    show "waited q0 (live p' ! r_gen q0)"
    proof (cases "r_gen q0 = r_gen q")
      case True
      with w g fresh show ?thesis
        by (auto simp: waited_def p' callers_ask_all a split: stage.splits)
    qed (use w in \<open>simp add: p'\<close>)
  qed (simp_all add: p')
  ultimately show ?thesis using inv by (auto simp: plant_inv_def p')
qed

text \<open>What the goroutines brought back.\<close>

lemma results_sound:
  assumes ok: "\<forall>sh\<in>set shs. source_ok peek running P Q sh"
    and c: "\<forall>sh\<in>set shs. \<exists>c. callers sh n = Some c \<and> key c = k" and all: "all_back n shs"
  shows "merge_results (results_of n shs) \<in> sound_maps P k"
  unfolding sound_maps_def
proof (clarify)
  fix x v assume "resolved_value (merge_results (results_of n shs)) x v"
  then obtain sh where sh: "sh \<in> set shs" "v \<in> set (values_of (slot [] (the (answer_to n sh))) x)"
    by (auto simp: resolved_value_def merge_results_spec results_of_def)
  with all obtain r where "answer_to n sh = Some (Inr r)"
    by (auto simp: all_back_def list_all_iff split: sum.splits)
  moreover obtain c where "callers sh n = Some c" "key c = k" using c sh(1) by blast
  ultimately have "P k r" "v \<in> set (values_of r x)"
    using source_ok_answer [of peek running P Q sh n c r] ok sh by auto
  then show "vouched P k x v" unfolding vouched_def by blast
qed

lemma sanitize_Some_identity:
  "sanitize is_print ctx vars = (Some vars', evs) \<Longrightarrow> read_string vars' identityVar = read_string vars identityVar"
  using sanitize_keeps_identity [of is_print ctx vars]
  by (auto simp: sanitize_def Let_def split: option.splits prod.splits)

text \<open>What a decision the chain can take says to the daemon.\<close>

lemma decided_answer_by:
  assumes "may_decide (sound_maps P (User req)) req (builtin_plans os cfg) d" and "fair os"
  shows "answer_by P os cfg req (decide_answer req (Inr d))"
proof -
  have "d = abstain \<or> Verdict d \<noteq> Abstain \<and> Msg d \<in> builtin_public req"
    by (rule decide_public [OF assms(1)]) (rule builtin_says [OF _ _ assms(2)])
  moreover have "fst (decide_answer req (Inr d)) \<longleftrightarrow> Verdict d \<noteq> Deny"
    by (simp add: decide_answer_def split: verdict.split)
  ultimately show ?thesis
    using plans_host_paths [OF assms]
    by (auto simp: answer_by_def decide_answer_def replies_def split: verdict.splits)
qed

text \<open>A decision at its next rule: it is done with it, or it asks.\<close>

lemma proceed_deciding:
  assumes "requests p i = Some q" and "r_stage q = Deciding (rp # rest)" and "proceed n i p = Some p'"
  obtains d w where "judges {Map.empty} (r_req q) rp d"
      and "p' = p\<lparr>world_now := w, requests := (requests p)(i \<mapsto> q\<lparr>r_stage := after d rest\<rparr>)\<rparr>"
  | judge is_print ctx vars w where "rp (r_req q) is_print = Ask judge" and "read_string vars identityVar = User (r_req q)"
      and "p' = p\<lparr>world_now := w, live := (live p)[r_gen q := (live p ! r_gen q)\<lparr>sources :=
             ask_all n ctx vars (sources (live p ! r_gen q))\<rparr>],
        requests := (requests p)(i \<mapsto> q\<lparr>r_stage := Waits n judge rest\<rparr>)\<rparr>"
proof (cases "rp (r_req q) (print_table (world_now p))")
  case (At_once d)
  with assms show ?thesis
    by (intro that(1) [of d "world_now p"]) (auto simp: proceed_def Let_def intro: judges.at_once)
next
  case (Ask judge)
  have j: "judges {Map.empty} (r_req q) rp (judge Map.empty)"
    using judges.asked [where rp = rp, OF Ask] by blast
  let ?ctx = "WithRequestContext (r_ctx q) (RequestMethod (r_req q)) (RequestURI (r_req q))"
  obtain cleaned evs where e: "sanitize (print_table (world_now p)) ?ctx (Extract (r_req q)) = (cleaned, evs)"
    by fastforce
  let ?w = "emit_all evs (world_now p)"
  show ?thesis
  proof (cases "cleaned = None \<or> sources (live p ! r_gen q) = []")
    case True
    with assms Ask e j show ?thesis
      by (intro that(1) [OF j, of ?w]) (auto simp: proceed_def Let_def split: option.splits)
  next
    case False
    then obtain vars where vars: "cleaned = Some vars" by auto
    with False assms Ask e sanitize_Some_identity show ?thesis
      by (intro that(2) [OF Ask, of vars ?ctx ?w]) (auto simp: proceed_def Let_def)
  qed
qed

lemma judges_mono: "judges M req rp d \<Longrightarrow> M \<subseteq> M' \<Longrightarrow> judges M' req rp d"
  by (induction rule: judges.induct) (auto intro: judges.intros)

context shared_cache
begin

lemma plant_inv_deciding:
  assumes inv: "plant_inv sv peek running Ps p" and q: "requests p i = Some q" and n: "unused n p"
    and step: "proceed n i p = Some p'" and stage: "r_stage q = Deciding rps"
  shows "plant_inv sv peek running Ps p'"
proof -
  let ?M = "sound_maps (Ps (r_gen q)) (User (r_req q))"
  have course: "leads_to ?M (r_req q) (builtin_plans (sv_os sv) (fst (configs p ! r_gen q))) (Deciding rps)"
    using plant_inv_request [OF inv q] stage by (simp add: request_ok_def on_course_def)
  show ?thesis
  proof (cases rps)
    case Nil
    with step q stage course show ?thesis
      by (intro plant_inv_to [OF inv q refl, where ctx = "r_ctx q" and st = "Decided abstain" and w = "world_now p"])
        (auto simp: proceed_def Let_def on_course_def)
  next
    case (Cons rp rest)
    note course = course [unfolded Cons]
    from q stage [unfolded Cons] step show ?thesis
    proof (cases rule: proceed_deciding)
      case (1 d w)
      from 1(1) have "judges ?M (r_req q) rp d" by (rule judges_mono) simp
      from leads_to_after [OF course this] 1(2) show ?thesis
        by (intro plant_inv_to [OF inv q refl, where ctx = "r_ctx q" and st = "after d rest" and w = w])
          (auto simp: on_course_def)
    next
      case (2 judge is_print ctx vars w)
      from leads_to_wait [OF course 2(1), of n] show ?thesis
        by (intro plant_inv_ask [OF shared_cache_axioms inv q n _ 2(2) refl 2(3)]) (simp add: on_course_def)
    qed
  qed
qed

lemma plant_inv_proceed:
  assumes inv: "plant_inv sv peek running Ps p" and "fair (sv_os sv)" and n: "unused n p"
    and step: "proceed n i p = Some p'"
  shows "plant_inv sv peek running Ps p'"
proof -
  obtain q where q: "requests p i = Some q" using step by (auto simp: proceed_def split: option.splits)
  note ok = plant_inv_request [OF inv q]
  then have g: "r_gen q < length (live p)"
    and course: "on_course (Ps (r_gen q)) (configs p ! r_gen q) (sv_os sv) q" and wait: "waited q (live p ! r_gen q)"
    by (simp_all add: request_ok_def)
  obtain cfg s0 where c: "configs p ! r_gen q = (cfg, s0)" by fastforce
  note lives = plant_inv_lives [OF inv g, unfolded lives_def c, simplified]
  note to = plant_inv_to [OF inv q refl]
  show ?thesis
  proof (cases "r_stage q")
    case Loaded
    obtain ctx w where "with_timeout (r_ctx q) (timeout_of (live p ! r_gen q)) (world_now p) = (ctx, w)" by (metis surj_pair)
    with step q Loaded lives show ?thesis
      by (intro to [where ctx = ctx and st = "Deciding (chain_of (live p ! r_gen q))" and w = w])
        (auto simp: proceed_def Let_def on_course_def c)
  next
    case (Decided d)
    then have "may_decide (sound_maps (Ps (r_gen q)) (User (r_req q))) (r_req q) (builtin_plans (sv_os sv) cfg) d"
      using course by (simp add: on_course_def c)
    from decided_answer_by [OF this assms(2)] have "answer_by (Ps (r_gen q)) (sv_os sv) (fst (configs p ! r_gen q)) (r_req q)
        (decide_answer (r_req q) (Inr d))" by (simp add: c)
    moreover have "request_ok sv Ps p' q0 = request_ok sv Ps p q0" for q0
      using step q Decided by (auto simp: proceed_def Let_def request_ok_def)
    ultimately show ?thesis
      using step q Decided inv g by (auto simp: proceed_def Let_def plant_inv_def split: if_splits)
  next
    case (Waits m judge rest)
    then have "leads_to (sound_maps (Ps (r_gen q)) (User (r_req q))) (r_req q) (builtin_plans (sv_os sv) cfg)
        (Waits m judge rest)"
      using course by (simp add: on_course_def c)
    moreover have "all_back m (sources (live p ! r_gen q))"
      using step q Waits by (auto simp: proceed_def Let_def split: if_splits)
    then have "merge_results (results_of m (sources (live p ! r_gen q))) \<in> sound_maps (Ps (r_gen q)) (User (r_req q))"
      using lives wait Waits by (intro results_sound) (auto simp: waited_def)
    ultimately show ?thesis
      using step q Waits
      by (intro to [where ctx = "r_ctx q" and w = "world_now p" and
            st = "after (judge (merge_results (results_of m (sources (live p ! r_gen q))))) rest"])
        (auto simp: proceed_def Let_def on_course_def c leads_to_Waits split: if_splits)
  next
    case (Deciding rps)
    show ?thesis by (rule plant_inv_deciding [OF inv q n step Deciding])
  qed
qed

lemma plant_inv_moves:
  assumes "moves ops fops p p'" and inv: "plant_inv sv peek running Ps p" and "fair (sv_os sv)" and "heard Ps p'"
  shows "plant_inv sv peek running Ps p'"
  using assms(1)
proof (cases rule: moves.cases)
  case (proceeds n i)
  then show ?thesis by (rule plant_inv_proceed [OF inv assms(3)])
next
  case (resolves g j n sh)
  have keep: "\<exists>c'. callers sh m = Some c' \<and> key c' = key c" if "callers (sources (live p ! g) ! j) m = Some c" for m c
    using advance_keeps [OF resolves(3)] that by (simp add: source_def)
  have "\<forall>(k, v)\<in>set (said sh). Ps g k v"
    using assms(4) resolves(2) by (auto simp: resolves(1) intro: heard_put)
  from source_ok_advance [OF plant_inv_source [OF inv resolves(2)] resolves(3) this] keep show ?thesis
    unfolding resolves(1) by (rule plant_inv_put [OF inv resolves(2)])
qed

lemma fresh_caches:
  assumes "build_set sv is_print cfg = Inr d" and "\<forall>k. peek (sv_empty sv) k = None"
  shows "\<forall>cp\<in>set (providers d). cache_inv peek (\<lambda>_ _. False) cp"
proof -
  have "\<forall>cp\<in>set (providers d). cp_cache cp = sv_empty sv"
    using assms(1) by (auto simp: build_set_def NewSet_def dest: new_providers_fresh split: sum.splits)
  then show ?thesis using assms(2) by (simp add: cache_inv_def)
qed

lemma lives_bring_up:
  assumes "build_set sv is_print cfg = Inr d" and "running g0 = {}"
    and "decisionTimeout x = DecisionTimeout (Server cfg)" and "set_inv peek (answered d) (owned x)"
    and "\<forall>cp\<in>set (providers (owned x)). cache_inv peek (\<lambda>_ _. False) cp"
  shows "lives sv peek running P (cfg, d) (bring_up (sv_os sv) g0 w cfg x)"
  using assms by (auto simp: lives_def bring_up_def set_inv_def intro!: source_ok_opened)

lemma plant_inv_step:
  assumes "fine_step sv fops g0 p p'" and inv: "plant_inv sv peek running Ps p" and "fair (sv_os sv)"
    and "sv_ops sv = ops" and "\<forall>k. peek (sv_empty sv) k = None" and "running g0 = {}" and "heard Ps p'"
  shows "plant_inv sv peek running Ps p'"
  using assms(1)
proof (cases rule: fine_step.cases)
  case (arrives i ctx req)
  with inv show ?thesis
    by (auto simp: plant_inv_def request_ok_def on_course_def waited_def)
next
  case moves_on
  then show ?thesis using plant_inv_moves [OF _ inv assms(3,7)] assms(4) by simp
next
  case (reloads load_pair is_print cfg s' d)
  from reloads(2,3) obtain c where s': "s' = swap_in sv (policy_of sv cfg) cfg d c (front p)" by (elim ReloadE) auto
  have "set_inv peek (answered d) (set_flush ops d)"
    by (rule set_flush_inv, rule set_inv_providers, rule fresh_set, rule reloads(3), rule assms(5))
  moreover have "\<forall>cp\<in>set (providers (set_flush ops d)). cache_inv peek (\<lambda>_ _. False) cp"
    by (auto simp: set_flush_def cache_flush_inv)
  ultimately have new: "lives sv peek running P (cfg, d)
      (bring_up (sv_os sv) g0 (world_now p) cfg (states s' ! active s'))" for P
    by (intro lives_bring_up [OF reloads(3) assms(6)]) (simp_all add: s' assms(4) nth_append)
  have len: "length (configs p) = length (live p)" using inv by (simp add: plant_inv_def)
  have "request_ok sv Ps p' q" if "request_ok sv Ps p q" for q
    using that len by (simp add: request_ok_def reloads(1) nth_append)
  with inv new len show ?thesis
    by (auto simp: plant_inv_def reloads(1) s' list_all_iff nth_append less_Suc_eq)
next
  case (reload_fails load_pair is_print cfg' e s')
  then have "s' = front p" by (auto elim!: ReloadE)
  with inv reload_fails(1) show ?thesis by (simp add: plant_inv_def request_ok_def)
next
  case (flushes g j sh)
  show ?thesis
    unfolding flushes(1)
    by (rule plant_inv_put [OF inv flushes(2)])
      (use source_ok_flush [OF plant_inv_source [OF inv flushes(2)]] assms(4) in \<open>auto simp: flushes(3) source_def\<close>)
next
  case (world_turns w)
  with inv show ?thesis by (simp add: plant_inv_def request_ok_def)
qed

lemma plant_inv_start:
  assumes "started_process sv pr" and "fair (sv_os sv)" and "\<forall>k. peek (sv_empty sv) k = None" and "running g0 = {}"
  shows "plant_inv sv peek running Ps (brought_up sv g0 pr)"
proof -
  obtain other load_pair is_print cfg d s and m :: unit where b: "build_set sv is_print cfg = Inr d"
    and n: "New other load_pair (Some cfg) (Some (policy_of sv cfg, d)) (Some m) = Built s"
    and srv: "srv pr = s \<or> (\<exists>listen. srv pr = snd (Start listen s))" and built: "built pr = [(cfg, d)]"
    using assms(1) unfolding started_process_def by blast
  let ?a = "\<lparr>decider_of = policy_of sv cfg, decisionTimeout = DecisionTimeout (Server cfg), owned = d\<rparr>"
  have front: "states (srv pr) = [?a]" "active (srv pr) = 0" using srv NewD(1,2) [OF n] by auto
  have "lives sv peek running P (cfg, d) (bring_up (sv_os sv) g0 (wrld pr) cfg ?a)" for P
    by (rule lives_bring_up [OF b assms(4)])
      (use fresh_set [where peek = peek, OF b assms(3)] fresh_caches [OF b assms(3)] in simp_all)
  then show ?thesis by (simp add: plant_inv_def brought_up_def built front)
qed

end

subsection \<open>What the datasources have given\<close>

text \<open>It only grows.\<close>

lemma given_ask_all [simp]: "given (a\<lparr>sources := ask_all n ctx vars (sources a)\<rparr>) k v = given a k v"
  by (simp add: given_def ask_all_def)

lemma given_proceed:
  assumes "proceed n i p = Some p'"
  shows "length (live p') = length (live p) \<and> (given (live p' ! g) k v = given (live p ! g) k v)"
proof -
  obtain q where q: "requests p i = Some q" using assms by (auto simp: proceed_def split: option.splits)
  have "live p' = live p \<or> (\<exists>ctx vars. live p' =
      (live p)[r_gen q := (live p ! r_gen q)\<lparr>sources := ask_all n ctx vars (sources (live p ! r_gen q))\<rparr>])"
    using assms q
    by (auto simp: proceed_def Let_def split: stage.splits list.splits plan.splits prod.splits option.splits if_splits) blast
  then show ?thesis by (cases "g = r_gen q"; cases "r_gen q < length (live p)") (auto simp: list_update_beyond)
qed

lemma given_update:
  assumes "given a k v" and "set (said (sources a ! j)) \<subseteq> set (said sh)"
  shows "given (a\<lparr>sources := (sources a)[j := sh]\<rparr>) k v"
proof -
  obtain i where i: "i < length (sources a)" "(k, v) \<in> set (said (sources a ! i))"
    using assms(1) unfolding given_def by (metis in_set_conv_nth)
  then have "(k, v) \<in> set (said ((sources a)[j := sh] ! i))" using assms(2) by (cases "i = j") auto
  with i(1) show ?thesis unfolding given_def by (auto intro!: bexI [OF _ nth_mem])
qed

lemma given_put_source:
  assumes "is_source g j p" and "set (said (source g j p)) \<subseteq> set (said sh)" and "given (live p ! h) k v"
  shows "given (live (put_source g j sh p) ! h) k v"
proof (cases "h = g")
  case True
  with given_update [OF assms(3), of j sh] assms(1,2) show ?thesis
    by (simp add: put_source_def is_source_def source_def)
qed (use assms(3) in \<open>simp add: put_source_def\<close>)

lemma given_step:
  assumes "fine_step sv fops g0 p p'" and "g < length (live p)" and "given (live p ! g) k v"
  shows "g < length (live p') \<and> given (live p' ! g) k v"
  using assms(1)
proof (cases rule: fine_step.cases)
  case moves_on
  then show ?thesis
  proof (cases rule: moves.cases)
    case (proceeds n i)
    with given_proceed assms(2,3) show ?thesis by metis
  next
    case (resolves g' j n sh)
    have "set (said (source g' j p)) \<subseteq> set (said sh)" using advance_said_grows [OF resolves(3)] .
    from given_put_source [OF resolves(2) this assms(3)] assms(2) show ?thesis
      by (simp add: resolves(1) put_source_def)
  qed
next
  case (flushes g' j sh)
  have "set (said (source g' j p)) \<subseteq> set (said (sh\<lparr>decorator := cache_flush (sv_ops sv) (decorator sh)\<rparr>))"
    by (simp add: flushes(3))
  from given_put_source [OF flushes(2) this assms(3)] assms(2) show ?thesis
    by (simp add: flushes(1) put_source_def)
qed (use assms(2,3) in \<open>simp_all add: nth_append\<close>)

lemma heard_before: "fine_step sv fops g0 p p' \<Longrightarrow> heard Ps p' \<Longrightarrow> heard Ps p"
  unfolding heard_def by (auto dest: given_step)

context shared_cache
begin

lemma fine_reachable_inv:
  assumes "fine_reachable sv fops g0 p" and "fair (sv_os sv)" and "sv_ops sv = ops"
    and "\<forall>k. peek (sv_empty sv) k = None" and "running g0 = {}" and "heard Ps p"
  shows "plant_inv sv peek running Ps p"
  using assms(1,6)
proof (induction rule: fine_reachable.induct)
  case (starts pr)
  show ?case by (rule plant_inv_start [OF starts(1) assms(2,4,5)])
next
  case (runs p p')
  show ?case
    by (rule plant_inv_step [OF runs(2) runs(3) [OF heard_before [OF runs(2,4)]] assms(2-5) runs(4)])
qed

end

end
