(* ===== verification/Service_Alone.thy ===== *)
theory Service_Alone
  imports Service_Shared
begin

text \<open>
  Runs of the service of \<open>Service_Shared\<close>: every decision can come to its answer, and a
  decision whose steps come together is the one of \<open>Server.decide_on\<close>, so that the model in
  which a decision is one step is one of the interleavings.
\<close>

subsection \<open>Going on\<close>

text \<open>A run of one cache's callers is a run of the plant, which changes nothing but that cache
  and the world. The stored copy of the world may be an older one.\<close>

lemma source_put:
  assumes "is_source g j p"
  shows "source g j (put_source g j sh p) = sh" and "is_source g j (put_source g j sh p)"
    and "put_source g j x (put_source g j sh p) = put_source g j x p"
  using assms by (simp_all add: source_def put_source_def is_source_def)

lemma callers_run_moves:
  assumes "callers_run ops fops s s'" and "is_source g j p" and "s = source g j p"
  shows "\<exists>x. x\<lparr>outside := outside s'\<rparr> = s' \<and>
    (moves ops fops)\<^sup>*\<^sup>* p ((put_source g j x p)\<lparr>world_now := outside s'\<rparr>)"
  using assms
proof (induction arbitrary: p rule: callers_run.induct)
  case (stop s)
  let ?x = "sources (live p ! g) ! j"
  have "(put_source g j ?x p)\<lparr>world_now := outside s\<rparr> = p"
    using stop by (simp add: put_source_def source_def)
  moreover have "?x\<lparr>outside := outside s\<rparr> = s" using stop by (simp add: source_def)
  ultimately show ?case by (metis rtranclp.rtrancl_refl)
next
  case (go i s s1 s')
  let ?p = "put_source g j s1 p"
  have "moves ops fops p ?p" using go.hyps(1) go.prems by (auto intro: moves.resolves)
  moreover obtain x where "x\<lparr>outside := outside s'\<rparr> = s'"
      "(moves ops fops)\<^sup>*\<^sup>* ?p ((put_source g j x ?p)\<lparr>world_now := outside s'\<rparr>)"
    using go.IH [OF source_put(2) [OF go.prems(1)] source_put(1) [OF go.prems(1), symmetric]] by blast
  ultimately show ?case
    using source_put(3) [OF go.prems(1)] by (metis converse_rtranclp_into_rtranclp)
qed

lemma stale_fields:
  assumes "x\<lparr>outside := w\<rparr> = s'"
  shows "decorator x = decorator s'" and "callers x = callers s'" and "flights x = flights s'"
  using assms by auto

text \<open>Nothing has changed but the callers, and how far they are.\<close>

definition calm :: "('c, 'g, 'b, 'k) plant \<Rightarrow> ('c, 'g, 'b, 'k) plant \<Rightarrow> bool" where
  "calm p p' \<longleftrightarrow>
     requests p' = requests p \<and> answers p' = answers p \<and> configs p' = configs p \<and> front p' = front p \<and>
     map (length \<circ> sources) (live p') = map (length \<circ> sources) (live p)"

lemma calm_put: "calm p ((put_source g j x p)\<lparr>world_now := w\<rparr>)"
proof -
  have "map (length \<circ> sources) ((live p)[g := (live p ! g)\<lparr>sources := (sources (live p ! g))[j := x]\<rparr>]) =
      map (length \<circ> sources) (live p)"
    by (cases "g < length (live p)") (simp_all add: map_update list_update_same_conv list_update_beyond)
  then show ?thesis by (simp add: calm_def put_source_def)
qed

lemma calm_refl [simp]: "calm p p"
  by (simp add: calm_def)

lemma calm_trans: "calm p p' \<Longrightarrow> calm p' p'' \<Longrightarrow> calm p p''"
  by (simp add: calm_def)

lemma calm_length:
  assumes "calm p p'"
  shows "length (live p') = length (live p)"
    and "g < length (live p) \<Longrightarrow> length (sources (live p' ! g)) = length (sources (live p ! g))"
proof -
  have e: "map (length \<circ> sources) (live p') = map (length \<circ> sources) (live p)" using assms by (simp add: calm_def)
  from arg_cong [OF this, of length] show len: "length (live p') = length (live p)" by simp
  show "length (sources (live p' ! g)) = length (sources (live p ! g))" if "g < length (live p)"
    using arg_cong [OF e, of "\<lambda>xs. xs ! g"] that len by simp
qed

text \<open>All callers there are in a cache have their answers.\<close>

definition rested :: "('c, 'g, 'b) shared \<Rightarrow> bool" where
  "rested sh \<longleftrightarrow> (\<forall>n c. callers sh n = Some c \<longrightarrow> (\<exists>r. c_phase c = Answered r))"

definition decision_rank :: "stage \<Rightarrow> nat" where
  "decision_rank st =
     (case st of Loaded \<Rightarrow> 17 | Deciding rest \<Rightarrow> 2 * length rest + 2 | Waits _ _ rest \<Rightarrow> 2 * length rest + 3 | Decided _ \<Rightarrow> 1)"

lemma rank_after: "decision_rank (after d rest) < 2 * length rest + 3"
  by (simp add: decision_rank_def after_def)

context shared_cache
begin

lemma moves_inv:
  assumes "(moves ops fops)\<^sup>*\<^sup>* p p'" and "plant_inv sv peek running anything p" and "fair (sv_os sv)"
  shows "plant_inv sv peek running anything p'"
  using assms(1) by (induction rule: rtranclp_induct) (use assms(2,3) plant_inv_moves [OF _ _ _ heard_anything] in blast)+

lemma source_rests:
  assumes inv: "plant_inv sv peek running anything p" and src: "is_source g j p"
  shows "\<exists>p'. (moves ops fops)\<^sup>*\<^sup>* p p' \<and> calm p p' \<and> rested (sources (live p' ! g) ! j) \<and>
    (\<forall>k. k \<noteq> j \<longrightarrow> sources (live p' ! g) ! k = sources (live p ! g) ! k)"
proof -
  have "flights_ok running (source g j p)" using plant_inv_source [OF inv src] by (simp add: source_ok_def)
  then obtain s' where s': "callers_run ops fops (source g j p) s'"
    "\<forall>i c. callers s' i = Some c \<longrightarrow> (\<exists>r. c_phase c = Answered r)"
    using all_come_to_an_end by blast
  obtain x where x: "x\<lparr>outside := outside s'\<rparr> = s'"
      "(moves ops fops)\<^sup>*\<^sup>* p ((put_source g j x p)\<lparr>world_now := outside s'\<rparr>)"
    using callers_run_moves [OF s'(1) src refl] by blast
  have "rested x" using s'(2) stale_fields(2) [OF x(1)] by (simp add: rested_def)
  then show ?thesis
    using x(2) calm_put [where p = p and g = g and j = j and x = x] src
    by (intro exI [of _ "(put_source g j x p)\<lparr>world_now := outside s'\<rparr>"]) (simp add: put_source_def is_source_def)
qed

lemma sources_rest:
  assumes "plant_inv sv peek running anything p" and "fair (sv_os sv)" and "g < length (live p)"
    and "k \<le> length (sources (live p ! g))"
  shows "\<exists>p'. (moves ops fops)\<^sup>*\<^sup>* p p' \<and> calm p p' \<and> (\<forall>j<k. rested (sources (live p' ! g) ! j))"
  using assms(4)
proof (induction k)
  case (Suc k)
  then obtain p1 where p1: "(moves ops fops)\<^sup>*\<^sup>* p p1" "calm p p1" "\<forall>j<k. rested (sources (live p1 ! g) ! j)"
    by auto
  have "is_source g k p1"
    using Suc.prems calm_length [OF p1(2)] assms(3) by (simp add: is_source_def)
  from source_rests [OF moves_inv [OF p1(1) assms(1,2)] this] obtain p2 where
    p2: "(moves ops fops)\<^sup>*\<^sup>* p1 p2" "calm p1 p2" "rested (sources (live p2 ! g) ! k)"
      "\<forall>j. j \<noteq> k \<longrightarrow> sources (live p2 ! g) ! j = sources (live p1 ! g) ! j" by blast
  have "(moves ops fops)\<^sup>*\<^sup>* p p2" using p1(1) p2(1) by (rule rtranclp_trans)
  moreover have "rested (sources (live p2 ! g) ! j)" if "j < Suc k" for j
    using that p1(3) p2(3,4) by (cases "j = k") auto
  ultimately show ?case using calm_trans [OF p1(2) p2(2)] by blast
qed auto

lemma unused_exists:
  assumes "plant_inv sv peek running anything p"
  shows "\<exists>n. unused n p"
proof -
  let ?U = "\<Union>a\<in>set (live p). \<Union>sh\<in>set (sources a). dom (callers sh)"
  have "finite (dom (callers sh))" if "a \<in> set (live p)" "sh \<in> set (sources a)" for a sh
  proof -
    from that(1) obtain g where g: "g < length (live p)" "a = live p ! g" by (auto simp: in_set_conv_nth)
    have "flights_ok running sh"
      using plant_inv_lives [OF assms g(1)] that(2) g(2) by (simp add: lives_def source_ok_def)
    then show ?thesis by (simp add: flights_ok_def)
  qed
  then have "finite ?U" by (intro finite_UN_I finite_set)
  then obtain n where "n \<notin> ?U" using ex_new_if_finite [OF infinite_UNIV_nat] by blast
  then show ?thesis by (auto simp: unused_def)
qed

lemma rested_all_back:
  assumes "\<forall>j<length (sources a). rested (sources a ! j)" and "waited q a" and "r_stage q = Waits n judge rest"
  shows "all_back n (sources a)"
  unfolding all_back_def list_all_iff
proof
  fix sh assume sh: "sh \<in> set (sources a)"
  then obtain c where "callers sh n = Some c" using assms(2,3) by (auto simp: waited_def)
  moreover have "rested sh" using sh assms(1) by (auto simp: in_set_conv_nth)
  ultimately show "answer_to n sh \<noteq> None" by (fastforce simp: rested_def answer_to_def)
qed

text \<open>Once the caches rest, a decision can take its next step.\<close>

lemma decision_steps:
  assumes inv: "plant_inv sv peek running anything p" and q: "requests p i = Some q" and n: "unused n p"
    and rest: "\<forall>j<length (sources (live p ! r_gen q)). rested (sources (live p ! r_gen q) ! j)"
  shows "\<exists>p'. proceed n i p = Some p' \<and>
    ((\<exists>x. answers p' = answers p @ [(r_gen q, r_req q, x)]) \<and> requests p' = (requests p)(i := None) \<or>
     answers p' = answers p \<and> (\<exists>q'. requests p' = (requests p)(i \<mapsto> q') \<and> r_gen q' = r_gen q \<and>
       r_req q' = r_req q \<and> decision_rank (r_stage q') < decision_rank (r_stage q)))"
proof -
  have ok: "request_ok sv anything p q" by (rule plant_inv_request [OF inv q])
  show ?thesis
  proof (cases "r_stage q")
    case Loaded
    have "chain_of (live p ! r_gen q) = builtin_plans (sv_os sv) (fst (configs p ! r_gen q))"
      using plant_inv_lives [OF inv] ok by (simp add: request_ok_def lives_def)
    then have "length (chain_of (live p ! r_gen q)) = 7" by (simp add: builtin_plans_def)
    with q Loaded show ?thesis
      by (auto simp: proceed_def Let_def decision_rank_def split: prod.splits)
  next
    case (Deciding rps)
    show ?thesis
    proof (cases rps)
      case (Cons rp rest)
      then have stage: "r_stage q = Deciding (rp # rest)" using Deciding by simp
      have "proceed n i p \<noteq> None"
        using q stage by (simp add: proceed_def Let_def split: plan.split prod.split option.split)
      then obtain p' where p': "proceed n i p = Some p'" by blast
      from q stage p' show ?thesis
      proof (cases rule: proceed_deciding)
        case (1 d w)
        with p' stage rank_after [of d rest] show ?thesis
          by (intro exI [of _ p'] conjI p' disjI2) (auto simp: decision_rank_def)
      next
        case (2 judge is_print ctx vars w)
        with p' stage show ?thesis
          by (intro exI [of _ p'] conjI p' disjI2) (auto simp: decision_rank_def)
      qed
    qed (use q Deciding in \<open>auto simp: proceed_def Let_def decision_rank_def\<close>)
  next
    case (Waits m judge rps)
    have "all_back m (sources (live p ! r_gen q))"
      using rested_all_back [OF rest _ Waits] ok by (simp add: request_ok_def)
    with q Waits rank_after [of _ rps] show ?thesis
      by (auto simp: proceed_def Let_def decision_rank_def)
  next
    case (Decided d)
    with q show ?thesis by (auto simp: proceed_def Let_def intro: prod_cases3)
  qed
qed

lemma decision_ends:
  assumes "plant_inv sv peek running anything p" and "fair (sv_os sv)" and "requests p i = Some q"
  shows "\<exists>p' x. (moves ops fops)\<^sup>*\<^sup>* p p' \<and> answers p' = answers p @ [(r_gen q, r_req q, x)] \<and>
    requests p' = (requests p)(i := None)"
  using assms(1,3)
proof (induction "decision_rank (r_stage q)" arbitrary: p q rule: less_induct)
  case less
  note inv = less.prems(1) and q = less.prems(2)
  have "r_gen q < length (live p)" using plant_inv_request [OF inv q] by (simp add: request_ok_def)
  from sources_rest [OF inv assms(2) this order_refl] obtain p1 where
    p1: "(moves ops fops)\<^sup>*\<^sup>* p p1" "calm p p1"
      "\<forall>j<length (sources (live p ! r_gen q)). rested (sources (live p1 ! r_gen q) ! j)" by blast
  have inv1: "plant_inv sv peek running anything p1" by (rule moves_inv [OF p1(1) inv assms(2)])
  obtain n where n: "unused n p1" using unused_exists [OF inv1] by blast
  have same: "requests p1 = requests p" "answers p1 = answers p" using p1(2) by (simp_all add: calm_def)
  have "\<forall>j<length (sources (live p1 ! r_gen q)). rested (sources (live p1 ! r_gen q) ! j)"
    using p1(3) calm_length(2) [OF p1(2) \<open>r_gen q < length (live p)\<close>] by simp
  from decision_steps [OF inv1 _ n this, of i] q same obtain p2 where
    p2: "proceed n i p1 = Some p2"
    and cases: "(\<exists>x. answers p2 = answers p @ [(r_gen q, r_req q, x)]) \<and> requests p2 = (requests p)(i := None) \<or>
     answers p2 = answers p \<and> (\<exists>q'. requests p2 = (requests p)(i \<mapsto> q') \<and> r_gen q' = r_gen q \<and>
       r_req q' = r_req q \<and> decision_rank (r_stage q') < decision_rank (r_stage q))" by auto
  have run: "(moves ops fops)\<^sup>*\<^sup>* p p2"
    using p1(1) moves.proceeds [OF n p2] by (rule rtranclp.rtrancl_into_rtrancl)
  from cases show ?case
  proof (elim disjE conjE exE)
    fix q' assume q': "answers p2 = answers p" "requests p2 = (requests p)(i \<mapsto> q')" "r_gen q' = r_gen q"
      "r_req q' = r_req q" "decision_rank (r_stage q') < decision_rank (r_stage q)"
    from less.hyps [OF q'(5) moves_inv [OF run inv assms(2)]] q' obtain p3 x where
      "(moves ops fops)\<^sup>*\<^sup>* p2 p3" "answers p3 = answers p @ [(r_gen q, r_req q, x)]"
      "requests p3 = (requests p)(i := None)" by auto
    with run show ?thesis by (meson rtranclp_trans)
  qed (use run in blast)
qed

end

subsection \<open>A decision on its own\<close>

lemma follow_chain_ok:
  "chain_evaluate (map (follow os ops) rps) ctx req st = (r, st') \<Longrightarrow> \<exists>d. r = Inr d"
  by (induction rps arbitrary: st)
    (auto simp: follow_def split: prod.splits sum.splits plan.splits if_splits)

text \<open>Nobody refreshes the identity \<open>k\<close> in these caches, and their decorators are those of \<open>d\<close>.\<close>

definition quiet :: "('g \<Rightarrow> string set) \<Rightarrow> string \<Rightarrow> ('c, 'g, 'b) shared list \<Rightarrow> bool" where
  "quiet running k shs \<longleftrightarrow> (\<forall>sh\<in>set shs. k \<notin> running (flights sh))"

definition mirrors :: "('c, 'g, 'b) live_state \<Rightarrow> ('c, 'b) ds_set \<Rightarrow> bool" where
  "mirrors a d \<longleftrightarrow> map decorator (sources a) = providers d"

text \<open>Nothing outside request \<open>i\<close> and its state's caches has changed.\<close>

definition apart :: "nat \<Rightarrow> nat \<Rightarrow> ('c, 'g, 'b, 'k) plant \<Rightarrow> ('c, 'g, 'b, 'k) plant \<Rightarrow> bool" where
  "apart i g p p' \<longleftrightarrow>
     (\<forall>k. k \<noteq> i \<longrightarrow> requests p' k = requests p k) \<and> front p' = front p \<and> configs p' = configs p \<and>
     length (live p') = length (live p) \<and> (\<forall>k. k \<noteq> g \<longrightarrow> live p' ! k = live p ! k) \<and>
     chain_of (live p' ! g) = chain_of (live p ! g) \<and> timeout_of (live p' ! g) = timeout_of (live p ! g)"

lemma apart_refl [simp]: "apart i g p p"
  by (simp add: apart_def)

lemma apart_trans: "apart i g p p' \<Longrightarrow> apart i g p' p'' \<Longrightarrow> apart i g p p''"
  by (simp add: apart_def)

lemma apart_put: "g < length (live p) \<Longrightarrow> apart i g p ((put_source g j x p)\<lparr>world_now := w\<rparr>)"
  by (simp add: apart_def put_source_def)

text \<open>The goroutines run one after the other in the order \<open>order\<close>; those that have not run yet
  have just asked.\<close>

definition asked_at :: "nat \<Rightarrow> go_ctx \<Rightarrow> string go_map \<Rightarrow> ('c, 'g, 'b) shared \<Rightarrow> bool" where
  "asked_at n ctx vars sh \<longleftrightarrow> callers sh n = Some \<lparr>c_ctx = ctx, c_vars = vars, c_phase = Asked\<rparr>"

context shared_cache
begin

lemma one_source_alone:
  assumes inv: "plant_inv sv peek running anything p" and src: "is_source g j p"
    and asked: "asked_at n ctx vars (sources (live p ! g) ! j)"
    and q: "quiet running (read_string vars identityVar) (sources (live p ! g))"
    and r: "cached_resolve ops ctx vars (decorator (sources (live p ! g) ! j)) (world_now p) = (r, cp', w')"
  shows "\<exists>x. (moves ops fops)\<^sup>*\<^sup>* p ((put_source g j x p)\<lparr>world_now := w'\<rparr>) \<and>
    decorator x = cp' \<and> answer_to n x = Some r \<and> read_string vars identityVar \<notin> running (flights x)"
proof -
  let ?s = "source g j p" and ?c = "\<lparr>c_ctx = ctx, c_vars = vars, c_phase = Asked\<rparr>"
  have c: "callers ?s n = Some ?c" using asked by (simp add: asked_at_def source_def)
  have ok: "flights_ok running ?s" using plant_inv_source [OF inv src] by (simp add: source_ok_def)
  have k: "key ?c = read_string vars identityVar" by (simp add: key_def)
  have free: "key ?c \<notin> running (flights ?s)"
    using q src unfolding k by (simp add: quiet_def source_def is_source_def)
  have "cached_resolve ops (c_ctx ?c) (c_vars ?c) (decorator ?s) (outside ?s) = (r, cp', w')"
    using r by (simp add: source_def)
  from runs_alone [OF ok c _ free this] obtain s' where s': "callers_run ops fops ?s s'"
    "decorator s' = cp'" "outside s' = w'" "callers s' = become n ?c (Answered r) (callers ?s)"
    "running (flights s') = running (flights ?s)" by auto
  obtain x where x: "x\<lparr>outside := outside s'\<rparr> = s'"
      "(moves ops fops)\<^sup>*\<^sup>* p ((put_source g j x p)\<lparr>world_now := outside s'\<rparr>)"
    using callers_run_moves [OF s'(1) src refl] by blast
  note f = stale_fields [OF x(1)]
  have "answer_to n x = Some r"
    by (simp add: answer_to_def f s'(4) c)
  moreover have "read_string vars identityVar \<notin> running (flights x)"
    using free f(3) s'(5) k by simp
  ultimately show ?thesis using x(2) f(1) s'(2,3) by auto
qed

lemma sources_in_order:
  assumes "fold (ask_provider ops ctx vars) order (ps, results, world_now p) = (ps', results', w')"
    and "distinct order" and "set order \<subseteq> {..<length ps}" and "length results = length ps"
    and "plant_inv sv peek running anything p" and "fair (sv_os sv)" and "g < length (live p)"
    and "map decorator (sources (live p ! g)) = ps"
    and "quiet running (read_string vars identityVar) (sources (live p ! g))"
    and "\<forall>j<length ps. if j \<in> set order then asked_at n ctx vars (sources (live p ! g) ! j) \<and> results ! j = []
       else \<exists>r. answer_to n (sources (live p ! g) ! j) = Some r \<and> results ! j = slot [] r"
    and "requests p i = Some q"
  shows "\<exists>p'. (moves ops fops)\<^sup>*\<^sup>* p p' \<and> apart i g p p' \<and> requests p' = requests p \<and> answers p' = answers p \<and>
    world_now p' = w' \<and> map decorator (sources (live p' ! g)) = ps' \<and>
    quiet running (read_string vars identityVar) (sources (live p' ! g)) \<and>
    all_back n (sources (live p' ! g)) \<and> results_of n (sources (live p' ! g)) = results'"
  using assms
proof (induction order arbitrary: ps results p)
  case Nil
  have len: "length (sources (live p ! g)) = length ps" using Nil.prems(8) by auto
  have "all_back n (sources (live p ! g))"
    using Nil.prems(10) len by (fastforce simp: all_back_def list_all_length)
  moreover have "results_of n (sources (live p ! g)) = results"
    using Nil.prems(4,10) len by (intro nth_equalityI) (auto simp: results_of_def)
  ultimately show ?case using Nil.prems by (intro exI [of _ p]) simp
next
  case (Cons j order)
  let ?shs = "sources (live p ! g)"
  obtain r cp w1 where r: "cached_resolve ops ctx vars (ps ! j) (world_now p) = (r, cp, w1)" by (metis surj_pair)
  have len: "length ?shs = length ps" using Cons.prems(8) by auto
  have j: "j < length ps" "j \<notin> set order" using Cons.prems(2,3) by auto
  have src: "is_source g j p" using Cons.prems(7) j len by (simp add: is_source_def)
  have "decorator (?shs ! j) = ps ! j" using Cons.prems(8) j(1) len by (metis nth_map)
  with one_source_alone [OF Cons.prems(5) src _ Cons.prems(9), of n ctx r cp w1] Cons.prems(10) r j obtain x where
    x: "(moves ops fops)\<^sup>*\<^sup>* p ((put_source g j x p)\<lparr>world_now := w1\<rparr>)" "decorator x = cp"
      "answer_to n x = Some r" "read_string vars identityVar \<notin> running (flights x)" by auto
  let ?p = "(put_source g j x p)\<lparr>world_now := w1\<rparr>"
  let ?results = "case r of Inl _ \<Rightarrow> results | Inr v \<Rightarrow> results[j := v]"
  have shs: "sources (live ?p ! g) = ?shs[j := x]" using Cons.prems(7) by (simp add: put_source_def)
  have fold: "fold (ask_provider ops ctx vars) order (ps[j := cp], ?results, world_now ?p) = (ps', results', w')"
  proof -
    have "ask_provider ops ctx vars j (ps, results, world_now p) = (ps[j := cp], ?results, w1)"
      by (simp add: ask_provider_def r)
    then show ?thesis using Cons.prems(1) by simp
  qed
  have inv: "plant_inv sv peek running anything ?p" by (rule moves_inv [OF x(1) Cons.prems(5,6)])
  have "\<exists>p'. (moves ops fops)\<^sup>*\<^sup>* ?p p' \<and> apart i g ?p p' \<and> requests p' = requests ?p \<and> answers p' = answers ?p \<and>
      world_now p' = w' \<and> map decorator (sources (live p' ! g)) = ps' \<and>
      quiet running (read_string vars identityVar) (sources (live p' ! g)) \<and>
      all_back n (sources (live p' ! g)) \<and> results_of n (sources (live p' ! g)) = results'"
  proof (rule Cons.IH [OF fold])
    show "distinct order" "set order \<subseteq> {..<length (ps[j := cp])}" "length ?results = length (ps[j := cp])"
      using Cons.prems(2-4) by (auto split: sum.split)
    show "plant_inv sv peek running anything ?p" "fair (sv_os sv)" by (rule inv, rule Cons.prems(6))
    show "g < length (live ?p)" "requests ?p i = Some q" using Cons.prems(7,11) by (simp_all add: put_source_def)
    show "map decorator (sources (live ?p ! g)) = ps[j := cp]"
      unfolding shs by (simp add: map_update Cons.prems(8) x(2))
    show "quiet running (read_string vars identityVar) (sources (live ?p ! g))"
      using Cons.prems(9) x(4) unfolding shs quiet_def by (auto dest!: set_update_subset_insert [THEN subsetD])
    show "\<forall>k<length (ps[j := cp]). if k \<in> set order
        then asked_at n ctx vars (sources (live ?p ! g) ! k) \<and> ?results ! k = []
        else \<exists>r. answer_to n (sources (live ?p ! g) ! k) = Some r \<and> ?results ! k = slot [] r"
    proof (intro allI impI)
      fix k assume k: "k < length (ps[j := cp])"
      show "if k \<in> set order
        then asked_at n ctx vars (sources (live ?p ! g) ! k) \<and> ?results ! k = []
        else \<exists>r. answer_to n (sources (live ?p ! g) ! k) = Some r \<and> ?results ! k = slot [] r"
      proof (cases "k = j")
        case True
        have "results ! j = []" using Cons.prems(10) j by simp
        with True j x(3) len Cons.prems(4) show ?thesis unfolding shs by (auto split: sum.split)
      next
        case False
        then have "?results ! k = results ! k" by (auto split: sum.split)
        with False k Cons.prems(10) show ?thesis unfolding shs by simp
      qed
    qed
  qed
  then obtain p' where p': "(moves ops fops)\<^sup>*\<^sup>* ?p p'" "apart i g ?p p'" "requests p' = requests ?p"
      "answers p' = answers ?p" "world_now p' = w'" "map decorator (sources (live p' ! g)) = ps'"
      "quiet running (read_string vars identityVar) (sources (live p' ! g))"
      "all_back n (sources (live p' ! g))" "results_of n (sources (live p' ! g)) = results'" by blast
  have "(moves ops fops)\<^sup>*\<^sup>* p p'" using x(1) p'(1) by (rule rtranclp_trans)
  moreover have "apart i g p p'" using apart_trans [OF apart_put [OF Cons.prems(7)] p'(2)] .
  moreover have "requests p' = requests p" "answers p' = answers p" using p'(3,4) by (simp_all add: put_source_def)
  ultimately show ?case using p'(5-9) by blast
qed

text \<open>A rule on its own is \<open>follow\<close>.\<close>

lemma rule_alone:
  assumes inv: "plant_inv sv peek running anything p" and fair: "fair (sv_os sv)" and q: "requests p i = Some q"
    and stage: "r_stage q = Deciding (rp # rest)" and g: "r_gen q = g"
    and m: "mirrors (live p ! g) d" and quiet: "quiet running (User (r_req q)) (sources (live p ! g))"
    and f: "follow (sv_os sv) ops rp (r_ctx q) (r_req q) (d, world_now p) = (Inr dec, (d', w'))"
  shows "\<exists>p'. (moves ops fops)\<^sup>*\<^sup>* p p' \<and> apart i g p p' \<and>
    requests p' i = Some (q\<lparr>r_stage := after dec rest\<rparr>) \<and> answers p' = answers p \<and>
    world_now p' = w' \<and> mirrors (live p' ! g) d' \<and> quiet running (User (r_req q)) (sources (live p' ! g))"
proof -
  obtain n where n: "unused n p" using unused_exists [OF inv] by blast
  have gl: "g < length (live p)" using plant_inv_request [OF inv q] g by (simp add: request_ok_def)
  have one: ?thesis
    if "proceed n i p = Some (p\<lparr>world_now := w', requests := (requests p)(i \<mapsto> q\<lparr>r_stage := after dec rest\<rparr>)\<rparr>)"
      and "d' = d"
    by (rule exI [of _ "p\<lparr>world_now := w', requests := (requests p)(i \<mapsto> q\<lparr>r_stage := after dec rest\<rparr>)\<rparr>"])
      (use r_into_rtranclp [of "moves ops fops", OF moves.proceeds [OF n that(1)]] that(2) m quiet in \<open>simp add: apart_def\<close>)
  show ?thesis
  proof (cases "rp (r_req q) (print_table (world_now p))")
    case (At_once e)
    with f q stage show ?thesis by (intro one) (auto simp: follow_def proceed_def)
  next
    case (Ask judge)
    let ?ctx = "WithRequestContext (r_ctx q) (RequestMethod (r_req q)) (RequestURI (r_req q))"
    let ?order = "os_schedule (sv_os sv) (length (providers d))"
    obtain mp where mp: "set_resolve_in_order ?order ops ?ctx (Extract (r_req q)) d (world_now p) = (mp, d', w')"
      and dec: "dec = judge mp"
      using f by (auto simp: follow_def Ask resolveVars_def set_resolve_def Let_def split: prod.splits)
    obtain cleaned evs where e: "sanitize (print_table (world_now p)) ?ctx (Extract (r_req q)) = (cleaned, evs)"
      by fastforce
    let ?shs = "sources (live p ! g)"
    have none: "?shs = [] \<longleftrightarrow> providers d = []" using m by (auto simp: mirrors_def)
    show ?thesis
    proof (cases "cleaned = None \<or> ?shs = []")
      case True
      then have "mp = Map.empty" "d' = d" "w' = emit_all evs (world_now p)"
        using mp e none by (auto simp: set_resolve_in_order_def split: option.splits)
      with True Ask e q stage dec g show ?thesis
        by (intro one) (auto simp: proceed_def Let_def split: option.split)
    next
      case False
      then obtain vars where vars: "cleaned = Some vars" by auto
      let ?p = "p\<lparr>world_now := emit_all evs (world_now p),
          live := (live p)[g := (live p ! g)\<lparr>sources := ask_all n ?ctx vars ?shs\<rparr>],
          requests := (requests p)(i \<mapsto> q\<lparr>r_stage := Waits n judge rest\<rparr>)\<rparr>"
      have "proceed n i p = Some ?p"
        using False Ask e q stage vars g by (simp add: proceed_def Let_def)
      note asks = moves.proceeds [OF n this, of ops fops]
      have inv1: "plant_inv sv peek running anything ?p" by (rule plant_inv_moves [OF asks inv fair heard_anything])
      have k: "read_string vars identityVar = User (r_req q)"
        using sanitize_Some_identity [OF e [unfolded vars]] by simp
      obtain ps' results' where fold: "fold (ask_provider ops ?ctx vars) ?order
          (providers d, replicate (length (providers d)) [], world_now ?p) = (ps', results', w')"
        and mp': "mp = merge_results results'" and d': "d' = d\<lparr>providers := ps'\<rparr>"
        using mp e vars False none by (auto simp: set_resolve_in_order_def split: prod.splits)
      have len: "length ?shs = length (providers d)" using m unfolding mirrors_def by (metis length_map)
      have shs: "sources (live ?p ! g) = ask_all n ?ctx vars ?shs" using gl by simp
      have order: "distinct ?order" "set ?order = {..<length (providers d)}"
        using fair by (simp_all add: fair_def schedule_def)
      have decs: "map decorator (sources (live ?p ! g)) = providers d"
        using m unfolding shs by (simp add: ask_all_def mirrors_def comp_def)
      have quiet1: "quiet running (read_string vars identityVar) (sources (live ?p ! g))"
        using quiet unfolding shs k by (auto simp: quiet_def callers_ask_all)
      have asked: "\<forall>j<length (providers d). if j \<in> set ?order
          then asked_at n ?ctx vars (sources (live ?p ! g) ! j) \<and> replicate (length (providers d)) [] ! j = []
          else \<exists>r. answer_to n (sources (live ?p ! g) ! j) = Some r \<and>
            replicate (length (providers d)) [] ! j = slot [] r"
        unfolding shs using order(2) len by (simp add: ask_all_def asked_at_def)
      obtain p1 where p1: "(moves ops fops)\<^sup>*\<^sup>* ?p p1" "apart i g ?p p1" "requests p1 = requests ?p"
          "answers p1 = answers ?p" "world_now p1 = w'" "map decorator (sources (live p1 ! g)) = ps'"
          "quiet running (read_string vars identityVar) (sources (live p1 ! g))"
          "all_back n (sources (live p1 ! g))" "results_of n (sources (live p1 ! g)) = results'"
        using sources_in_order [OF fold order(1) _ _ inv1 fair _ decs quiet1 asked, of i] order(2) gl by auto
      have run: "(moves ops fops)\<^sup>*\<^sup>* p p1" using asks p1(1) by (rule converse_rtranclp_into_rtranclp)
      obtain n1 where n1: "unused n1 p1" using unused_exists [OF moves_inv [OF p1(1) inv1 fair]] by blast
      let ?p2 = "p1\<lparr>requests := (requests p1)(i \<mapsto> q\<lparr>r_stage := after dec rest\<rparr>)\<rparr>"
      have "proceed n1 i p1 = Some ?p2"
        using p1(3,8,9) g by (simp add: proceed_def Let_def dec mp')
      from moves.proceeds [OF n1 this] run have "(moves ops fops)\<^sup>*\<^sup>* p ?p2" by (meson rtranclp.rtrancl_into_rtrancl)
      moreover have "apart i g p ?p2" using p1(2,3) gl by (simp add: apart_def)
      ultimately show ?thesis
        using p1 d' k by (intro exI [of _ ?p2]) (simp add: mirrors_def)
    qed
  qed
qed

text \<open>The rules that are left, and then the whole decision.\<close>

lemma rules_alone:
  assumes "plant_inv sv peek running anything p" and "fair (sv_os sv)" and "requests p i = Some q"
    and "r_stage q = Deciding rps" and "r_gen q = g"
    and "mirrors (live p ! g) d" and "quiet running (User (r_req q)) (sources (live p ! g))"
    and "chain_evaluate (map (follow (sv_os sv) ops) rps) (r_ctx q) (r_req q) (d, world_now p) = (Inr dec, (d', w'))"
  shows "\<exists>p'. (moves ops fops)\<^sup>*\<^sup>* p p' \<and> apart i g p p' \<and>
    requests p' i = Some (q\<lparr>r_stage := Decided dec\<rparr>) \<and> answers p' = answers p \<and>
    world_now p' = w' \<and> mirrors (live p' ! g) d'"
  using assms
proof (induction rps arbitrary: p q d)
  case Nil
  obtain n where n: "unused n p" using unused_exists [OF Nil.prems(1)] by blast
  let ?p = "p\<lparr>requests := (requests p)(i \<mapsto> q\<lparr>r_stage := Decided dec\<rparr>)\<rparr>"
  have "proceed n i p = Some ?p" using Nil.prems by (auto simp: proceed_def Let_def)
  from r_into_rtranclp [of "moves ops fops", OF moves.proceeds [OF n this]] show ?case
    using Nil.prems by (intro exI [of _ ?p]) (auto simp: apart_def)
next
  case (Cons rp rest)
  obtain r d1 w1 where f: "follow (sv_os sv) ops rp (r_ctx q) (r_req q) (d, world_now p) = (r, (d1, w1))"
    by (metis surj_pair)
  then obtain e where e: "r = Inr e" by (auto simp: follow_def split: plan.splits prod.splits)
  from rule_alone [OF Cons.prems(1-7) f [unfolded e]] obtain p1 where
    p1: "(moves ops fops)\<^sup>*\<^sup>* p p1" "apart i g p p1" "requests p1 i = Some (q\<lparr>r_stage := after e rest\<rparr>)"
      "answers p1 = answers p" "world_now p1 = w1" "mirrors (live p1 ! g) d1"
      "quiet running (User (r_req q)) (sources (live p1 ! g))" by blast
  show ?case
  proof (cases "Verdict e = Abstain")
    case False
    with Cons.prems(8) f e p1 show ?thesis by (intro exI [of _ p1]) (auto simp: after_def)
  next
    case True
    let ?q = "q\<lparr>r_stage := Deciding rest\<rparr>"
    have "\<exists>p'. (moves ops fops)\<^sup>*\<^sup>* p1 p' \<and> apart i g p1 p' \<and>
        requests p' i = Some (?q\<lparr>r_stage := Decided dec\<rparr>) \<and> answers p' = answers p1 \<and>
        world_now p' = w' \<and> mirrors (live p' ! g) d'"
      using True p1 Cons.prems(5,8) f e
      by (intro Cons.IH [OF moves_inv [OF p1(1) Cons.prems(1,2)] Cons.prems(2), of ?q d1]) (auto simp: after_def)
    then obtain p2 where "(moves ops fops)\<^sup>*\<^sup>* p1 p2" "apart i g p1 p2"
      "requests p2 i = Some (q\<lparr>r_stage := Decided dec\<rparr>)" "answers p2 = answers p" "world_now p2 = w'"
      "mirrors (live p2 ! g) d'" using p1(4) by auto
    moreover from this(1) p1(1) have "(moves ops fops)\<^sup>*\<^sup>* p p2" by (meson rtranclp_trans)
    moreover have "apart i g p p2" by (rule apart_trans [OF p1(2) calculation(2)])
    ultimately show ?thesis by blast
  qed
qed

lemma decision_alone:
  assumes inv: "plant_inv sv peek running anything p" and fair: "fair (sv_os sv)" and ops: "sv_ops sv = ops"
    and q: "requests p i = Some q" and stage: "r_stage q = Loaded" and g: "r_gen q = g"
    and quiet: "quiet running (User (r_req q)) (sources (live p ! g))"
    and s: "decider_of (states s ! g) = policy_of sv (fst (configs p ! g))" "g < length (states s)"
      "decisionTimeout (states s ! g) = timeout_of (live p ! g)" "mirrors (live p ! g) (owned (states s ! g))"
    and d: "decide_on g (r_ctx q) (r_req q) (s, world_now p) = (x, (s', w'))"
  shows "\<exists>p'. (moves ops fops)\<^sup>*\<^sup>* p p' \<and> apart i g p p' \<and> requests p' i = None \<and>
    answers p' = answers p @ [(g, r_req q, x)] \<and> world_now p' = w' \<and> mirrors (live p' ! g) (owned (states s' ! g))"
proof -
  let ?a = "live p ! g"
  obtain n where n: "unused n p" using unused_exists [OF inv] by blast
  have gl: "g < length (live p)" using plant_inv_request [OF inv q] g by (simp add: request_ok_def)
  have chain: "chain_of ?a = builtin_plans (sv_os sv) (fst (configs p ! g))"
    using plant_inv_lives [OF inv gl] by (simp add: lives_def)
  obtain ctx w1 where t: "with_timeout (r_ctx q) (timeout_of ?a) (world_now p) = (ctx, w1)" by (metis surj_pair)
  let ?q = "q\<lparr>r_ctx := ctx, r_stage := Deciding (chain_of ?a)\<rparr>"
  let ?p = "p\<lparr>world_now := w1, requests := (requests p)(i \<mapsto> ?q)\<rparr>"
  have "proceed n i p = Some ?p" using q stage g t by (simp add: proceed_def Let_def)
  note loads = moves.proceeds [OF n this, of ops fops]
  have inv1: "plant_inv sv peek running anything ?p" by (rule plant_inv_moves [OF loads inv fair heard_anything])
  obtain r d' w2 where c: "chain_evaluate (map (follow (sv_os sv) ops) (chain_of ?a)) ctx (r_req q)
      (owned (states s ! g), w1) = (r, (d', w2))" by (metis surj_pair)
  obtain dec where dec: "r = Inr dec" using follow_chain_ok [OF c] by blast
  have answer: "decider_of (states s ! g) ctx (r_req q) (owned (states s ! g), w1) =
      (decide_answer (r_req q) (Inr dec), (d', emit_all (decide_events (r_req q) (Inr dec)) w2))"
    using c by (simp add: s(1) policy_of_def ops builtin_follows chain dec chain_decide_def)
  have x: "x = decide_answer (r_req q) (Inr dec)" "s' = s\<lparr>states := (states s)[g := (states s ! g)\<lparr>owned := d'\<rparr>]\<rparr>"
    "w' = emit_all (decide_events (r_req q) (Inr dec)) w2"
    using d t s(3) answer by (simp_all add: decide_on_def Let_def)
  from rules_alone [OF inv1 fair, of i ?q "chain_of ?a" g "owned (states s ! g)" dec d' w2] c dec g quiet s(4)
  obtain p1 where p1: "(moves ops fops)\<^sup>*\<^sup>* ?p p1" "apart i g ?p p1" "requests p1 i = Some (?q\<lparr>r_stage := Decided dec\<rparr>)"
      "answers p1 = answers p" "world_now p1 = w2" "mirrors (live p1 ! g) d'" by auto
  obtain n1 where n1: "unused n1 p1" using unused_exists [OF moves_inv [OF p1(1) inv1 fair]] by blast
  let ?p2 = "p1\<lparr>world_now := w', requests := (requests p1)(i := None), answers := answers p @ [(g, r_req q, x)]\<rparr>"
  have "proceed n1 i p1 = Some ?p2"
    using p1(3-5) g x by (simp add: proceed_def Let_def)
  from moves.proceeds [OF n1 this] p1(1) have "(moves ops fops)\<^sup>*\<^sup>* ?p ?p2" by (meson rtranclp.rtrancl_into_rtrancl)
  with loads have "(moves ops fops)\<^sup>*\<^sup>* p ?p2" by (meson converse_rtranclp_into_rtranclp)
  moreover have "apart i g p ?p2" using p1(2) by (auto simp: apart_def split: if_splits)
  ultimately show ?thesis using p1(6) s(2) x(2) by (intro exI [of _ ?p2]) simp
qed

end

subsection \<open>The service seen from afar\<close>

text \<open>The server in which a state owns the set of its datasources and a decision is one step.\<close>

definition coarse ::
  "('c, 'b) services \<Rightarrow> ('c, 'g, 'b, 'k) plant \<Rightarrow> (('c, 'b) ds_set, 'b, 'k) server" where
  "coarse sv p = (front p)\<lparr>states :=
     map2 (\<lambda>c a. \<lparr>decider_of = policy_of sv (fst c), decisionTimeout = timeout_of a,
                  owned = \<lparr>providers = map decorator (sources a)\<rparr>\<rparr>) (configs p) (live p)\<rparr>"

lemma coarse_states:
  assumes "length (configs p) = length (live p)"
  shows "length (states (coarse sv p)) = length (live p)"
    and "g < length (live p) \<Longrightarrow> states (coarse sv p) ! g =
      \<lparr>decider_of = policy_of sv (fst (configs p ! g)), decisionTimeout = timeout_of (live p ! g),
       owned = \<lparr>providers = map decorator (sources (live p ! g))\<rparr>\<rparr>"
  using assms by (simp_all add: coarse_def)

lemma coarse_apart:
  assumes "apart i g p p'" and "g < length (live p)" and len: "length (configs p) = length (live p)"
    and m: "mirrors (live p' ! g) d"
  shows "coarse sv p' = (coarse sv p)\<lparr>states :=
    (states (coarse sv p))[g := (states (coarse sv p) ! g)\<lparr>owned := d\<rparr>]\<rparr>"
proof -
  have d: "\<lparr>providers = map decorator (sources (live p' ! g))\<rparr> = d" using m by (simp add: mirrors_def)
  have same: "front p' = front p" "configs p' = configs p" "length (live p') = length (live p)"
    using assms(1) by (simp_all add: apart_def)
  have "states (coarse sv p') = (states (coarse sv p))[g := (states (coarse sv p) ! g)\<lparr>owned := d\<rparr>]"
  proof (rule nth_equalityI)
    fix k assume "k < length (states (coarse sv p'))"
    then have k: "k < length (live p)" using len same by (simp add: coarse_states)
    show "states (coarse sv p') ! k = ((states (coarse sv p))[g := (states (coarse sv p) ! g)\<lparr>owned := d\<rparr>]) ! k"
      using assms(1,2) k len same d by (cases "k = g") (simp_all add: coarse_states apart_def)
  qed (use len same in \<open>simp add: coarse_states\<close>)
  then show ?thesis by (simp add: coarse_def same(1))
qed

lemma decide_on_owned:
  assumes "decide_on g ctx req (s, w) = (x, (s', w'))"
  shows "\<exists>d. s' = s\<lparr>states := (states s)[g := (states s ! g)\<lparr>owned := d\<rparr>]\<rparr>"
proof -
  obtain ctx1 w1 where t: "with_timeout ctx (decisionTimeout (states s ! g)) w = (ctx1, w1)" by (metis surj_pair)
  obtain x1 d w2 where "decider_of (states s ! g) ctx1 req (owned (states s ! g), w1) = (x1, (d, w2))"
    by (metis surj_pair)
  with t assms show ?thesis by (simp add: decide_on_def) blast
qed

section \<open>Properties of the service in operation\<close>

lemma not_led_quiet:
  assumes "lives sv peek running P c a"
    and "\<forall>sh\<in>set (sources a). \<forall>j c. callers sh j = Some c \<longrightarrow> in_refresh (c_phase c) \<longrightarrow> key c \<noteq> k"
  shows "quiet running k (sources a)"
  unfolding quiet_def
proof
  fix sh assume sh: "sh \<in> set (sources a)"
  have "flights_ok running sh" using assms(1) sh by (simp add: lives_def source_ok_def)
  moreover have "leaders (callers sh) k = {}" using assms(2) sh by (auto simp: at_phase_def)
  ultimately show "k \<notin> running (flights sh)" unfolding flights_ok_def by (metis insert_not_empty)
qed

text \<open>The service of \<open>Service\<close>, with one request that has just arrived.\<close>

type_synonym sample_plant = "(lru_list, string list, unit, unit) plant"

definition quiet_plant :: sample_plant where
  "quiet_plant = brought_up live_services [] live_process"

definition alice_loaded :: pending where
  "alice_loaded = \<lparr>r_gen = 0, r_ctx = background, r_req = create_alice, r_stage = Loaded\<rparr>"

definition busy_plant :: sample_plant where
  "busy_plant = quiet_plant\<lparr>requests :=
     [0 \<mapsto> alice_loaded]\<rparr>"

lemma quiet_plant_reachable: "fine_reachable live_services list_flight [] quiet_plant"
proof -
  have "started_process live_services live_process"
    using live_New live_set by (force simp: started_process_def live_process_def)
  then show ?thesis unfolding quiet_plant_def by (rule starts)
qed

lemma busy_plant_reachable: "fine_reachable live_services list_flight [] busy_plant"
proof (rule runs [OF quiet_plant_reachable])
  have "requests quiet_plant = Map.empty" "active (front quiet_plant) = 0"
    by (simp_all add: quiet_plant_def brought_up_def live_process_def live_server_def)
  with arrives [of quiet_plant 0] show "fine_step live_services list_flight [] quiet_plant busy_plant"
    by (simp add: busy_plant_def alice_loaded_def)
qed

lemma busy_plant_parts:
  "sources (live busy_plant ! 0) = map (opened [] sample_world) (providers sample_set)"
  "requests busy_plant 0 = Some alice_loaded"
  "answers busy_plant = []" "world_now busy_plant = sample_world" "configs busy_plant = [(live_config, sample_set)]"
  by (simp_all add: busy_plant_def quiet_plant_def brought_up_def live_process_def live_server_def bring_up_def)

lemma busy_plant_coarse: "coarse live_services busy_plant = live_server"
proof -
  have "decorator \<circ> opened ([] :: string list) sample_world = (\<lambda>cp :: (lru_list, unit) cached_provider. cp)"
    by (simp add: opened_def fun_eq_iff)
  then show ?thesis
    by (simp add: coarse_def busy_plant_def quiet_plant_def brought_up_def live_process_def live_server_def
        bring_up_def live_config_def)
qed

lemma live_assumptions:
  "fair (sv_os live_services)" "\<forall>k. map_of (sv_empty live_services) k = None"
  by simp_all

lemma live_shared: "shared_cache (sv_ops live_services) map_of list_flight set"
  using shared4096.shared_cache_axioms by simp

lemma moves_reachable:
  "(moves (sv_ops sv) fops)\<^sup>*\<^sup>* p p' \<Longrightarrow> fine_reachable sv fops g0 p \<Longrightarrow> fine_reachable sv fops g0 p'"
  by (induction rule: rtranclp_induct) (blast intro: runs moves_on)+

lemma alice_answered:
  obtains p :: sample_plant where "fine_reachable live_services list_flight [] p"
    and "answers p = [(0, create_alice, True, ''mount path(s) /home/alice, /data/app1 allowed'', None)]"
    and "configs p = [(live_config, sample_set)]"
proof -
  have inv: "plant_inv live_services map_of set anything busy_plant"
    by (rule shared_cache.fine_reachable_inv [OF live_shared busy_plant_reachable]) simp_all
  obtain x s' w' where d: "decide_on 0 background create_alice (live_server, sample_world) = (x, (s', w'))"
    by (metis surj_pair)
  then have d': "decide_on 0 (r_ctx alice_loaded) (r_req alice_loaded) (live_server, world_now busy_plant) = (x, (s', w'))"
    by (simp add: alice_loaded_def busy_plant_parts)
  have q: "r_stage alice_loaded = Loaded" "r_gen alice_loaded = 0" "r_req alice_loaded = create_alice"
    by (simp_all add: alice_loaded_def)
  have quiet: "quiet set (User (r_req alice_loaded)) (sources (live busy_plant ! 0))"
    by (auto simp: quiet_def busy_plant_parts opened_def)
  have st: "decider_of (states live_server ! 0) = policy_of live_services (fst (configs busy_plant ! 0))"
    "0 < length (states live_server)" "decisionTimeout (states live_server ! 0) = timeout_of (live busy_plant ! 0)"
    "mirrors (live busy_plant ! 0) (owned (states live_server ! 0))"
    using busy_plant_coarse coarse_states(2) [of busy_plant 0 live_services]
    by (simp_all add: busy_plant_def quiet_plant_def brought_up_def live_process_def live_server_def
        bring_up_def live_config_def mirrors_def opened_def comp_def)
  obtain p' where p': "(moves (sv_ops live_services) list_flight)\<^sup>*\<^sup>* busy_plant p'" "apart 0 0 busy_plant p'"
      "answers p' = answers busy_plant @ [(0, r_req alice_loaded, x)]"
    using shared_cache.decision_alone [OF live_shared inv _ refl busy_plant_parts(2) q(1,2) quiet st d'] by auto
  have "x = (True, ''mount path(s) /home/alice, /data/app1 allowed'', None)" using d live_answer by simp
  moreover have "configs p' = [(live_config, sample_set)]" using p'(2) by (simp add: apart_def busy_plant_parts)
  ultimately show ?thesis
    using that [of p'] moves_reachable [OF p'(1) busy_plant_reachable] p'(3) by (simp add: busy_plant_parts q)
qed

text \<open>C1. Safety at the finest interleaving: with any number of decisions in flight, sharing the
  caches and their refreshes, and with reloads, flushes and the world moving between any two
  steps of each, every answer carries no error and a message the request determines, and one
  that allows makes a host path reachable only if, under the single configuration the request
  had loaded, the caller is an admin or the path is granted, by values which the datasources
  of that configuration have given in this run for that caller: \<open>given\<close> holds what came back
  from the calls the run made to them, and nothing else.  Taken at the state in which the
  answer is sent, these are values given before it.\<close>

theorem shared_policy:
  assumes "shared_cache (sv_ops sv) peek fops running" and "fair (sv_os sv)"
    and "\<forall>k. peek (sv_empty sv) k = None" and "running g0 = {}"
    and "fine_reachable sv fops g0 p" and "(g, req, ok, msg, err) \<in> set (answers p)"
  shows "\<exists>cfg s0. g < length (configs p) \<and> configs p ! g = (cfg, s0) \<and>
    (\<exists>is_print. build_set sv is_print cfg = Inr s0) \<and> err = None \<and> msg \<in> replies builtin_public req \<and>
    (\<forall>k v. given (live p ! g) k v \<longrightarrow> answered s0 k v) \<and>
    (ok \<longrightarrow> (\<forall>path\<in>host_paths req.
       is_admin (NewAdminRule (AdminUsers cfg) (AdminGroups cfg)) (vouched (given (live p ! g)) (User req)) \<or>
       granted (sv_os sv) (Allowlist cfg) (vouched (given (live p ! g)) (User req)) path))"
proof -
  have "heard (\<lambda>g. given (live p ! g)) p" by (simp add: heard_def)
  then have inv: "plant_inv sv peek running (\<lambda>g. given (live p ! g)) p"
    by (rule shared_cache.fine_reachable_inv [OF assms(1,5,2) refl assms(3,4)])
  obtain cfg s0 where c: "configs p ! g = (cfg, s0)" by fastforce
  have g: "g < length (live p)" "answer_by (given (live p ! g)) (sv_os sv) cfg req (ok, msg, err)"
    using inv assms(6) c by (auto simp: plant_inv_def list_all_iff)
  have len: "length (configs p) = length (live p)" using inv by (simp add: plant_inv_def)
  have run: "lives sv peek running (given (live p ! g)) (cfg, s0) (live p ! g)"
    using plant_inv_lives [OF inv g(1)] c by simp
  then have "\<forall>k v. given (live p ! g) k v \<longrightarrow> answered s0 k v"
    by (auto simp: lives_def source_ok_def given_def)
  with run g len c show ?thesis by (auto simp: answer_by_def lives_def)
qed

lemma shared_policy_witness:
  "\<exists>p :: sample_plant. fine_reachable live_services list_flight [] p \<and>
     (is_admin (NewAdminRule [''root''] []) (vouched (given (live p ! 0)) ''CN=alice'') \<or>
      granted sample_os [''/home/$USER'', ''/data/app1''] (vouched (given (live p ! 0)) ''CN=alice'') ''/home/alice'')"
proof -
  obtain p :: sample_plant where p: "fine_reachable live_services list_flight [] p"
    "answers p = [(0, create_alice, True, ''mount path(s) /home/alice, /data/app1 allowed'', None)]"
    "configs p = [(live_config, sample_set)]" by (rule alice_answered)
  have "''/home/alice'' \<in> host_paths create_alice" by (simp add: host_paths_def binds_alice)
  moreover have "User create_alice = ''CN=alice''" by (simp add: create_alice_def)
  ultimately show ?thesis
    using shared_policy [OF live_shared _ _ _ p(1), of 0 create_alice True] p
    by (fastforce simp: live_config_def)
qed

text \<open>C2. A decision is never stuck: from every reachable state of the service, however its
  decisions, refreshes and reloads are interleaved, each request in flight can come to its
  answer by moves of the requests there are alone, decided on the state it had loaded.\<close>

theorem every_decision_ends:
  assumes "shared_cache (sv_ops sv) peek fops running" and "fair (sv_os sv)"
    and "\<forall>k. peek (sv_empty sv) k = None" and "running g0 = {}"
    and "fine_reachable sv fops g0 p" and "requests p i = Some q"
  shows "\<exists>p' x. (moves (sv_ops sv) fops)\<^sup>*\<^sup>* p p' \<and> answers p' = answers p @ [(r_gen q, r_req q, x)] \<and>
    requests p' = (requests p)(i := None)"
  by (rule shared_cache.decision_ends [OF assms(1)
        shared_cache.fine_reachable_inv [OF assms(1,5,2) refl assms(3,4) heard_anything] assms(2,6)])

lemma every_decision_ends_witness:
  "\<exists>p' x. answers (p' :: sample_plant) = [(0, create_alice, x)] \<and> requests p' = Map.empty"
proof -
  obtain p' :: sample_plant and x where "answers p' = answers busy_plant @ [(r_gen alice_loaded, r_req alice_loaded, x)]"
      "requests p' = (requests busy_plant)(0 := None)"
    using every_decision_ends [OF live_shared live_assumptions list.set(1) busy_plant_reachable busy_plant_parts(2)]
    by blast
  then have "answers p' = [(0, create_alice, x)] \<and> requests p' = Map.empty"
    by (simp add: busy_plant_parts(3) busy_plant_def quiet_plant_def brought_up_def alice_loaded_def)
  then show ?thesis by blast
qed

text \<open>C3. The decision in one step is a refinement away: a request whose identity nobody
  refreshes, and whose steps come together, gets the answer of \<open>decide_on\<close> on the server in
  which every state owns its datasources, and leaves the service as it does.\<close>

theorem decision_in_one_step:
  assumes "shared_cache (sv_ops sv) peek fops running" and "fair (sv_os sv)"
    and "\<forall>k. peek (sv_empty sv) k = None" and "running g0 = {}" and "fine_reachable sv fops g0 p"
    and "requests p i = Some q" and "r_stage q = Loaded"
    and "\<forall>sh\<in>set (sources (live p ! r_gen q)). \<forall>j c. callers sh j = Some c \<longrightarrow>
      in_refresh (c_phase c) \<longrightarrow> key c \<noteq> User (r_req q)"
    and "decide_on (r_gen q) (r_ctx q) (r_req q) (coarse sv p, world_now p) = (x, (s', w'))"
  shows "\<exists>p'. (moves (sv_ops sv) fops)\<^sup>*\<^sup>* p p' \<and> requests p' = (requests p)(i := None) \<and>
    answers p' = answers p @ [(r_gen q, r_req q, x)] \<and> coarse sv p' = s' \<and> world_now p' = w'"
proof -
  let ?g = "r_gen q"
  have inv: "plant_inv sv peek running anything p"
    by (rule shared_cache.fine_reachable_inv [OF assms(1,5,2) refl assms(3,4) heard_anything])
  have g: "?g < length (live p)" using plant_inv_request [OF inv assms(6)] by (simp add: request_ok_def)
  have len: "length (configs p) = length (live p)" using inv by (auto simp: plant_inv_def dest: list_all2_lengthD)
  note quiet = not_led_quiet [OF plant_inv_lives [OF inv g] assms(8)]
  note st = coarse_states [OF len, where sv = sv]
  obtain d' where s': "s' = (coarse sv p)\<lparr>states := (states (coarse sv p))[?g :=
      (states (coarse sv p) ! ?g)\<lparr>owned := d'\<rparr>]\<rparr>"
    using decide_on_owned [OF assms(9)] by blast
  from shared_cache.decision_alone [OF assms(1) inv assms(2) refl assms(6,7) refl quiet _ _ _ _ assms(9)] st g
  obtain p' where p': "(moves (sv_ops sv) fops)\<^sup>*\<^sup>* p p'" "apart i ?g p p'" "requests p' i = None"
      "answers p' = answers p @ [(?g, r_req q, x)]" "world_now p' = w'" "mirrors (live p' ! ?g) (owned (states s' ! ?g))"
    by (auto simp: mirrors_def)
  have "coarse sv p' = s'"
    using coarse_apart [OF p'(2) g len p'(6)] g by (simp add: s' st)
  moreover have "requests p' = (requests p)(i := None)" using p'(2,3) by (auto simp: apart_def fun_eq_iff)
  ultimately show ?thesis using p'(1,4,5) by blast
qed

lemma decision_in_one_step_witness:
  "\<exists>p'. answers (p' :: sample_plant) =
     [(0, create_alice, True, ''mount path(s) /home/alice, /data/app1 allowed'', None)]"
proof -
  obtain x s' w' where d: "decide_on 0 background create_alice (live_server, sample_world) = (x, (s', w'))"
    by (metis surj_pair)
  then have d': "decide_on (r_gen alice_loaded) (r_ctx alice_loaded) (r_req alice_loaded)
      (coarse live_services busy_plant, world_now busy_plant) = (x, (s', w'))"
    by (simp add: alice_loaded_def busy_plant_parts busy_plant_coarse)
  have "\<forall>sh\<in>set (sources (live busy_plant ! r_gen alice_loaded)). \<forall>j c. callers sh j = Some c \<longrightarrow>
      in_refresh (c_phase c) \<longrightarrow> key c \<noteq> User (r_req alice_loaded)"
    by (auto simp: busy_plant_parts opened_def alice_loaded_def)
  moreover have "r_stage alice_loaded = Loaded" by (simp add: alice_loaded_def)
  ultimately have "\<exists>p' :: sample_plant. answers p' = answers busy_plant @ [(r_gen alice_loaded, r_req alice_loaded, x)]"
    using decision_in_one_step [OF live_shared live_assumptions list.set(1) busy_plant_reachable busy_plant_parts(2) _ _ d']
    by blast
  then obtain p' :: sample_plant where "answers p' = [(0, create_alice, x)]"
    by (auto simp: busy_plant_parts(3) alice_loaded_def)
  moreover have "x = (True, ''mount path(s) /home/alice, /data/app1 allowed'', None)" using d live_answer by simp
  ultimately show ?thesis by blast
qed

end
