(* ===== verification/Server_Http.thy ===== *)
theory Server_Http
  imports Service
begin

text \<open>
  A request on its way through the server: the router \<open>New\<close> builds
  (\<open>internal/server/server.go\<close>), which serves the metrics and hands everything else to the
  plugin's own (\<open>Handler.Mux\<close>, \<open>internal/dockerapi/handler.go\<close>). \<open>http.ServeMux\<close> redirects
  a path that is not clean to the clean one, and the path of a registered subtree without
  its slash to the one with it. A request's path has no percent signs here, and \<open>CONNECT\<close>,
  whose paths are not cleaned, is left out.
\<close>

subsection \<open>The path a request is routed by\<close>

text \<open>\<open>cleanPath\<close> of \<open>net/http\<close>: like \<open>Clean\<close>, but rooted and keeping a trailing slash.\<close>

definition cleanPath :: "string \<Rightarrow> string" where
  "cleanPath p =
     (let p1 = (if is_abs p then p else slash # p); np = clean p1
      in if last p1 = slash \<and> np \<noteq> ''/'' then np @ ''/'' else np)"

text \<open>Is \<open>path\<close>, without a slash at its end, the subtree pattern \<open>pat\<close>?\<close>

definition slash_redirect :: "string \<Rightarrow> string \<Rightarrow> string \<Rightarrow> bool" where
  "slash_redirect pat host path \<longleftrightarrow>
     (let h = takeWhile (\<lambda>c. c \<noteq> slash) pat; p = dropWhile (\<lambda>c. c \<noteq> slash) pat
      in (h = [] \<or> h = host) \<and> path \<noteq> [] \<and> last path \<noteq> slash \<and> p = path @ ''/'')"

subsection \<open>Serving\<close>

text \<open>\<open>hostname\<close> is the request's host without its port.\<close>

record http_req =
  hostname :: string
  url_path :: string
  req_body :: string

datatype reply =
    Answer http_res
  | Scrape
  | Redirect string
  | NotFound

definition serve_plugin ::
  "(string \<Rightarrow> string) \<Rightarrow> ('x, 'b) decider \<Rightarrow> go_ctx \<Rightarrow> endpoint option \<Rightarrow> string \<Rightarrow> 'x \<times> 'b world \<Rightarrow>
     reply \<times> 'x \<times> 'b world" where
  "serve_plugin err_text decide ctx e body st =
     (case e of
        None \<Rightarrow> (NotFound, st)
      | Some Activate \<Rightarrow> (Answer handleActivate, st)
      | Some AuthZReq \<Rightarrow> map_prod Answer id (handleAuthZReq err_text decide ctx body st)
      | Some AuthZRes \<Rightarrow> map_prod Answer id (handleAuthZRes err_text decide ctx body st))"

definition serve_http ::
  "(string \<Rightarrow> string) \<Rightarrow> go_ctx \<Rightarrow> http_req \<Rightarrow> ('x, 'b, 'k) server \<times> 'b world \<Rightarrow>
     reply \<times> ('x, 'b, 'k) server \<times> 'b world" where
  "serve_http err_text ctx r st =
     (let s = fst st; path = cleanPath (url_path r)
      in if slash_redirect (metrics_pattern s) (hostname r) path then (Redirect (path @ ''/''), st)
         else if path \<noteq> url_path r then (Redirect path, st)
         else
           (case dispatch s (hostname r) path of
              Metrics \<Rightarrow> (Scrape, st)
            | Plugin e \<Rightarrow> serve_plugin err_text Decide ctx e (req_body r) st))"

text \<open>Does the request get to the decision: one of the two endpoints, under its own path, and
  not taken by the metrics.\<close>

definition endpoint_reached :: "('x, 'b, 'k) server \<Rightarrow> http_req \<Rightarrow> bool" where
  "endpoint_reached s r \<longleftrightarrow>
     url_path r \<in> {''/AuthZPlugin.AuthZReq'', ''/AuthZPlugin.AuthZRes''} \<and>
     \<not> pattern_matches (metrics_pattern s) (hostname r) (url_path r) \<and>
     \<not> slash_redirect (metrics_pattern s) (hostname r) (url_path r)"

subsection \<open>Clean paths\<close>

lemma clean_path_shape:
  obtains cs where "list_all proper_comp cs"
    and "cleanPath p = abs_path cs \<or> cs \<noteq> [] \<and> cleanPath p = abs_path cs @ ''/''"
proof -
  define p1 where "p1 = (if is_abs p then p else slash # p)"
  have a: "is_abs p1" by (simp add: p1_def is_abs_def)
  have c: "clean p1 = abs_path (clean_comps p1)" using a by (rule clean_rooted)
  have "abs_path (clean_comps p1) = ''/''" if "clean_comps p1 = []" using that by (simp add: abs_path_def)
  then have "cleanPath p = abs_path (clean_comps p1) \<or>
      clean_comps p1 \<noteq> [] \<and> cleanPath p = abs_path (clean_comps p1) @ ''/''"
    by (auto simp: cleanPath_def Let_def c p1_def [symmetric])
  with clean_comps_proper that show ?thesis by blast
qed

lemma last_abs_path:
  assumes "list_all proper_comp cs"
  shows "last (abs_path cs) = slash \<longleftrightarrow> cs = []"
proof (cases cs rule: rev_cases)
  case (snoc ds c)
  then have c: "c \<noteq> []" "slash \<notin> set c" using assms by (auto simp: proper_comp_def)
  have "last (join ''/'' (ds @ [c])) = last c \<and> join ''/'' (ds @ [c]) \<noteq> []"
    using c(1) by (induction ds rule: induct_list012) (auto simp: join_Cons)
  with c snoc show ?thesis by (auto simp: abs_path_def dest: last_in_set)
qed (simp add: abs_path_def)

lemma cleanPath_abs_path: "list_all proper_comp cs \<Longrightarrow> cleanPath (abs_path cs) = abs_path cs"
  by (auto simp: cleanPath_def Let_def clean_abs_path last_abs_path)

lemma cleanPath_subtree:
  assumes "list_all proper_comp cs" and "cs \<noteq> []"
  shows "cleanPath (abs_path cs @ ''/'') = abs_path cs @ ''/''"
proof -
  have "split_on slash (abs_path cs @ ''/'') = split_on slash (abs_path cs) @ [[]]"
    using split_on_append_sep [of slash "abs_path cs" "[]"] by simp
  then have "clean_comps (abs_path cs @ ''/'') = cs"
    using assms by (simp add: clean_comps_def split_on_abs_path clean_stack_append clean_stack_proper)
  moreover have "is_abs (abs_path cs @ ''/'')" by (simp add: is_abs_def abs_path_def)
  moreover have "abs_path cs \<noteq> ''/''" using last_abs_path [OF assms(1)] assms(2) by auto
  ultimately show ?thesis by (simp add: cleanPath_def clean_rooted)
qed

lemma cleanPath_idem: "cleanPath (cleanPath p) = cleanPath p"
  by (rule clean_path_shape [of p]) (auto simp: cleanPath_abs_path cleanPath_subtree)

lemma cleanPath_slash: "last (cleanPath p) \<noteq> slash \<Longrightarrow> cleanPath (cleanPath p @ ''/'') = cleanPath p @ ''/''"
  by (rule clean_path_shape [of p]) (auto simp: cleanPath_subtree last_abs_path)

lemma no_slash_redirect [simp]: "\<not> slash_redirect pat host (path @ ''/'')"
  by (simp add: slash_redirect_def)

lemma endpoints_clean:
  "cleanPath ''/AuthZPlugin.AuthZReq'' = ''/AuthZPlugin.AuthZReq''"
  "cleanPath ''/AuthZPlugin.AuthZRes'' = ''/AuthZPlugin.AuthZRes''"
  by code_simp+

subsection \<open>Routing\<close>

lemma serve_reached:
  assumes "endpoint_reached s r"
  shows "serve_http err_text ctx r (s, w) =
    map_prod Answer id
      ((if url_path r = ''/AuthZPlugin.AuthZReq'' then handleAuthZReq else handleAuthZRes)
        err_text Decide ctx (req_body r) (s, w))"
proof -
  have "cleanPath (url_path r) = url_path r"
    using assms endpoints_clean by (auto simp: endpoint_reached_def)
  with assms show ?thesis
    by (auto simp: endpoint_reached_def serve_http_def dispatch_def serve_plugin_def route_def)
qed

lemma serve_elsewhere:
  assumes "\<not> endpoint_reached s r" and "serve_http err_text ctx r (s, w) = (a, st)"
  shows "st = (s, w) \<and> (\<forall>res. a = Answer res \<longrightarrow> url_path r = ''/Plugin.Activate'' \<and> res = handleActivate)"
  using assms
  by (auto simp: endpoint_reached_def serve_http_def dispatch_def serve_plugin_def route_def Let_def
      split: if_splits)

lemma not_redirected:
  assumes "cleanPath p = p" and "\<not> slash_redirect (metrics_pattern s) (hostname r) p"
  shows "fst (serve_http err_text ctx (r\<lparr>url_path := p\<rparr>) (s, w)) \<noteq> Redirect l"
  using assms
  by (auto simp: serve_http_def serve_plugin_def split: target.split option.split endpoint.split)

lemma redirect_target:
  assumes "fst (serve_http err_text ctx r (s, w)) = Redirect l"
  shows "cleanPath l = l \<and> \<not> slash_redirect (metrics_pattern s) (hostname r) l"
proof (cases "slash_redirect (metrics_pattern s) (hostname r) (cleanPath (url_path r))")
  case True
  then have "last (cleanPath (url_path r)) \<noteq> slash" by (simp add: slash_redirect_def Let_def)
  moreover have "l = cleanPath (url_path r) @ ''/''" using assms True by (simp add: serve_http_def Let_def)
  ultimately show ?thesis by (simp add: cleanPath_slash)
next
  case False
  with assms have "l = cleanPath (url_path r)"
    by (auto simp: serve_http_def serve_plugin_def Let_def
        split: if_splits target.splits option.splits endpoint.splits)
  with False show ?thesis by (simp add: cleanPath_idem)
qed

section \<open>What reaches the decision\<close>

text \<open>C17. Over HTTP, what the daemon reads is what the server decided: a request to one of the two
  endpoints (the metrics not mounted on it) whose body decodes is answered 200, and reading
  the answer back gives the decision of the active state on the decoded request, without an
  error, its message determined by the request (invalid UTF-8 in it replaced by U+FFFD).\<close>

theorem http_reply_is_decision:
  assumes "lru (sv_ops sv) peek" and "fair (sv_os sv)" and "\<forall>k. peek (sv_empty sv) k = None"
    and "reachable sv p" and "endpoint_reached (srv p) r" and "decode_req (req_body r) = Some req"
  shows "\<exists>ok msg st res.
    Decide ctx req (srv p, emit (TraceReq req)
      (if url_path r = ''/AuthZPlugin.AuthZReq'' then snd (now (wrld p)) else wrld p)) = ((ok, msg, None), st) \<and>
    msg \<in> replies builtin_public req \<and> fst (serve_http err_text ctx r (srv p, wrld p)) = Answer res \<and>
    status res = 200 \<and> decode_res (payload res) = Some \<lparr>ResAllow = ok, ResMsg = valid_utf8 msg, ResErr = []\<rparr>"
proof -
  let ?w = "if url_path r = ''/AuthZPlugin.AuthZReq'' then snd (now (wrld p)) else wrld p"
  have "process_inv sv peek p"
    by (rule lru.reachable_inv [OF assms(1) refl assms(2,3,4)])
  then have okay: "(\<lambda>(s, w). server_inv sv peek (built p) s) (srv p, ?w)"
    by (simp add: process_inv_def)
  obtain ok msg x w' where d:
    "Decide ctx req (srv p, emit (TraceReq req) ?w) = ((ok, msg, None), (x, w'))"
    "msg \<in> replies builtin_public req"
    "handleAuthZRes err_text Decide ctx (req_body r) (srv p, ?w) =
      (writeJSON 200 (encode_res \<lparr>ResAllow = ok, ResMsg = msg, ResErr = []\<rparr>),
       (x, emit (TraceRes \<lparr>ResAllow = ok, ResMsg = msg, ResErr = []\<rparr>) w'))"
    by (rule decider.handle_decoded [OF lru.Decide_decider [OF assms(1) refl] okay assms(6)])
  then have "fst (serve_http err_text ctx r (srv p, wrld p)) =
      Answer (writeJSON 200 (encode_res \<lparr>ResAllow = ok, ResMsg = msg, ResErr = []\<rparr>))"
    by (auto simp: serve_reached [OF assms(5)] endpoints_agree map_prod_def split: prod.splits if_splits)
  with d(1,2) show ?thesis
    by (simp add: writeJSON_def decode_encode_res valid_utf8_Nil)
qed

definition live_request :: "string \<Rightarrow> string \<Rightarrow> http_req" where
  "live_request path body = \<lparr>hostname = ''plugin'', url_path = path, req_body = body\<rparr>"

lemma live_metrics: "metrics_pattern (srv live_process) = ''/metrics''"
  by (simp add: live_process_def live_server_def)

lemma live_endpoint: "endpoint_reached (srv live_process) (live_request ''/AuthZPlugin.AuthZReq'' body)"
  by (simp add: endpoint_reached_def live_request_def live_metrics pattern_matches_def slash_redirect_def)

lemma http_reply_is_decision_witness:
  "\<exists>res. fst (serve_http (\<lambda>_. []) background (live_request ''/AuthZPlugin.AuthZReq'' ping_body)
     (srv live_process, wrld live_process)) = Answer res \<and> status res = 200"
proof -
  obtain req where "decode_req ping_body = Some req" using decode_ping by blast
  then have "decode_req (req_body (live_request ''/AuthZPlugin.AuthZReq'' ping_body)) = Some req"
    by (simp add: live_request_def)
  moreover have "lru (sv_ops live_services) map_of" using lru4096.lru_axioms by simp
  ultimately show ?thesis
    using http_reply_is_decision [OF _ _ _ live_reachable live_endpoint, of map_of ping_body req background "\<lambda>_. []"]
    by auto
qed

text \<open>C18. Nothing else reaches it: a request to any other path, or with a body that is not a request,
  changes no server state. The daemon reads a refusal with status 400 on the endpoints;
  elsewhere nothing is logged either, the only answer of the plugin is the activation, and a
  redirect leads, in one step, to a path that is not redirected again.\<close>

theorem nothing_else_decides:
  assumes "serve_http err_text ctx r (s, w) = (a, st)"
    and "\<not> (endpoint_reached s r \<and> decode_req (req_body r) \<noteq> None)"
  shows "fst st = s \<and>
    (if endpoint_reached s r then
       \<exists>res. a = Answer res \<and> status res = 400 \<and> decode_res (payload res) =
         Some \<lparr>ResAllow = False, ResMsg = [], ResErr = valid_utf8 (''malformed AuthZReq: '' @ err_text (req_body r))\<rparr>
     else snd st = w \<and> (\<forall>res. a = Answer res \<longrightarrow> url_path r = ''/Plugin.Activate'' \<and> res = handleActivate) \<and>
       (\<forall>l l' ctx' w'. a = Redirect l \<longrightarrow> fst (serve_http err_text ctx' (r\<lparr>url_path := l\<rparr>) (s, w')) \<noteq> Redirect l'))"
proof (cases "endpoint_reached s r")
  case True
  with assms(2) have "decode_req (req_body r) = None" by blast
  with assms(1) True show ?thesis
    by (auto simp: serve_reached [OF True] endpoints_agree handleAuthZRes_def decodeRequest_def writeJSON_def
        decode_encode_res valid_utf8_Nil now_def split: if_splits)
next
  case False
  have "\<forall>l l' ctx' w'. a = Redirect l \<longrightarrow> fst (serve_http err_text ctx' (r\<lparr>url_path := l\<rparr>) (s, w')) \<noteq> Redirect l'"
    using redirect_target [of err_text ctx r s w] not_redirected [of _ s r] assms(1) by auto
  with serve_elsewhere [OF False assms(1)] False show ?thesis by simp
qed

lemma nothing_else_decides_witness:
  "fst (serve_http (\<lambda>_. []) background (live_request ''//metrics'' ping_body) (srv live_process, wrld live_process)) =
     Redirect ''/metrics'' \<and>
   fst (serve_http (\<lambda>_. []) background (live_request ''/metrics'' ping_body) (srv live_process, wrld live_process)) \<noteq>
     Redirect ''/metrics''"
proof -
  let ?r = "live_request ''//metrics'' ping_body"
  obtain a st where s: "serve_http (\<lambda>_. []) background ?r (srv live_process, wrld live_process) = (a, st)"
    by (metis surj_pair)
  have c: "cleanPath ''//metrics'' = ''/metrics''" by code_simp
  have a: "a = Redirect ''/metrics''"
    using s by (simp add: serve_http_def live_request_def c live_metrics slash_redirect_def)
  have e: "\<not> endpoint_reached (srv live_process) ?r" by (simp add: endpoint_reached_def live_request_def)
  have r: "?r\<lparr>url_path := ''/metrics''\<rparr> = live_request ''/metrics'' ping_body" by (simp add: live_request_def)
  from nothing_else_decides [OF s] e a have
    "fst (serve_http (\<lambda>_. []) background (?r\<lparr>url_path := ''/metrics''\<rparr>) (srv live_process, wrld live_process)) \<noteq>
       Redirect ''/metrics''" by simp
  with s a show ?thesis by (simp add: r)
qed

text \<open>The metrics take an endpoint's place when they are mounted on it, which neither \<open>Validate\<close>
  nor \<open>New\<close> refuses.\<close>

lemma metrics_shadow:
  assumes "metrics_pattern s = ''/AuthZPlugin.AuthZReq''" and "url_path r = ''/AuthZPlugin.AuthZReq''"
  shows "serve_http err_text ctx r (s, w) = (Scrape, (s, w))"
    and "\<not> mux_rejects other ''/AuthZPlugin.AuthZReq''"
  using assms endpoints_clean
  by (auto simp: serve_http_def dispatch_def pattern_matches_def slash_redirect_def mux_rejects_def plain_pattern_def)

end
