(* ===== verification/Command.thy ===== *)
theory Command
  imports Service
begin

text \<open>
  The command (\<open>cmd/authzmtls/main.go\<close>): startup in its order, with the first failure
  ending it; the reaction to SIGHUP, where a bad reload ends the process; and shutdown. The
  command-line parser is the argument \<open>parse\<close>. Log lines are emitted as calls, whatever
  the threshold lets through.
\<close>

subsection \<open>Startup\<close>

record cli =
  ConfigPath :: string
  cliFlags :: flag_overrides

text \<open>What startup uses besides the services: files and environment, the router's verdict on
  unusual patterns, key pairs, the listener and the version text.\<close>

record 'k startup_env =
  su_config :: config_env
  su_other :: "string \<Rightarrow> bool"
  su_pair :: "'k load_pair"
  su_listen :: "string \<Rightarrow> string result"
  su_version :: string

definition error_line :: "string \<Rightarrow> (string \<times> string) list \<Rightarrow> go_error \<Rightarrow> event" where
  "error_line msg attrs e = Log LevelError msg (attrs @ [(''error'', e)])"

definition starting_line :: "string \<Rightarrow> string \<Rightarrow> string \<Rightarrow> event" where
  "starting_line version la path =
     Log LevelInfo ''STARTING'' [(''version'', version), (''listen_addr'', la), (''config_path'', path)]"

text \<open>The command has its own copy of the server's conversion.\<close>

definition main_convertDatasources :: "'r datasource_config list \<Rightarrow> 'r ds_config list" where
  "main_convertDatasources cfgs =
     map (\<lambda>c. \<lparr>Name = DsName c, Typ = DsType c, CacheTTL = DsCacheTTL c, Raw = DsRaw c\<rparr>) cfgs"

lemma main_convertDatasources [simp]: "main_convertDatasources = convertDatasources"
  by (simp add: fun_eq_iff main_convertDatasources_def convertDatasources_def)

text \<open>The part of \<open>run\<close> up to the listening server, once the configuration is loaded.\<close>

definition serve_config ::
  "('c, 'b) services \<Rightarrow> 'k startup_env \<Rightarrow> string \<Rightarrow> conf \<Rightarrow> 'b world \<Rightarrow>
     ((('c, 'b) ds_set, 'b, 'k) server \<times> conf) outcome \<times> 'b world" where
  "serve_config sv su path cfg w =
     (let w1 = emit (Log LevelDebug ''startup: allowlist'' [(''allowlist'', allowlist_text (Allowlist cfg))]) w
      in case NewSet (print_table w) (sv_meter sv) (sv_registry sv) (sv_empty sv)
                (main_convertDatasources (Datasources cfg)) of
           Inl e \<Rightarrow> (Fails (''construct datasources: '' @ e),
                     emit (error_line ''startup: failed to construct datasources'' [] e) w1)
         | Inr d \<Rightarrow>
             (case build_chain sv cfg of
                Inl e \<Rightarrow> (Fails (''construct rule chain: '' @ e),
                          emit (error_line ''startup: failed to construct rule chain'' [] e) w1)
              | Inr chain \<Rightarrow>
                  (case New (su_other su) (su_pair su) (Some cfg) (Some (chain_decide chain, d)) (Some ()) of
                     Panic p \<Rightarrow> (Panic p, w1)
                   | Fails e \<Rightarrow> (Fails (''construct server: '' @ e),
                                emit (error_line ''startup: failed to construct server'' [] e) w1)
                   | Built s \<Rightarrow>
                       (let la = ListenAddr (Server cfg);
                            w2 = emit (starting_line (su_version su) la path) w1
                        in case Start (su_listen su) s of
                             (Some e, _) \<Rightarrow> (Fails (''start server: '' @ e),
                               emit (error_line ''startup: failed to start listening'' [(''listen_addr'', la)] e) w2)
                           | (None, s') \<Rightarrow> (Built (s', cfg), w2)))))"

definition startup ::
  "(string list \<Rightarrow> cli result) \<Rightarrow> ('c, 'b) services \<Rightarrow> 'k startup_env \<Rightarrow> string list \<Rightarrow> 'b world \<Rightarrow>
     ((('c, 'b) ds_set, 'b, 'k) server \<times> conf) outcome \<times> 'b world" where
  "startup parse sv su args w =
     (case parse args of
        Inl e \<Rightarrow> (Fails (''parse arguments: '' @ e),
                  emit (error_line ''startup: failed to parse arguments'' [] e) w)
      | Inr c \<Rightarrow>
          (case LoadFull (su_config su) (ConfigPath c) (cliFlags c) w of
             (Inl e, w1) \<Rightarrow> (Fails (''load configuration: '' @ e),
               emit (error_line ''startup: failed to load configuration'' [(''config_path'', ConfigPath c)] e) w1)
           | (Inr cfg, w1) \<Rightarrow> serve_config sv su (ConfigPath c) cfg w1))"

subsection \<open>Reload and shutdown\<close>

text \<open>The running command: server, store, and the exit code once it has ended.\<close>

record ('c, 'b, 'k) app =
  app_srv :: "(('c, 'b) ds_set, 'b, 'k) server"
  app_store :: conf
  app_exit :: "nat option"

text \<open>One SIGHUP, handled by \<open>Watch\<close> and the callback \<open>run\<close> gives it. An ended process
  handles none.\<close>

definition sighup ::
  "('c, 'b) services \<Rightarrow> config_env \<Rightarrow> 'k load_pair \<Rightarrow> string \<Rightarrow> flag_overrides \<Rightarrow>
     ('c, 'b, 'k) app \<times> 'b world \<Rightarrow> ('c, 'b, 'k) app \<times> 'b world" where
  "sighup sv env load_pair path flags st =
     (let (a, w) = st
      in if app_exit a \<noteq> None then st
         else
           (case on_sighup env path flags (app_store a) w of
              (Inl e, store, w1) \<Rightarrow>
                (a\<lparr>app_store := store, app_exit := Some 1\<rparr>,
                 emit (error_line ''reload: failed to load configuration'' [(''config_path'', path)] e) w1)
            | (Inr cfg, store, w1) \<Rightarrow>
                (case Reload sv load_pair (print_table w) (Some cfg) (app_srv a) of
                   (Some e, s) \<Rightarrow>
                     (a\<lparr>app_srv := s, app_store := store, app_exit := Some 1\<rparr>,
                      emit (error_line ''reload: failed to apply configuration'' [(''config_path'', path)] e) w1)
                 | (None, s) \<Rightarrow> (a\<lparr>app_srv := s, app_store := store\<rparr>, w1))))"

fun sighups_app ::
  "('c, 'b) services \<Rightarrow> (config_env \<times> 'k load_pair) list \<Rightarrow> string \<Rightarrow> flag_overrides \<Rightarrow>
     ('c, 'b, 'k) app \<times> 'b world \<Rightarrow> ('c, 'b, 'k) app \<times> 'b world" where
  "sighups_app sv [] path flags st = st"
| "sighups_app sv ((env, load_pair) # hs) path flags st =
     sighups_app sv hs path flags (sighup sv env load_pair path flags st)"

definition shutdownGracePeriod :: int where
  "shutdownGracePeriod = 30 * second"

text \<open>After SIGINT or SIGTERM: drain, then flush the metrics, both under the deadline of the
  grace period; failures are logged, and the command ends without an error. \<open>drain\<close> is
  \<open>http.Server.Shutdown\<close>, \<open>flush\<close> the metrics stack's.\<close>

definition warn_line :: "string \<Rightarrow> go_error option \<Rightarrow> event list" where
  "warn_line msg err = (case err of None \<Rightarrow> [] | Some e \<Rightarrow> [Log LevelWarn msg [(''error'', e)]])"

definition shutdown ::
  "(go_ctx \<Rightarrow> go_error option) \<Rightarrow> (go_ctx \<Rightarrow> go_error option) \<Rightarrow> 'b world \<Rightarrow> 'b world" where
  "shutdown drain flush w =
     (let (drainCtx, w1) = with_timeout background shutdownGracePeriod (emit (Log LevelInfo ''SHUTTING DOWN'' []) w)
      in emit_all
           (warn_line ''shutdown: server did not drain cleanly within the grace period'' (drain drainCtx) @
            warn_line ''shutdown: failed to flush telemetry'' (flush drainCtx)) w1)"

text \<open>The exit code of \<open>main\<close>.\<close>

definition exit_code :: "'a outcome \<Rightarrow> nat" where
  "exit_code r = (case r of Built _ \<Rightarrow> 0 | Fails _ \<Rightarrow> 1 | Panic _ \<Rightarrow> 2)"

text \<open>The whole of \<open>main\<close>: exit code and world, when the process gets these SIGHUPs and then a
  signal to end. \<open>parser\<close> is \<open>kong.New\<close>.\<close>

definition run ::
  "(string list \<Rightarrow> cli result) result \<Rightarrow> ('c, 'b) services \<Rightarrow> 'k startup_env \<Rightarrow> string list \<Rightarrow>
     (config_env \<times> 'k load_pair) list \<Rightarrow> (go_ctx \<Rightarrow> go_error option) \<Rightarrow> (go_ctx \<Rightarrow> go_error option) \<Rightarrow>
     'b world \<Rightarrow> nat \<times> 'b world" where
  "run parser sv su args hs drain flush w =
     (case parser of
        Inl e \<Rightarrow> (1, w)
      | Inr parse \<Rightarrow>
          (case (startup parse sv su args w, parse args) of
             ((Built (s, cfg), w1), Inr c) \<Rightarrow>
               (let (a, w2) = sighups_app sv hs (ConfigPath c) (cliFlags c)
                      (\<lparr>app_srv = s, app_store = cfg, app_exit = None\<rparr>, w1)
                in case app_exit a of
                     Some n \<Rightarrow> (n, w2)
                   | None \<Rightarrow> (0, shutdown drain flush w2))
           | ((r, w1), _) \<Rightarrow> (exit_code r, w1)))"

subsection \<open>Lemmas\<close>

lemma sighups_app_append:
  "sighups_app sv (hs @ hs') path flags st = sighups_app sv hs' path flags (sighups_app sv hs path flags st)"
proof (induction hs arbitrary: st)
  case (Cons h hs)
  then show ?case by (cases h) simp
qed simp

lemma sighups_app_ended: "app_exit (fst st) \<noteq> None \<Longrightarrow> sighups_app sv hs path flags st = st"
proof (induction hs arbitrary: st)
  case (Cons h hs)
  obtain env lp where h: "h = (env, lp)" by fastforce
  have "sighup sv env lp path flags st = st" using Cons.prems by (cases st) (simp add: sighup_def)
  with Cons h show ?case by simp
qed simp

lemma sighup_bad_file:
  assumes "app_exit a = None"
    and "LoadFull env path flags (emit (Log LevelInfo ''SIGHUP received, reloading config'' [(''path'', path)]) w) = (Inl e, w')"
  shows "sighup sv env lp path flags (a, w) =
    (a\<lparr>app_exit := Some 1\<rparr>, emit (error_line ''reload: failed to load configuration'' [(''config_path'', path)] e) w')"
  using assms by (simp add: sighup_def on_sighup_def)

lemma startup_started:
  assumes "startup parse sv su args w = (Built (s, cfg), w')"
  obtains c w1 s0 d where "parse args = Inr c" and "LoadFull (su_config su) (ConfigPath c) (cliFlags c) w = (Inr cfg, w1)"
    and "build_set sv (print_table w1) cfg = Inr d"
    and "New (su_other su) (su_pair su) (Some cfg) (Some (policy_of sv cfg, d)) (Some ()) = Built s0"
    and "Start (su_listen su) s0 = (None, s)"
  using assms
  by (auto simp: startup_def serve_config_def build_set_def Let_def build_chain_def policy_of_def dest!: NewBuiltinChain_result
      split: sum.splits prod.splits outcome.splits option.splits)

text \<open>The server decides by what is in the store.\<close>

definition in_step :: "('c, 'b) services \<Rightarrow> ('c, 'b, 'k) app \<Rightarrow> bool" where
  "in_step sv a \<longleftrightarrow>
     active (app_srv a) < length (states (app_srv a)) \<and>
     decider_of (states (app_srv a) ! active (app_srv a)) = policy_of sv (app_store a) \<and>
     decisionTimeout (states (app_srv a) ! active (app_srv a)) = DecisionTimeout (Server (app_store a))"

lemma on_sighup_store:
  assumes "on_sighup env path flags store w = (r, store', w')"
  shows "case r of Inl _ \<Rightarrow> store' = store | Inr cfg \<Rightarrow> store' = cfg \<and> valid_config env cfg \<and> policy_distinct cfg"
  using assms loaded_config_ok
  by (fastforce simp: on_sighup_def Let_def split: sum.splits prod.splits)

lemma sighup_in_step:
  assumes "sighup sv env load_pair path flags (a, w) = (a', w')" and "app_exit a = None \<Longrightarrow> in_step sv a"
  shows "app_exit a' = None \<Longrightarrow> in_step sv a'"
    and "app_exit a = None \<Longrightarrow> app_exit a' \<noteq> None \<Longrightarrow> app_exit a' = Some 1 \<and> app_srv a' = app_srv a"
proof -
  obtain r store w1 where o': "on_sighup env path flags (app_store a) w = (r, store, w1)" by (metis surj_pair)
  note s = on_sighup_store [OF o']
  have "(app_exit a' = None \<longrightarrow> in_step sv a') \<and>
    (app_exit a = None \<longrightarrow> app_exit a' \<noteq> None \<longrightarrow> app_exit a' = Some 1 \<and> app_srv a' = app_srv a)"
  proof (cases "app_exit a = None \<and> is_ok r")
    case False
    with assms o' s show ?thesis by (cases r) (auto simp: sighup_def split: if_splits)
  next
    case True
    then obtain cfg where r: "r = Inr cfg" "app_exit a = None" by (auto simp: is_ok_iff)
    with s have cfg: "store = cfg" by simp
    obtain x s' where R: "Reload sv load_pair (print_table w) (Some cfg) (app_srv a) = (x, s')" by (metis surj_pair)
    from R show ?thesis
    proof (rule ReloadE)
      fix e assume "x = Some e" "s' = app_srv a"
      with assms(1) r o' R show ?thesis by (auto simp: sighup_def)
    next
      fix c d k
      assume "x = None" "Some cfg = Some c" "s' = swap_in sv (policy_of sv c) c d k (app_srv a)"
      with assms(1) r o' R cfg show ?thesis by (auto simp: sighup_def in_step_def)
    qed
  qed
  then show "app_exit a' = None \<Longrightarrow> in_step sv a'"
    "app_exit a = None \<Longrightarrow> app_exit a' \<noteq> None \<Longrightarrow> app_exit a' = Some 1 \<and> app_srv a' = app_srv a"
    by blast+
qed

lemma started_listening:
  assumes "build_set sv is_print cfg = Inr d"
    and "New other load_pair (Some cfg) (Some (policy_of sv cfg, d)) (Some ()) = Built s0"
    and "s = snd (Start listen s0)"
  shows "started_process sv \<lparr>srv = s, wrld = w, calls = Map.empty, served = [], built = [(cfg, d)]\<rparr>"
  unfolding started_process_def
  by (rule exI [of _ other], rule exI [of _ load_pair], rule exI [of _ is_print], rule exI [of _ cfg],
      rule exI [of _ d], rule exI [of _ s0], rule exI [of _ "()"]) (use assms in auto)

lemma in_step_started:
  assumes "startup parse sv su args w = (Built (s, cfg), w')"
  shows "in_step sv \<lparr>app_srv = s, app_store = cfg, app_exit = None\<rparr>"
  using assms
proof (rule startup_started)
  fix c w1 s0 d
  assume n: "New (su_other su) (su_pair su) (Some cfg) (Some (policy_of sv cfg, d)) (Some ()) = Built s0"
    and "Start (su_listen su) s0 = (None, s)"
  then have s: "s = snd (Start (su_listen su) s0)" by simp
  show ?thesis by (simp add: in_step_def s NewD(1,2) [OF n])
qed

lemma sighups_in_step:
  "sighups_app sv hs path flags (a, w) = (a', w') \<Longrightarrow>
     (app_exit a = None \<Longrightarrow> in_step sv a) \<Longrightarrow> app_exit a \<in> {None, Some 1} \<Longrightarrow>
     (app_exit a' = None \<longrightarrow> in_step sv a') \<and> app_exit a' \<in> {None, Some 1}"
proof (induction hs arbitrary: a w)
  case (Cons h hs)
  obtain env lp where h: "h = (env, lp)" by fastforce
  obtain a1 w1 where s1: "sighup sv env lp path flags (a, w) = (a1, w1)" by (metis surj_pair)
  note step = sighup_in_step [OF s1 Cons.prems(2)]
  have "app_exit a1 \<in> {None, Some 1}"
  proof (cases "app_exit a = None")
    case True
    then show ?thesis using step(2) by blast
  next
    case False
    then show ?thesis using s1 Cons.prems(3) by (auto simp: sighup_def)
  qed
  with Cons.IH [of a1 w1] Cons.prems(1) step(1) s1 h show ?case by simp
qed simp

text \<open>Some of the environments made it valid.\<close>

definition valid_in :: "config_env set \<Rightarrow> conf \<Rightarrow> bool" where
  "valid_in envs cfg \<longleftrightarrow> (\<exists>env\<in>envs. valid_config env cfg) \<and> policy_distinct cfg"

lemma sighup_store:
  assumes "sighup sv env load_pair path flags (a, w) = (a', w')"
  shows "app_store a' = app_store a \<or> valid_in {env} (app_store a')"
proof -
  obtain r store w1 where o': "on_sighup env path flags (app_store a) w = (r, store, w1)" by (metis surj_pair)
  from assms on_sighup_store [OF o'] show ?thesis
    by (auto simp: sighup_def o' valid_in_def split: if_splits sum.splits prod.splits option.splits)
qed

lemma sighups_store:
  "sighups_app sv hs path flags (a, w) = (a', w') \<Longrightarrow> valid_in envs (app_store a) \<Longrightarrow>
     valid_in (envs \<union> fst ` set hs) (app_store a')"
proof (induction hs arbitrary: a w envs)
  case (Cons h hs)
  obtain env lp where h: "h = (env, lp)" by fastforce
  obtain a1 w1 where s1: "sighup sv env lp path flags (a, w) = (a1, w1)" by (metis surj_pair)
  have "valid_in (insert env envs) (app_store a1)"
    using sighup_store [OF s1] Cons.prems(2) by (auto simp: valid_in_def)
  with Cons.IH [of a1 w1 "insert env envs"] Cons.prems(1) s1 h show ?case by simp
qed simp

text \<open>A reload fails when what the SIGHUP finds does not load, or when the server refuses it.\<close>

definition reload_fails ::
  "('c, 'b) services \<Rightarrow> config_env \<Rightarrow> 'k load_pair \<Rightarrow> string \<Rightarrow> flag_overrides \<Rightarrow>
     ('c, 'b, 'k) app \<times> 'b world \<Rightarrow> bool" where
  "reload_fails sv env load_pair path flags st =
     (let (a, w) = st
      in case LoadFull env path flags (emit (Log LevelInfo ''SIGHUP received, reloading config'' [(''path'', path)]) w) of
           (Inl e, w1) \<Rightarrow> True
         | (Inr cfg, w1) \<Rightarrow> fst (Reload sv load_pair (print_table w) (Some cfg) (app_srv a)) \<noteq> None)"

lemma sighup_exit:
  assumes "app_exit (fst st) = None"
  shows "app_exit (fst (sighup sv env load_pair path flags st)) =
    (if reload_fails sv env load_pair path flags st then Some 1 else None)"
  using assms
  by (auto simp: sighup_def on_sighup_def reload_fails_def split: prod.splits sum.splits option.splits)

lemma sighups_exit:
  assumes "app_exit (fst st) = None"
  shows "app_exit (fst (sighups_app sv hs path flags st)) = Some 1 \<longleftrightarrow>
    (\<exists>hs1 env load_pair hs2. hs = hs1 @ (env, load_pair) # hs2 \<and>
       app_exit (fst (sighups_app sv hs1 path flags st)) = None \<and>
       reload_fails sv env load_pair path flags (sighups_app sv hs1 path flags st) \<and>
       sighups_app sv hs path flags st =
         sighup sv env load_pair path flags (sighups_app sv hs1 path flags st))"
    (is "?ended hs \<longleftrightarrow> ?failed hs")
proof
  assume "?failed hs"
  then show "?ended hs" by (elim exE conjE) (simp only: sighup_exit if_True)
next
  assume "?ended hs"
  then show "?failed hs"
  proof (induction hs rule: rev_induct)
    case (snoc h hs)
    let ?st = "sighups_app sv hs path flags st"
    obtain env lp where h: "h = (env, lp)" by fastforce
    show ?case
    proof (cases "app_exit (fst ?st) = None")
      case True
      with snoc.prems sighup_exit [OF True, of sv env lp path flags] have "reload_fails sv env lp path flags ?st"
        by (simp add: h sighups_app_append split: if_splits)
      with True show ?thesis by (force simp: h sighups_app_append)
    next
      case False
      then have same: "sighups_app sv (hs @ [h]) path flags st = ?st"
        unfolding sighups_app_append by (rule sighups_app_ended)
      with snoc obtain hs1 env' lp' hs2 where "hs = hs1 @ (env', lp') # hs2"
          "app_exit (fst (sighups_app sv hs1 path flags st)) = None"
          "reload_fails sv env' lp' path flags (sighups_app sv hs1 path flags st)"
          "?st = sighup sv env' lp' path flags (sighups_app sv hs1 path flags st)" by auto
      with same show ?thesis
        by (intro exI [of _ hs1] exI [of _ env'] exI [of _ lp'] exI [of _ "hs2 @ [h]"]) simp
    qed
  qed (simp add: assms)
qed

section \<open>Properties of the command\<close>

lemma startup_sound_config:
  "startup parse sv su args w = (Built (s, cfg), w') \<Longrightarrow> valid_config (su_config su) cfg \<and> policy_distinct cfg"
  by (erule startup_started) (rule loaded_config_ok)

text \<open>C22. A command that starts has a well-formed configuration and a bound listener, and the
  server it runs is in the initial state from which the properties of the service hold.\<close>

theorem startup_sound:
  assumes "startup parse sv su args w = (Built (s, cfg), w')"
  shows "valid_config (su_config su) cfg \<and> policy_distinct cfg \<and> started s \<and>
    (\<exists>ln. su_listen su (ListenAddr (Server cfg)) = Inr ln \<and> Addr s = ln) \<and>
    (\<exists>d. \<forall>w''. reachable sv \<lparr>srv = s, wrld = w'', calls = Map.empty, served = [], built = [(cfg, d)]\<rparr>)"
  using assms
proof (rule startup_started)
  fix c w1 s0 d
  assume load: "LoadFull (su_config su) (ConfigPath c) (cliFlags c) w = (Inr cfg, w1)"
    and b: "build_set sv (print_table w1) cfg = Inr d"
    and n: "New (su_other su) (su_pair su) (Some cfg) (Some (policy_of sv cfg, d)) (Some ()) = Built s0"
    and st: "Start (su_listen su) s0 = (None, s)"
  note new = NewD [OF n]
  have srv: "s = snd (Start (su_listen su) s0)" using st by simp
  from st new have "started s \<and> (\<exists>ln. su_listen su (ListenAddr (Server cfg)) = Inr ln \<and> Addr s = ln)"
    by (auto simp: Start_def Addr_def Let_def split: if_splits sum.splits)
  moreover have "reachable sv \<lparr>srv = s, wrld = w'', calls = Map.empty, served = [], built = [(cfg, d)]\<rparr>" for w''
    by (rule start, rule started_listening [OF b n srv])
  ultimately show ?thesis using loaded_config_ok [OF load] by blast
qed

text \<open>The program on the sample installation.\<close>

definition sample_startup :: "unit startup_env" where
  "sample_startup =
     \<lparr>su_config = sample_env, su_other = (\<lambda>_. False), su_pair = (\<lambda>_ _. Inl ''none''),
      su_listen = (\<lambda>a. Inr (''0.0.0.0'' @ a)), su_version = ''dev''\<rparr>"

definition sample_parse :: "string list \<Rightarrow> cli result" where
  "sample_parse args =
     (case args of
        [path] \<Rightarrow> Inr \<lparr>ConfigPath = path, cliFlags = sample_flags\<rparr>
      | _ \<Rightarrow> Inl ''expected <config-path>'')"

lemma sample_built:
  obtains s cfg w' where "startup sample_parse live_services sample_startup [''/etc/a/config.yaml''] start_world =
    (Built (s, cfg), w')"
proof -
  have "(case fst (startup sample_parse live_services sample_startup [''/etc/a/config.yaml''] start_world) of
      Built _ \<Rightarrow> True | _ \<Rightarrow> False)"
    by code_simp
  then show ?thesis using that by (auto split: outcome.splits) (metis prod.collapse)
qed

lemma startup_sound_witness:
  "\<exists>s cfg w'. startup sample_parse live_services sample_startup [''/etc/a/config.yaml''] start_world =
     (Built (s, cfg), w') \<and> valid_config sample_env cfg"
proof -
  obtain s cfg w' where "startup sample_parse live_services sample_startup [''/etc/a/config.yaml''] start_world =
    (Built (s, cfg), w')" by (rule sample_built)
  with startup_sound [OF this] show ?thesis by (auto simp: sample_startup_def)
qed

text \<open>C23. Server and store stay in step: as long as the command runs, after any number of
  SIGHUPs, each finding its own files and environment, the active state decides by the
  configuration in the store, with its timeout, and that configuration is well-formed. It runs
  until the first reload that fails, at loading or at applying: that SIGHUP, and nothing else,
  makes the exit code 1, and the signals after it change nothing; the command's exit code is
  that one, and 0 when no reload failed.\<close>

theorem store_and_server_agree:
  assumes "startup parse sv su args w = (Built (s, cfg), w1)"
    and "sighups_app sv hs path flags (\<lparr>app_srv = s, app_store = cfg, app_exit = None\<rparr>, w2) = (a, w3)"
  shows "app_exit a \<in> {None, Some 1} \<and> valid_in (insert (su_config su) (fst ` set hs)) (app_store a) \<and>
    (app_exit a = None \<longrightarrow>
       decider_of (states (app_srv a) ! active (app_srv a)) = policy_of sv (app_store a) \<and>
       decisionTimeout (states (app_srv a) ! active (app_srv a)) = DecisionTimeout (Server (app_store a))) \<and>
    (app_exit a = Some 1 \<longleftrightarrow>
       (\<exists>hs1 env load_pair hs2 st. hs = hs1 @ (env, load_pair) # hs2 \<and>
          st = sighups_app sv hs1 path flags (\<lparr>app_srv = s, app_store = cfg, app_exit = None\<rparr>, w2) \<and>
          app_exit (fst st) = None \<and> reload_fails sv env load_pair path flags st \<and>
          (a, w3) = sighup sv env load_pair path flags st)) \<and>
    (\<forall>c. parse args = Inr c \<longrightarrow> path = ConfigPath c \<longrightarrow> flags = cliFlags c \<longrightarrow> w2 = w1 \<longrightarrow>
       fst (run (Inr parse) sv su args hs drain flush w) = (if app_exit a = None then 0 else 1))"
proof -
  let ?st = "(\<lparr>app_srv = s, app_store = cfg, app_exit = None\<rparr>, w2)"
  have "valid_in {su_config su} cfg"
    using startup_sound_config [OF assms(1)] by (simp add: valid_in_def)
  then have "valid_in (insert (su_config su) (fst ` set hs)) (app_store a)"
    using sighups_store [OF assms(2), of "{su_config su}"] by simp
  moreover have step: "app_exit a \<in> {None, Some 1}" "app_exit a = None \<longrightarrow> in_step sv a"
    using sighups_in_step [OF assms(2) in_step_started [OF assms(1)]] by auto
  moreover have "fst (run (Inr parse) sv su args hs drain flush w) = (if app_exit a = None then 0 else 1)"
    if "parse args = Inr c" "path = ConfigPath c" "flags = cliFlags c" "w2 = w1" for c
    using assms that step(1) by (auto simp: run_def)
  moreover note sighups_exit [of ?st sv hs path flags, unfolded assms(2)]
  ultimately show ?thesis by (auto simp: in_step_def)
qed

lemma store_and_server_agree_witness:
  "\<exists>s cfg w1. startup sample_parse live_services sample_startup [''/etc/a/config.yaml''] start_world = (Built (s, cfg), w1) \<and>
     decider_of (states s ! active s) = policy_of live_services cfg"
proof -
  obtain s cfg w1 where b: "startup sample_parse live_services sample_startup [''/etc/a/config.yaml''] start_world =
    (Built (s, cfg), w1)" by (rule sample_built)
  with store_and_server_agree [OF b, of "[]" _ sample_flags w1] show ?thesis by fastforce
qed

text \<open>C24. A bad reload is fatal, like a bad configuration at startup: when the files a SIGHUP
  finds do not load, the command ends with exit code 1 at once, having logged the error last;
  later signals, and the orderly shutdown, are not reached.\<close>

theorem bad_reload_is_fatal:
  assumes "parse args = Inr c" and "startup parse sv su args w = (Built (s, cfg), w1)"
    and "sighups_app sv hs (ConfigPath c) (cliFlags c) (\<lparr>app_srv = s, app_store = cfg, app_exit = None\<rparr>, w1) = (a, w2)"
    and "app_exit a = None"
    and "LoadFull env (ConfigPath c) (cliFlags c)
      (emit (Log LevelInfo ''SIGHUP received, reloading config'' [(''path'', ConfigPath c)]) w2) = (Inl e, w3)"
  shows "run (Inr parse) sv su args (hs @ (env, lp) # hs') drain flush w =
    (1, emit (error_line ''reload: failed to load configuration'' [(''config_path'', ConfigPath c)] e) w3)"
proof -
  let ?dead = "(a\<lparr>app_exit := Some 1\<rparr>,
    emit (error_line ''reload: failed to load configuration'' [(''config_path'', ConfigPath c)] e) w3)"
  have "sighups_app sv (hs @ (env, lp) # hs') (ConfigPath c) (cliFlags c)
      (\<lparr>app_srv = s, app_store = cfg, app_exit = None\<rparr>, w1) = ?dead"
    using sighups_app_ended [of ?dead] by (simp add: sighups_app_append assms(3) sighup_bad_file [OF assms(4,5)])
  then show ?thesis by (simp add: run_def assms(1,2))
qed

lemma bad_reload_is_fatal_witness:
  "fst (run (Inr sample_parse) live_services sample_startup [''/etc/a/config.yaml'']
     [(sample_env\<lparr>read_file := (\<lambda>_. Inl ''gone'')\<rparr>, \<lambda>_ _. Inl ''none''), (sample_env, \<lambda>_ _. Inl ''none'')]
     (\<lambda>_. None) (\<lambda>_. None) start_world) = 1"
proof -
  obtain s cfg w1 where b: "startup sample_parse live_services sample_startup [''/etc/a/config.yaml''] start_world =
    (Built (s, cfg), w1)" by (rule sample_built)
  let ?env = "sample_env\<lparr>read_file := (\<lambda>_. Inl ''gone'')\<rparr>" and ?c = "\<lparr>ConfigPath = ''/etc/a/config.yaml'', cliFlags = sample_flags\<rparr>"
  let ?w = "emit (Log LevelInfo ''SIGHUP received, reloading config'' [(''path'', ConfigPath ?c)]) w1"
  have p: "sample_parse [''/etc/a/config.yaml''] = Inr ?c" by (simp add: sample_parse_def)
  obtain e w3 where l: "LoadFull ?env (ConfigPath ?c) (cliFlags ?c) ?w = (Inl e, w3)"
    by (simp add: LoadFull_def Load_def mergeLayer_def)
  from bad_reload_is_fatal [OF p b _ _ l, of "[]"] show ?thesis by simp
qed

end
