(* ===== verification/Ldap_Identity.thy ===== *)
theory Ldap_Identity
  imports Go_Strings
begin

text \<open>
  Identities and search filters of the LDAP datasource
  (\<open>internal/datasources/ldap/identity.go\<close>): reversing a subject DN by its components, and
  substituting an escaped value into a filter. The library's \<open>EscapeFilter\<close> is the
  argument \<open>escape\<close>.
\<close>

subsection \<open>Distinguished names\<close>

abbreviation (input) comma :: char where "comma \<equiv> CHR '',''"
abbreviation (input) backslash :: char where "backslash \<equiv> CHR 0x5C"

text \<open>The loop over the bytes: \<open>current\<close> and \<open>escaped\<close> are its variables.\<close>

fun split_loop :: "string \<Rightarrow> string \<Rightarrow> bool \<Rightarrow> string list" where
  "split_loop [] current escaped = [current]"
| "split_loop (c # s) current escaped =
     (if escaped then split_loop s (current @ [c]) False
      else if c = backslash then split_loop s (current @ [c]) True
      else if c = comma then current # split_loop s [] False
      else split_loop s (current @ [c]) False)"

definition splitOnUnescapedCommas :: "string \<Rightarrow> string list" where
  "splitOnUnescapedCommas s = split_loop s [] False"

definition normalizeSubjectDN :: "string \<Rightarrow> string" where
  "normalizeSubjectDN subject = join '','' (rev (splitOnUnescapedCommas subject))"

text \<open>The state of the scan after a string, and that it met no separator.\<close>

fun escape_state :: "bool \<Rightarrow> string \<Rightarrow> bool" where
  "escape_state e [] = e"
| "escape_state e (c # s) = escape_state (\<not> e \<and> c = backslash) s"

fun unsplit :: "bool \<Rightarrow> string \<Rightarrow> bool" where
  "unsplit e [] = True"
| "unsplit e (c # s) = ((e \<or> c \<noteq> comma) \<and> unsplit (\<not> e \<and> c = backslash) s)"

text \<open>One component: no unescaped comma in it, and no dangling backslash at its end.\<close>

definition rdn :: "string \<Rightarrow> bool" where
  "rdn p \<longleftrightarrow> unsplit False p \<and> \<not> escape_state False p"

lemma escape_state_append: "escape_state e (a @ b) = escape_state (escape_state e a) b"
  by (induction a arbitrary: e) simp_all

lemma unsplit_append: "unsplit e (a @ b) \<longleftrightarrow> unsplit e a \<and> unsplit (escape_state e a) b"
  by (induction a arbitrary: e) auto

lemma split_loop_nonempty [simp]: "split_loop s cur e \<noteq> []"
  by (induction s cur e rule: split_loop.induct) auto

lemma join_split_loop: "join '','' (split_loop s cur e) = cur @ s"
  by (induction s cur e rule: split_loop.induct) (auto simp: join_Cons)

lemma split_loop_part: "unsplit e p \<Longrightarrow> split_loop p cur e = [cur @ p]"
  by (induction p arbitrary: cur e) auto

lemma split_loop_sep:
  "unsplit e p \<Longrightarrow> \<not> escape_state e p \<Longrightarrow>
     split_loop (p @ comma # s) cur e = (cur @ p) # split_loop s [] False"
  by (induction p arbitrary: cur e) auto

lemma split_loop_join:
  "ps \<noteq> [] \<Longrightarrow> list_all rdn ps \<Longrightarrow> split_loop (join '','' ps) [] False = ps"
proof (induction ps rule: induct_list012)
  case (3 p q ps)
  then show ?case by (simp add: rdn_def split_loop_sep)
qed (simp_all add: rdn_def split_loop_part)

lemma split_loop_rdns:
  "unsplit False cur \<Longrightarrow> escape_state False cur = e \<Longrightarrow> \<not> escape_state e s \<Longrightarrow>
     list_all rdn (split_loop s cur e)"
proof (induction s cur e rule: split_loop.induct)
  case (2 c s cur e)
  then show ?case
    by (cases e) (auto simp: unsplit_append escape_state_append rdn_def)
qed (simp add: rdn_def)

lemma normalize_rdns:
  "ps \<noteq> [] \<Longrightarrow> list_all rdn ps \<Longrightarrow> normalizeSubjectDN (join '','' ps) = join '','' (rev ps)"
  by (simp add: normalizeSubjectDN_def splitOnUnescapedCommas_def split_loop_join)

section \<open>Properties of identities\<close>

text \<open>C27. Reversing a subject DN moves each of its components as one unit, escaped commas
  and \<open>+\<close>-joined attributes included, and reversing twice gives the subject back, unless it
  ends in a dangling backslash.\<close>

theorem dn_reversal:
  assumes "\<not> escape_state False s"
  shows "list_all rdn (splitOnUnescapedCommas s) \<and> join '','' (splitOnUnescapedCommas s) = s \<and>
    splitOnUnescapedCommas (normalizeSubjectDN s) = rev (splitOnUnescapedCommas s) \<and>
    normalizeSubjectDN (normalizeSubjectDN s) = s"
proof -
  let ?ps = "splitOnUnescapedCommas s"
  have ps: "list_all rdn ?ps" "?ps \<noteq> []" "join '','' ?ps = s"
    using assms by (simp_all add: splitOnUnescapedCommas_def split_loop_rdns join_split_loop)
  then have "splitOnUnescapedCommas (normalizeSubjectDN s) = rev ?ps"
    by (simp add: normalizeSubjectDN_def splitOnUnescapedCommas_def split_loop_join list_all_rev)
  with ps show ?thesis by (simp add: normalizeSubjectDN_def)
qed

definition smith :: string where \<open>
  smith = ''CN=Smith'' @ [backslash] @ '', John+UID=7,OU=Users,DC=example''\<close>

lemma dn_reversal_witness:
  "normalizeSubjectDN smith = ''DC=example,OU=Users,CN=Smith'' @ [backslash] @ '', John+UID=7'' \<and>
   normalizeSubjectDN (normalizeSubjectDN smith) = smith"
proof -
  have "\<not> escape_state False smith" by code_simp
  moreover have "normalizeSubjectDN smith = ''DC=example,OU=Users,CN=Smith'' @ [backslash] @ '', John+UID=7''"
    by code_simp
  ultimately show ?thesis using dn_reversal by blast
qed

subsection \<open>Filters\<close>

definition escapeFilterValue :: "(string \<Rightarrow> string) \<Rightarrow> string \<Rightarrow> string" where
  "escapeFilterValue escape v = escape v"

definition substituteFilterToken :: "(string \<Rightarrow> string) \<Rightarrow> string \<Rightarrow> string \<Rightarrow> string \<Rightarrow> string" where
  "substituteFilterToken escape template token rawValue =
     replace_all token (escapeFilterValue escape rawValue) template"

text \<open>The bytes which make the structure of a filter: parentheses, the wildcard, NUL.\<close>

definition filter_meta :: "char \<Rightarrow> bool" where
  "filter_meta c \<longleftrightarrow> c \<in> {CHR ''('', CHR '')'', CHR ''*'', CHR 0x00}"

lemma replace_all_filter:
  assumes "list_all (\<lambda>c. \<not> P c) old" and "list_all (\<lambda>c. \<not> P c) new"
  shows "filter P (replace_all old new s) = filter P s"
  using assms
proof (induction old new s rule: replace_all.induct)
  case (2 old new c cs)
  show ?case
  proof (cases "old \<noteq> [] \<and> has_prefix (c # cs) old")
    case True
    then obtain rest where r: "c # cs = old @ rest" by (auto simp: has_prefix_iff prefix_def)
    have "filter P new = []" "filter P old = []" using 2 by (simp_all add: filter_empty_conv list_all_iff)
    moreover have "filter P (c # cs) = filter P rest" by (simp only: r filter_append) (simp add: calculation)
    moreover have "replace_all old new (c # cs) = new @ replace_all old new rest"
      using True r by (subst replace_all.simps(2)) simp
    moreover have "filter P (replace_all old new rest) = filter P rest"
      using 2(1) [OF True 2(3,4)] r by simp
    ultimately show ?thesis by simp
  next
    case False
    then have "replace_all old new (c # cs) = c # replace_all old new cs" by auto
    with False 2 show ?thesis by simp
  qed
qed simp

text \<open>No value can change the structure of a search filter: for any identity, the
  parentheses, wildcards and NULs of the substituted filter are those of the configured
  one, in the same order, if the library's escaping leaves none of them in its result.\<close>

theorem filter_structure_kept:
  assumes "\<forall>v. list_all (\<lambda>c. \<not> filter_meta c) (escape v)"
    and "list_all (\<lambda>c. \<not> filter_meta c) token"
  shows "filter filter_meta (substituteFilterToken escape template token rawValue) =
    filter filter_meta template"
  using assms by (simp add: substituteFilterToken_def escapeFilterValue_def replace_all_filter)

text \<open>An escaping as in RFC 4515.\<close>

definition hex_digit :: "nat \<Rightarrow> char" where
  "hex_digit n = char_of (if n < 10 then 0x30 + n else 0x57 + n)"

definition rfc4515_escape :: "string \<Rightarrow> string" where
  "rfc4515_escape v =
     concat (map (\<lambda>c. if filter_meta c \<or> c = backslash \<or> 0x80 \<le> byte c
                      then [backslash, hex_digit (byte c div 16), hex_digit (byte c mod 16)] else [c]) v)"

lemma hex_digit_not_meta: "n < 16 \<Longrightarrow> \<not> filter_meta (hex_digit n)"
proof -
  have "\<forall>n<16. \<not> filter_meta (hex_digit n)" by code_simp
  then show "n < 16 \<Longrightarrow> \<not> filter_meta (hex_digit n)" by blast
qed

lemma rfc4515_no_meta: "list_all (\<lambda>c. \<not> filter_meta c) (rfc4515_escape v)"
proof -
  have "byte c div 16 < 16" for c :: char
    using nat_of_char_less_256 [of c] by linarith
  moreover have "\<not> filter_meta backslash" by (simp add: filter_meta_def)
  ultimately show ?thesis
    by (auto simp: rfc4515_escape_def list_all_iff hex_digit_not_meta)
qed

lemma filter_structure_kept_witness:
  "filter filter_meta (substituteFilterToken rfc4515_escape ''(&(o=x)(member=$IDENTITY_DN))'' ''$IDENTITY_DN''
     ''*)(objectClass=*'') = ''(()())''"
proof -
  have "list_all (\<lambda>c. \<not> filter_meta c) ''$IDENTITY_DN''" by code_simp
  moreover have "filter filter_meta ''(&(o=x)(member=$IDENTITY_DN))'' = ''(()())''" by code_simp
  ultimately show ?thesis
    using filter_structure_kept [of rfc4515_escape] rfc4515_no_meta by metis
qed

end
