(* ===== verification/Ldap_Pool.thy ===== *)
theory Ldap_Pool
  imports World
begin

text \<open>
  The connection pool of the LDAP datasource (\<open>internal/datasources/ldap/pool.go\<close>): a
  channel of \<open>size\<close> slots, each a connection or nil. First the two operations as one caller
  sees them, then the pool under any interleaving of callers. The LDAP library is the
  record \<open>ldap_lib\<close>; a connection is of the type \<open>'n\<close>.
\<close>

subsection \<open>The library\<close>

record ldap_entry =
  DN :: string
  AttributeValue :: "string \<Rightarrow> string"

record search_request =
  BaseDN :: string
  Scope :: nat
  DerefAliases :: nat
  SizeLimit :: nat
  TimeLimit :: nat
  TypesOnly :: bool
  Filter :: string
  Attributes :: "string list"

text \<open>An error the server answered with (its result code), or any other.\<close>

datatype search_error = LdapError nat string | OtherError string

text \<open>\<open>select_done\<close>: \<open>select\<close> takes the branch of the expired context although a slot is
  there, which it may when both are ready.\<close>

record ('n, 'b) ldap_lib =
  default_timeout :: int
  dial_url :: "string \<Rightarrow> int \<Rightarrow> 'b world \<Rightarrow> 'n result \<times> 'b world"
  bind_conn :: "'n \<Rightarrow> string \<Rightarrow> string \<Rightarrow> 'b world \<Rightarrow> go_error option \<times> 'b world"
  is_closing :: "'n \<Rightarrow> 'b world \<Rightarrow> bool"
  close_conn :: "'n \<Rightarrow> 'b world \<Rightarrow> 'b world"
  search :: "'n \<Rightarrow> search_request \<Rightarrow> 'b world \<Rightarrow> (ldap_entry list \<times> search_error option) \<times> 'b world"
  escape_filter :: "string \<Rightarrow> string"
  select_done :: "go_ctx \<Rightarrow> 'b world \<Rightarrow> bool"

definition connHealthyAfterError :: "search_error option \<Rightarrow> bool" where
  "connHealthyAfterError err =
     (case err of None \<Rightarrow> True | Some (LdapError _ _) \<Rightarrow> True | Some (OtherError _) \<Rightarrow> False)"

type_synonym ('n, 'b) dial = "go_ctx \<Rightarrow> 'b world \<Rightarrow> 'n result \<times> 'b world"

text \<open>The time left until the deadline bounds the dialling.\<close>

definition dial_timeout :: "('n, 'b) ldap_lib \<Rightarrow> go_ctx \<Rightarrow> 'b world \<Rightarrow> int \<times> 'b world" where
  "dial_timeout lib ctx w =
     (case ctx_deadline ctx of
        None \<Rightarrow> (default_timeout lib, w)
      | Some deadline \<Rightarrow>
          (let (t, w') = now w; remaining = time_sub deadline t
           in (if 0 < remaining then remaining else default_timeout lib, w')))"

text \<open>Once the deadline has passed it no longer bounds anything.\<close>

lemma dial_timeout_late:
  "ctx_deadline ctx = Some t \<Longrightarrow> t \<le> clock w (ticks w) \<Longrightarrow> fst (dial_timeout lib ctx w) = default_timeout lib"
  by (auto simp: dial_timeout_def now_def Let_def time_sub_def max_duration_def min_duration_def max_def)

definition dialAndBind :: "('n, 'b) ldap_lib \<Rightarrow> string \<Rightarrow> string \<Rightarrow> string \<Rightarrow> ('n, 'b) dial" where
  "dialAndBind lib addr bindDN bindPW ctx w =
     (let (timeout, w0) = dial_timeout lib ctx w
      in case dial_url lib addr timeout w0 of
           (Inl e, w1) \<Rightarrow> (Inl e, w1)
         | (Inr conn, w1) \<Rightarrow>
             (case bind_conn lib conn bindDN bindPW w1 of
                (Some e, w2) \<Rightarrow> (Inl e, close_conn lib conn w2)
              | (None, w2) \<Rightarrow> (Inr conn, w2)))"

subsection \<open>The operations\<close>

type_synonym 'n slots = "'n option list"

definition newPool :: "nat \<Rightarrow> 'n slots" where
  "newPool sz = replicate sz None"

definition deadline_exceeded :: go_error where
  "deadline_exceeded = ''context deadline exceeded''"

text \<open>What a caller does with the slot it received.\<close>

datatype 'n received = Live 'n | Redial "'n option"

definition inspect :: "('n \<Rightarrow> bool) \<Rightarrow> 'n option \<Rightarrow> 'n received" where
  "inspect closing slot =
     (case slot of
        None \<Rightarrow> Redial None
      | Some c \<Rightarrow> if \<not> closing c then Live c else Redial (Some c))"

text \<open>\<open>get\<close> of a caller alone with the pool: without a slot it waits until its context is
  done, as nobody returns one.\<close>

definition pool_get ::
  "('n, 'b) ldap_lib \<Rightarrow> ('n, 'b) dial \<Rightarrow> go_ctx \<Rightarrow> 'n slots \<times> 'b world \<Rightarrow> 'n result \<times> 'n slots \<times> 'b world" where
  "pool_get lib dial ctx st =
     (let (slots, w) = st
      in if slots = [] \<or> select_done lib ctx w then (Inl deadline_exceeded, (slots, w))
         else
           (case inspect (\<lambda>c. is_closing lib c w) (hd slots) of
              Live c \<Rightarrow> (Inr c, (tl slots, w))
            | Redial old \<Rightarrow>
                (let w1 = (case old of None \<Rightarrow> w | Some c \<Rightarrow> close_conn lib c w)
                 in case dial ctx w1 of
                      (Inl e, w2) \<Rightarrow> (Inl e, (tl slots @ [None], w2))
                    | (Inr fresh, w2) \<Rightarrow> (Inr fresh, (tl slots, w2)))))"

definition pool_put ::
  "('n, 'b) ldap_lib \<Rightarrow> 'n \<Rightarrow> bool \<Rightarrow> 'n slots \<times> 'b world \<Rightarrow> 'n slots \<times> 'b world" where
  "pool_put lib c healthy st =
     (if \<not> healthy then (fst st @ [None], close_conn lib c (snd st))
      else (fst st @ [Some c], snd st))"

lemma pool_get_length:
  assumes "pool_get lib dial ctx st = (r, st')"
  shows "case r of Inl _ \<Rightarrow> length (fst st') = length (fst st)
    | Inr _ \<Rightarrow> Suc (length (fst st')) = length (fst st)"
  using assms
  by (auto simp: pool_get_def Let_def split: prod.splits if_splits received.splits sum.splits)

lemma pool_put_length [simp]: "length (fst (pool_put lib c healthy st)) = Suc (length (fst st))"
  by (simp add: pool_put_def)

subsection \<open>Any number of callers\<close>

text \<open>A caller between \<open>get\<close> and \<open>put\<close>: dialling, or holding a connection.\<close>

datatype 'n borrower = Dialing | Holding 'n

record 'n pool_state =
  slots :: "'n slots"
  borrowers :: "nat \<rightharpoonup> 'n borrower"

text \<open>The connections there are, in slots and in hands.\<close>

definition held :: "'n pool_state \<Rightarrow> 'n set" where
  "held p = {c. \<exists>i. borrowers p i = Some (Holding c)}"

definition pooled :: "'n pool_state \<Rightarrow> 'n set" where
  "pooled p = {c. Some c \<in> set (slots p)}"

text \<open>The steps of the callers. Which connections are closing when they are received is the
  world's choice; dialling gives a new connection.\<close>

inductive pool_step :: "'n pool_state \<Rightarrow> 'n pool_state \<Rightarrow> bool" where
  get_live: "borrowers p i = None \<Longrightarrow> slots p = s # rest \<Longrightarrow> inspect closing s = Live c \<Longrightarrow>
     pool_step p (p\<lparr>slots := rest, borrowers := (borrowers p)(i \<mapsto> Holding c)\<rparr>)"
| get_redial: "borrowers p i = None \<Longrightarrow> slots p = s # rest \<Longrightarrow> inspect closing s = Redial old \<Longrightarrow>
     pool_step p (p\<lparr>slots := rest, borrowers := (borrowers p)(i \<mapsto> Dialing)\<rparr>)"
| dialed: "borrowers p i = Some Dialing \<Longrightarrow> c \<notin> held p \<Longrightarrow> c \<notin> pooled p \<Longrightarrow>
     pool_step p (p\<lparr>borrowers := (borrowers p)(i \<mapsto> Holding c)\<rparr>)"
| dial_failed: "borrowers p i = Some Dialing \<Longrightarrow>
     pool_step p (p\<lparr>slots := slots p @ [None], borrowers := (borrowers p)(i := None)\<rparr>)"
| put: "borrowers p i = Some (Holding c) \<Longrightarrow>
     pool_step p (p\<lparr>slots := slots p @ [if healthy then Some c else None],
       borrowers := (borrowers p)(i := None)\<rparr>)"

definition new_pool_state :: "nat \<Rightarrow> 'n pool_state" where
  "new_pool_state sz = \<lparr>slots = newPool sz, borrowers = Map.empty\<rparr>"

text \<open>\<open>get\<close> and \<open>put\<close> of one caller are such steps.\<close>

lemma pool_get_steps:
  assumes "pool_get lib dial ctx (slots p, w) = (r, (slots', w'))" and "borrowers p i = None"
    and "\<And>c w1 w2. dial ctx w1 = (Inr c, w2) \<Longrightarrow> c \<notin> held p \<and> c \<notin> pooled p"
  shows "pool_step\<^sup>*\<^sup>* p (p\<lparr>slots := slots', borrowers :=
    (case r of Inl _ \<Rightarrow> borrowers p | Inr c \<Rightarrow> (borrowers p)(i \<mapsto> Holding c))\<rparr>)"
proof (cases "slots p = [] \<or> select_done lib ctx w")
  case True
  then have "r = Inl deadline_exceeded" "slots' = slots p" using assms(1) by (auto simp: pool_get_def)
  then show ?thesis by simp
next
  case False
  then obtain s rest where s: "slots p = s # rest" by (cases "slots p") auto
  let ?closing = "\<lambda>c. is_closing lib c w"
  show ?thesis
  proof (cases "inspect ?closing s")
    case (Live c)
    with False assms(1) s have "r = Inr c" "slots' = rest" by (auto simp: pool_get_def)
    with get_live [OF assms(2) s Live] show ?thesis by (simp add: r_into_rtranclp)
  next
    case (Redial old)
    let ?q = "p\<lparr>slots := rest, borrowers := (borrowers p)(i \<mapsto> Dialing)\<rparr>"
    note taken = get_redial [OF assms(2) s Redial]
    obtain x w2 where x: "dial ctx (case old of None \<Rightarrow> w | Some c \<Rightarrow> close_conn lib c w) = (x, w2)"
      by (metis surj_pair)
    have next_step: "pool_step ?q (p\<lparr>slots := slots', borrowers :=
        (case r of Inl _ \<Rightarrow> borrowers p | Inr c \<Rightarrow> (borrowers p)(i \<mapsto> Holding c))\<rparr>)"
    proof (cases x)
      case (Inl e)
      with False assms(1) s Redial x have "r = Inl e" "slots' = rest @ [None]" by (auto simp: pool_get_def)
      with dial_failed [of ?q i] assms(2) show ?thesis by (simp add: fun_upd_idem)
    next
      case (Inr c)
      with False assms(1) s Redial x have r: "r = Inr c" "slots' = rest" by (auto simp: pool_get_def)
      have "c \<notin> held ?q" "c \<notin> pooled ?q"
        using assms(3) [OF x [unfolded Inr]] s by (auto simp: held_def pooled_def split: if_splits)
      with dialed [of ?q i c] r show ?thesis by simp
    qed
    with taken show ?thesis by (meson converse_rtranclp_into_rtranclp r_into_rtranclp)
  qed
qed

subsection \<open>Invariant\<close>

definition live_slots :: "'n slots \<Rightarrow> 'n list" where
  "live_slots ss = concat (map (\<lambda>s. case s of None \<Rightarrow> [] | Some c \<Rightarrow> [c]) ss)"

lemma live_slots_simps [simp]:
  "live_slots [] = []" "live_slots (None # ss) = live_slots ss" "live_slots (Some c # ss) = c # live_slots ss"
  "live_slots (as @ bs) = live_slots as @ live_slots bs"
  by (simp_all add: live_slots_def)

lemma pooled_live: "pooled p = set (live_slots (slots p))"
  by (auto simp: pooled_def live_slots_def split: option.splits)

definition pool_inv :: "nat \<Rightarrow> 'n pool_state \<Rightarrow> bool" where
  "pool_inv sz p \<longleftrightarrow>
     finite (dom (borrowers p)) \<and> length (slots p) + card (dom (borrowers p)) = sz \<and>
     distinct (live_slots (slots p)) \<and> held p \<inter> pooled p = {} \<and>
     (\<forall>i j c. borrowers p i = Some (Holding c) \<longrightarrow> borrowers p j = Some (Holding c) \<longrightarrow> i = j)"

lemma live_slots_None [simp]: "live_slots (replicate n None) = []"
  by (induction n) simp_all

lemma pool_inv_new: "pool_inv sz (new_pool_state sz)"
  by (simp add: pool_inv_def new_pool_state_def newPool_def held_def)

lemma card_dom_upd: "finite (dom m) \<Longrightarrow> m i = None \<Longrightarrow> card (dom (m(i \<mapsto> b))) = Suc (card (dom m))"
  by (simp add: domIff)

lemma card_dom_del: "finite (dom m) \<Longrightarrow> m i = Some b \<Longrightarrow> Suc (card (dom (m(i := None)))) = card (dom m)"
  unfolding dom_fun_upd by (auto intro: card_Suc_Diff1 simp del: card_Diff_insert)

lemma dom_same: "m i = Some b \<Longrightarrow> dom (m(i \<mapsto> b')) = dom m"
  by auto

lemma inspect_Live: "inspect closing s = Live c \<Longrightarrow> s = Some c"
  by (auto simp: inspect_def split: option.splits if_splits)

lemma live_slots_tl: "set (live_slots ss) \<subseteq> set (live_slots (s # ss))"
  "distinct (live_slots (s # ss)) \<Longrightarrow> distinct (live_slots ss)"
  by (cases s; simp add: subset_insertI)+

lemma pool_inv_step:
  assumes "pool_step p p'" and inv: "pool_inv sz p"
  shows "pool_inv sz p'"
  using assms(1)
proof cases
  case (get_live i s rest closing c)
  have "s = Some c" using get_live(4) by (rule inspect_Live)
  with inv get_live card_dom_upd [of "borrowers p" i "Holding c"] show ?thesis
    by (auto simp: pool_inv_def pooled_live held_def)
next
  case (get_redial i s rest closing old)
  with inv card_dom_upd [of "borrowers p" i Dialing] live_slots_tl [where s = s and ss = rest] show ?thesis
    by (auto simp: pool_inv_def pooled_live held_def)
next
  case (dialed i c)
  with inv dom_same [of "borrowers p" i Dialing "Holding c"] show ?thesis
    by (auto simp: pool_inv_def pooled_live held_def)
next
  case (dial_failed i)
  with inv card_dom_del [of "borrowers p" i Dialing] show ?thesis
    by (auto simp: pool_inv_def pooled_live held_def)
next
  case (put i c healthy)
  with inv card_dom_del [of "borrowers p" i "Holding c"] show ?thesis
    by (auto simp: pool_inv_def pooled_live held_def)
qed

lemma pool_inv_steps: "pool_step\<^sup>*\<^sup>* p p' \<Longrightarrow> pool_inv sz p \<Longrightarrow> pool_inv sz p'"
  by (induction rule: rtranclp_induct) (blast intro: pool_inv_step)+

lemma pool_inv_reachable: "pool_step\<^sup>*\<^sup>* (new_pool_state sz) p \<Longrightarrow> pool_inv sz p"
  using pool_inv_new by (rule pool_inv_steps [rotated])

text \<open>Whoever has a slot can give it back.\<close>

lemma give_back:
  assumes "borrowers p i = Some b"
  shows "\<exists>s. pool_step p (p\<lparr>slots := slots p @ [s], borrowers := (borrowers p)(i := None)\<rparr>)"
proof (cases b)
  case Dialing
  with dial_failed assms show ?thesis by blast
next
  case (Holding c)
  with put [of p i c False] assms show ?thesis by auto
qed

lemma drain:
  "pool_inv sz p \<Longrightarrow> \<exists>p'. pool_step\<^sup>*\<^sup>* p p' \<and> borrowers p' = Map.empty \<and> length (slots p') = sz"
proof (induction "card (dom (borrowers p))" arbitrary: p)
  case 0
  then have "borrowers p = Map.empty" by (simp add: pool_inv_def)
  with 0 show ?case by (intro exI [of _ p]) (simp add: pool_inv_def)
next
  case (Suc n)
  then have "dom (borrowers p) \<noteq> {}" by (metis card.empty nat.distinct(1))
  then obtain i b where b: "borrowers p i = Some b" by blast
  then obtain s where step: "pool_step p (p\<lparr>slots := slots p @ [s], borrowers := (borrowers p)(i := None)\<rparr>)"
    (is "pool_step p ?q") using give_back by blast
  have "pool_inv sz ?q" by (rule pool_inv_step [OF step Suc.prems])
  moreover have "n = card (dom (borrowers ?q))"
    using Suc(2) card_dom_del [of "borrowers p" i b] b Suc.prems by (simp add: pool_inv_def)
  ultimately show ?case using Suc.hyps(1) [of ?q] step by (meson converse_rtranclp_into_rtranclp)
qed

lemma pool_inv_card:
  assumes "pool_inv sz p"
  shows "card (held p \<union> pooled p) \<le> sz"
proof -
  have fin: "finite (dom (borrowers p))" using assms by (simp add: pool_inv_def)
  have "held p \<subseteq> (\<lambda>i. case borrowers p i of Some (Holding c) \<Rightarrow> c) ` dom (borrowers p)"
    by (force simp: held_def image_iff)
  then have "card (held p) \<le> card (dom (borrowers p))"
    by (meson card_image_le card_mono fin finite_imageI le_trans)
  moreover have "card (pooled p) \<le> length (slots p)"
  proof -
    have "length (live_slots ss) \<le> length ss" for ss :: "'a slots"
      by (induction ss) (auto simp: live_slots_def split: option.splits)
    then show ?thesis unfolding pooled_live by (meson card_length le_trans)
  qed
  moreover have "card (held p \<union> pooled p) \<le> card (held p) + card (pooled p)" by (rule card_Un_le)
  ultimately show ?thesis using assms by (auto simp: pool_inv_def)
qed

section \<open>Properties of the pool\<close>

text \<open>Whatever the interleaving of callers, the pool never has more than its size of
  connections, no two callers hold the same one, none is both held and pooled, and slots and
  callers in between add up to the size, so returning a slot never blocks.\<close>

theorem pool_bounded:
  assumes "pool_step\<^sup>*\<^sup>* (new_pool_state sz) p"
  shows "card (held p \<union> pooled p) \<le> sz \<and> length (slots p) + card (dom (borrowers p)) = sz \<and>
    (borrowers p i \<noteq> None \<longrightarrow> length (slots p) < sz) \<and> held p \<inter> pooled p = {} \<and>
    (borrowers p i = Some (Holding c) \<longrightarrow> borrowers p j = Some (Holding c) \<longrightarrow> i = j)"
proof -
  have inv: "pool_inv sz p" using assms by (rule pool_inv_reachable)
  then have fin: "finite (dom (borrowers p))" by (simp add: pool_inv_def)
  have "0 < card (dom (borrowers p))" if "borrowers p i \<noteq> None"
    using that fin by (auto simp: card_gt_0_iff)
  with pool_inv_card [OF inv] inv show ?thesis by (auto simp: pool_inv_def)
qed

definition busy_pool :: "nat pool_state" where
  "busy_pool = \<lparr>slots = [None], borrowers = [0 \<mapsto> Holding 7]\<rparr>"

lemma busy_reachable: "pool_step\<^sup>*\<^sup>* (new_pool_state 2) busy_pool"
proof -
  have "pool_step (new_pool_state 2) \<lparr>slots = [None], borrowers = [0 \<mapsto> (Dialing :: nat borrower)]\<rparr>"
    using get_redial [of "new_pool_state 2" 0 None "[None]" "\<lambda>_. False" None]
    by (simp add: new_pool_state_def newPool_def inspect_def eval_nat_numeral)
  moreover have "pool_step \<lparr>slots = [None], borrowers = [0 \<mapsto> (Dialing :: nat borrower)]\<rparr> busy_pool"
    using dialed [of "\<lparr>slots = [None], borrowers = [0 \<mapsto> (Dialing :: nat borrower)]\<rparr>" 0 7]
    by (simp add: busy_pool_def held_def pooled_def)
  ultimately show ?thesis by (meson converse_rtranclp_into_rtranclp r_into_rtranclp)
qed

lemma pool_bounded_witness: "length (slots busy_pool) + card (dom (borrowers busy_pool)) = 2"
  using pool_bounded [OF busy_reachable] by blast

text \<open>Capacity is never lost: from every state the pool can reach, failed dials and
  broken connections included, the callers can hand everything back, and then all slots are
  there again.\<close>

theorem capacity_recovered:
  assumes "pool_step\<^sup>*\<^sup>* (new_pool_state sz) p"
  shows "\<exists>p'. pool_step\<^sup>*\<^sup>* p p' \<and> borrowers p' = Map.empty \<and> length (slots p') = sz"
  using drain [OF pool_inv_reachable [OF assms]] .

lemma capacity_recovered_witness:
  "\<exists>p'. pool_step\<^sup>*\<^sup>* busy_pool p' \<and> borrowers p' = Map.empty \<and> length (slots p') = 2"
  using capacity_recovered [OF busy_reachable] .

text \<open>The abstract pool: a counting semaphore.\<close>

inductive semaphore_step :: "nat \<Rightarrow> nat \<Rightarrow> nat \<Rightarrow> bool" for sz where
  acquire: "semaphore_step sz (Suc n) n"
| release: "n < sz \<Longrightarrow> semaphore_step sz n (Suc n)"

text \<open>The pool refines a semaphore of its size: abstracted to the number of free slots,
  each of its steps is an acquire, a release or nothing, and a step of a caller that has no
  slot is possible whenever one is free.\<close>

theorem pool_refines_semaphore:
  assumes "pool_step\<^sup>*\<^sup>* (new_pool_state sz) p"
  shows "(pool_step p p' \<longrightarrow>
       semaphore_step sz (length (slots p)) (length (slots p')) \<or> length (slots p') = length (slots p)) \<and>
    (borrowers p i = None \<longrightarrow> 0 < length (slots p) \<longrightarrow>
       (\<exists>q. pool_step p q \<and> semaphore_step sz (length (slots p)) (length (slots q))))"
proof (intro conjI impI)
  have inv: "pool_inv sz p" using assms by (rule pool_inv_reachable)
  have room: "length (slots p) < sz" if "borrowers p i = Some b" for i b
    using inv that by (auto simp: pool_inv_def card_gt_0_iff domI intro: trans_less_add1)
  assume "pool_step p p'"
  then show "semaphore_step sz (length (slots p)) (length (slots p')) \<or> length (slots p') = length (slots p)"
    by cases (auto intro: acquire release dest: room)
next
  assume "borrowers p i = None" "0 < length (slots p)"
  then obtain s rest where s: "slots p = s # rest" by (cases "slots p") auto
  have "\<exists>q. pool_step p q \<and> slots q = rest"
  proof (cases "inspect (\<lambda>_. False) s")
    case (Live c)
    from get_live [OF \<open>borrowers p i = None\<close> s this] show ?thesis by fastforce
  next
    case (Redial old)
    from get_redial [OF \<open>borrowers p i = None\<close> s this] show ?thesis by fastforce
  qed
  then show "\<exists>q. pool_step p q \<and> semaphore_step sz (length (slots p)) (length (slots q))"
    using s by (auto intro: acquire)
qed

lemma pool_refines_semaphore_witness:
  "\<exists>q. pool_step busy_pool q \<and> semaphore_step 2 1 (length (slots q))"
  using pool_refines_semaphore [OF busy_reachable, of busy_pool 1] by (simp add: busy_pool_def)

end
