(* ===== verification/Ldap.thy ===== *)
theory Ldap
  imports Ldap_Identity Ldap_Pool Datasources
begin

text \<open>
  The LDAP datasource (\<open>internal/datasources/ldap/ldap.go\<close>): its configuration, the user
  and group searches over pooled connections, and \<open>Resolve\<close>, which fans out over all the
  accounts an identity matches. State is the pool's slots and the world.
\<close>

subsection \<open>Configuration\<close>

record search_config =
  searchBaseDN :: string
  searchFilter :: string
  searchAttribute :: string

record ldap_config =
  URL :: string
  BindDN :: string
  BindPW :: string
  PoolSize :: int
  UserSearch :: search_config
  GroupSearch :: search_config

definition defaultPoolSize :: int where
  "defaultPoolSize = 8"

record ('n, 'b) ldap_provider =
  pool_dial :: "('n, 'b) dial"
  userSearch :: search_config
  groupSearch :: search_config

definition group_attribute :: "search_config \<Rightarrow> search_config" where
  "group_attribute g = (if searchAttribute g = [] then g\<lparr>searchAttribute := ''cn''\<rparr> else g)"

definition NewLdap ::
  "(nat \<Rightarrow> bool) \<Rightarrow> ('n, 'b) ldap_lib \<Rightarrow> ('r \<Rightarrow> ldap_config result) \<Rightarrow> string \<Rightarrow> 'r \<Rightarrow>
     (('n, 'b) ldap_provider \<times> 'n slots) result" where
  "NewLdap is_print lib decode name raw =
     (let at = ''ldap: datasource '' @ quote is_print name
      in case decode raw of
           Inl e \<Rightarrow> Inl (at @ '': decoding config: '' @ e)
         | Inr cfg \<Rightarrow>
             if searchBaseDN (UserSearch cfg) = [] \<or> searchFilter (UserSearch cfg) = [] then
               Inl (at @ '': user_search is required'')
             else if searchBaseDN (GroupSearch cfg) = [] \<or> searchFilter (GroupSearch cfg) = [] then
               Inl (at @ '': group_search is required'')
             else
               (let sz = (if PoolSize cfg \<le> 0 then defaultPoolSize else PoolSize cfg)
                in Inr (\<lparr>pool_dial = dialAndBind lib (URL cfg) (BindDN cfg) (BindPW cfg),
                         userSearch = UserSearch cfg, groupSearch = group_attribute (GroupSearch cfg)\<rparr>,
                        newPool (nat sz))))"

subsection \<open>Searches\<close>

definition userSearchSizeLimit :: nat where "userSearchSizeLimit = 200"
definition groupSearchSizeLimit :: nat where "groupSearchSizeLimit = 500"

text \<open>Whole subtree, aliases never dereferenced, no time limit, one attribute.\<close>

definition search_for :: "search_config \<Rightarrow> nat \<Rightarrow> string \<Rightarrow> search_request" where
  "search_for cfg limit filt =
     \<lparr>BaseDN = searchBaseDN cfg, Scope = 2, DerefAliases = 0, SizeLimit = limit, TimeLimit = 0,
      TypesOnly = False, Filter = filt, Attributes = [searchAttribute cfg]\<rparr>"

definition user_request :: "search_config \<Rightarrow> string \<Rightarrow> search_request" where
  "user_request cfg escapedIdentity =
     search_for cfg userSearchSizeLimit (replace_all ''$IDENTITY'' escapedIdentity (searchFilter cfg))"

definition group_request :: "('n, 'b) ldap_lib \<Rightarrow> search_config \<Rightarrow> string \<Rightarrow> search_request" where
  "group_request lib cfg identityDN =
     search_for cfg groupSearchSizeLimit
       (substituteFilterToken (escape_filter lib) (searchFilter cfg) ''$IDENTITY_DN'' identityDN)"

text \<open>A user match: the attribute's value and the DN of the entry.\<close>

definition user_matches :: "search_config \<Rightarrow> ldap_entry list \<Rightarrow> (string \<times> string) list" where
  "user_matches cfg entries =
     map (\<lambda>e. (AttributeValue e (searchAttribute cfg), DN e))
       (filter (\<lambda>e. AttributeValue e (searchAttribute cfg) \<noteq> []) entries)"

definition group_values :: "search_config \<Rightarrow> ldap_entry list \<Rightarrow> string list" where
  "group_values cfg entries =
     filter (\<lambda>v. v \<noteq> []) (map (\<lambda>e. AttributeValue e (searchAttribute cfg)) entries)"

text \<open>\<open>get\<close>, \<open>Search\<close>, \<open>put\<close>: the part both searches share.\<close>

definition pooled_search ::
  "('n, 'b) ldap_lib \<Rightarrow> ('n, 'b) dial \<Rightarrow> go_ctx \<Rightarrow> search_request \<Rightarrow> 'n slots \<times> 'b world \<Rightarrow>
     (ldap_entry list \<times> search_error option) result \<times> 'n slots \<times> 'b world" where
  "pooled_search lib dial ctx req st =
     (case pool_get lib dial ctx st of
        (Inl e, st1) \<Rightarrow> (Inl e, st1)
      | (Inr conn, (ss, w)) \<Rightarrow>
          (let ((entries, err), w1) = search lib conn req w
           in (Inr (entries, err), pool_put lib conn (connHealthyAfterError err) (ss, w1))))"

definition resolveUser ::
  "('n, 'b) ldap_lib \<Rightarrow> ('n, 'b) dial \<Rightarrow> go_ctx \<Rightarrow> search_config \<Rightarrow> string \<Rightarrow> 'n slots \<times> 'b world \<Rightarrow>
     ((string \<times> string) list \<times> bool) result \<times> 'n slots \<times> 'b world" where
  "resolveUser lib dial ctx cfg escapedIdentity st =
     (case pooled_search lib dial ctx (user_request cfg escapedIdentity) st of
        (Inl e, st1) \<Rightarrow> (Inl (''ldap: user search: acquiring connection: '' @ e), st1)
      | (Inr (entries, Some _), st1) \<Rightarrow> (Inr ([], False), st1)
      | (Inr (entries, None), st1) \<Rightarrow>
          (let matches = user_matches cfg entries in (Inr (matches, matches \<noteq> []), st1)))"

text \<open>Result code 4.\<close>

definition size_limit_exceeded :: "search_error \<Rightarrow> bool" where
  "size_limit_exceeded e = (case e of LdapError code _ \<Rightarrow> code = 4 | OtherError _ \<Rightarrow> False)"

definition error_text :: "search_error \<Rightarrow> string" where
  "error_text e = (case e of LdapError _ t \<Rightarrow> t | OtherError t \<Rightarrow> t)"

definition resolveGroups ::
  "('n, 'b) ldap_lib \<Rightarrow> ('n, 'b) dial \<Rightarrow> go_ctx \<Rightarrow> search_config \<Rightarrow> string \<Rightarrow> 'n slots \<times> 'b world \<Rightarrow>
     string list result \<times> 'n slots \<times> 'b world" where
  "resolveGroups lib dial ctx cfg identityDN st =
     (case pooled_search lib dial ctx (group_request lib cfg identityDN) st of
        (Inl e, st1) \<Rightarrow> (Inl (''ldap: group search: acquiring connection: '' @ e), st1)
      | (Inr (entries, err), st1) \<Rightarrow>
          (case err of
             Some e \<Rightarrow>
               if size_limit_exceeded e then (Inr (group_values cfg entries), st1)
               else (Inl (''ldap: group search failed: '' @ error_text e), st1)
           | None \<Rightarrow> (Inr (group_values cfg entries), st1)))"

subsection \<open>Resolve\<close>

text \<open>The inner loop: append the groups not seen yet.\<close>

fun add_groups :: "string list \<Rightarrow> string list \<Rightarrow> string list" where
  "add_groups groups [] = groups"
| "add_groups groups (g # gs) =
     (if g \<in> set groups then add_groups groups gs else add_groups (groups @ [g]) gs)"

text \<open>The loop over the matched accounts.\<close>

fun resolve_accounts ::
  "('n, 'b) ldap_lib \<Rightarrow> ('n, 'b) ldap_provider \<Rightarrow> go_ctx \<Rightarrow> (string \<times> string) list \<Rightarrow>
     string list \<times> string list \<Rightarrow> 'n slots \<times> 'b world \<Rightarrow>
     (string list \<times> string list) result \<times> 'n slots \<times> 'b world" where
  "resolve_accounts lib p ctx [] acc st = (Inr acc, st)"
| "resolve_accounts lib p ctx ((username, dn) # ms) (usernames, groups) st =
     (case resolveGroups lib (pool_dial p) ctx (groupSearch p) dn st of
        (Inl e, st1) \<Rightarrow> (Inl (''ldap: resolving groups: '' @ e), st1)
      | (Inr gs, st1) \<Rightarrow>
          resolve_accounts lib p ctx ms (usernames @ [username], add_groups groups gs) st1)"

definition escaped_identity :: "('n, 'b) ldap_lib \<Rightarrow> string go_map \<Rightarrow> string" where
  "escaped_identity lib vars =
     escapeFilterValue (escape_filter lib) (normalizeSubjectDN (read_string vars identityVar))"

definition ldap_Resolve ::
  "('n, 'b) ldap_lib \<Rightarrow> ('n, 'b) ldap_provider \<Rightarrow> go_ctx \<Rightarrow> string go_map \<Rightarrow> 'n slots \<times> 'b world \<Rightarrow>
     resolved result \<times> 'n slots \<times> 'b world" where
  "ldap_Resolve lib p ctx vars st =
     (case resolveUser lib (pool_dial p) ctx (userSearch p) (escaped_identity lib vars) st of
        (Inl e, st1) \<Rightarrow> (Inl (''ldap: resolving user: '' @ e), st1)
      | (Inr (matches, ok), st1) \<Rightarrow>
          if \<not> ok then (Inr [], st1)
          else
            (case resolve_accounts lib p ctx matches ([], []) st1 of
               (Inl e, st2) \<Rightarrow> (Inl e, st2)
             | (Inr (usernames, groups), st2) \<Rightarrow>
                 (Inr [(''USER'', usernames), (''GROUP'', groups)], st2)))"

text \<open>As a datasource of the model: the slots live in the backend, where \<open>get\<close> finds them once
  the provider has been used.\<close>

definition as_provider ::
  "('n, 'b) ldap_lib \<Rightarrow> ('b \<Rightarrow> 'n slots option) \<Rightarrow> ('n slots \<Rightarrow> 'b \<Rightarrow> 'b) \<Rightarrow>
     ('n, 'b) ldap_provider \<times> 'n slots \<Rightarrow> 'b provider" where
  "as_provider lib get put p ctx vars w =
     (let ss = (case get (backend w) of None \<Rightarrow> snd p | Some ss \<Rightarrow> ss);
          (r, (ss', w')) = ldap_Resolve lib (fst p) ctx vars (ss, w)
      in (r, w'\<lparr>backend := put ss' (backend w')\<rparr>))"

definition ldap_factory ::
  "(nat \<Rightarrow> bool) \<Rightarrow> ('n, 'b) ldap_lib \<Rightarrow> ('r \<Rightarrow> ldap_config result) \<Rightarrow>
     (string \<Rightarrow> ('b \<Rightarrow> 'n slots option) \<times> ('n slots \<Rightarrow> 'b \<Rightarrow> 'b)) \<Rightarrow> ('r, 'b) factory" where
  "ldap_factory is_print lib decode place name raw =
     (case NewLdap is_print lib decode name raw of
        Inl e \<Rightarrow> Inl e
      | Inr p \<Rightarrow> Inr (as_provider lib (fst (place name)) (snd (place name)) p))"

subsection \<open>What the searches return\<close>

text \<open>The directory once answered a request so.\<close>

definition directory_said ::
  "('n, 'b) ldap_lib \<Rightarrow> search_request \<Rightarrow> ldap_entry list \<Rightarrow> search_error option \<Rightarrow> bool" where
  "directory_said lib req entries err \<longleftrightarrow> (\<exists>conn w w'. search lib conn req w = ((entries, err), w'))"

lemma pooled_search_result:
  assumes "pooled_search lib dial ctx req st = (r, st')"
  shows "length (fst st') = length (fst st) \<and>
    (\<forall>entries err. r = Inr (entries, err) \<longrightarrow> directory_said lib req entries err)"
proof -
  obtain g ss w where g: "pool_get lib dial ctx st = (g, (ss, w))" by (metis surj_pair)
  show ?thesis
  proof (cases g)
    case (Inl e)
    with g assms pool_get_length [OF g] show ?thesis by (auto simp: pooled_search_def)
  next
    case (Inr conn)
    obtain entries err w1 where s: "search lib conn req w = ((entries, err), w1)" by (metis surj_pair)
    with g Inr assms have r: "r = Inr (entries, err)"
      "st' = pool_put lib conn (connHealthyAfterError err) (ss, w1)"
      by (auto simp: pooled_search_def)
    with s pool_get_length [OF g] Inr show ?thesis by (auto simp: directory_said_def)
  qed
qed

lemma add_groups_dedup: "add_groups groups gs = dedup_onto groups gs"
  by (induction groups gs rule: add_groups.induct) simp_all

text \<open>The groups of one account, from one answer, complete or cut at the size limit.\<close>

definition accepted :: "search_error option \<Rightarrow> bool" where
  "accepted err \<longleftrightarrow> (case err of None \<Rightarrow> True | Some e \<Rightarrow> size_limit_exceeded e)"

lemma accepted_simps [simp]: "accepted None" "accepted (Some e) = size_limit_exceeded e"
  by (simp_all add: accepted_def)

definition account_groups :: "('n, 'b) ldap_lib \<Rightarrow> search_config \<Rightarrow> string \<times> string \<Rightarrow> string list \<Rightarrow> bool" where
  "account_groups lib cfg account gs \<longleftrightarrow>
     (\<exists>entries err. directory_said lib (group_request lib cfg (snd account)) entries err \<and>
        accepted err \<and> gs = group_values cfg entries)"

lemma resolveGroups_result:
  assumes "resolveGroups lib dial ctx cfg dn st = (r, st')"
  shows "length (fst st') = length (fst st) \<and> (\<forall>gs. r = Inr gs \<longrightarrow> account_groups lib cfg (u, dn) gs)"
proof -
  obtain x st1 where x: "pooled_search lib dial ctx (group_request lib cfg dn) st = (x, st1)" by (metis surj_pair)
  show ?thesis
  proof (cases x)
    case (Inl e)
    with assms x pooled_search_result [OF x] show ?thesis by (auto simp: resolveGroups_def)
  next
    case (Inr a)
    obtain entries err where a: "a = (entries, err)" by fastforce
    have "r = (if accepted err then Inr (group_values cfg entries)
        else Inl (''ldap: group search failed: '' @ error_text (the err)))" "st' = st1"
      using assms x Inr a by (auto simp: resolveGroups_def split: option.splits if_splits)
    with pooled_search_result [OF x] Inr a show ?thesis
      by (auto simp: account_groups_def)
  qed
qed

lemma resolve_accounts_result:
  "resolve_accounts lib p ctx ms (us, gs) st = (r, st') \<Longrightarrow>
     length (fst st') = length (fst st) \<and>
     (\<forall>us' gs'. r = Inr (us', gs') \<longrightarrow> us' = us @ map fst ms \<and>
        (\<exists>gss. list_all2 (account_groups lib (groupSearch p)) ms gss \<and> gs' = dedup_onto gs (concat gss)))"
proof (induction ms arbitrary: us gs st)
  case (Cons m ms)
  obtain u dn where m: "m = (u, dn)" by fastforce
  obtain x st1 where x: "resolveGroups lib (pool_dial p) ctx (groupSearch p) dn st = (x, st1)"
    by (metis surj_pair)
  note g = resolveGroups_result [OF x, of u]
  show ?case
  proof (cases x)
    case (Inl e)
    with Cons.prems x g m show ?thesis by auto
  next
    case (Inr new)
    with Cons.prems x m have "resolve_accounts lib p ctx ms (us @ [u], dedup_onto gs new) st1 = (r, st')"
      by (simp add: add_groups_dedup)
    from Cons.IH [OF this] g Inr show ?thesis
      by (fastforce simp: m dedup_onto_append intro: exI [of _ "new # _"])
  qed
qed auto

lemma resolveUser_result:
  assumes "resolveUser lib dial ctx cfg esc st = (r, st')"
  shows "length (fst st') = length (fst st) \<and>
    (\<forall>ms ok. r = Inr (ms, ok) \<longrightarrow> ok = (ms \<noteq> []) \<and>
       (ms = [] \<or> (\<exists>entries. directory_said lib (user_request cfg esc) entries None \<and>
                     ms = user_matches cfg entries)))"
proof -
  obtain x st1 where x: "pooled_search lib dial ctx (user_request cfg esc) st = (x, st1)" by (metis surj_pair)
  with assms pooled_search_result [OF x] show ?thesis
    by (auto simp: resolveUser_def Let_def split: sum.splits option.splits)
qed

section \<open>Properties of the LDAP datasource\<close>

text \<open>What a successful resolution returns: nothing, or, for the accounts the directory
  answered to the one user search (with the identity's DN reversed and escaped), their
  attribute values in order as \<open>$USER\<close>, and as \<open>$GROUP\<close> the deduplicated attribute values of
  the answers to one group search per account, no answer failed or missing among them. No
  DN and no empty value is returned as a user name or a group.\<close>

theorem resolve_values:
  assumes "ldap_Resolve lib p ctx vars st = (Inr m, st')"
  shows "m = [] \<or>
    (\<exists>entries gss. directory_said lib (user_request (userSearch p) (escaped_identity lib vars)) entries None \<and>
       user_matches (userSearch p) entries \<noteq> [] \<and>
       list_all2 (account_groups lib (groupSearch p)) (user_matches (userSearch p) entries) gss \<and>
       m = [(''USER'', map fst (user_matches (userSearch p) entries)),
            (''GROUP'', dedup_onto [] (concat gss))]) \<and> list_all (\<lambda>(_, vs). [] \<notin> set vs) m"
proof -
  obtain x st1 where x: "resolveUser lib (pool_dial p) ctx (userSearch p) (escaped_identity lib vars) st = (x, st1)"
    by (metis surj_pair)
  obtain ms ok where ms: "x = Inr (ms, ok)"
    using assms x by (cases x) (auto simp: ldap_Resolve_def)
  show ?thesis
  proof (cases "ms = []")
    case True
    with assms x ms resolveUser_result [OF x] show ?thesis by (auto simp: ldap_Resolve_def)
  next
    case False
    with resolveUser_result [OF x] ms obtain entries where
      e: "directory_said lib (user_request (userSearch p) (escaped_identity lib vars)) entries None"
        "ms = user_matches (userSearch p) entries" "ok" by auto
    obtain y st2 where y: "resolve_accounts lib p ctx ms ([], []) st1 = (y, st2)" by (metis surj_pair)
    with assms x ms e(3) obtain us gs where ug: "y = Inr (us, gs)" "m = [(''USER'', us), (''GROUP'', gs)]"
      by (cases y) (auto simp: ldap_Resolve_def)
    from resolve_accounts_result [OF y] ug(1) obtain gss where
      g: "us = map fst ms" "list_all2 (account_groups lib (groupSearch p)) ms gss" "gs = dedup_onto [] (concat gss)"
      by auto
    have "[] \<notin> set us" by (auto simp: g(1) e(2) user_matches_def)
    moreover have "[] \<notin> set (concat gss)"
      using g(2) by (induction rule: list_all2_induct) (auto simp: account_groups_def group_values_def)
    ultimately show ?thesis using e g ug(2) False by auto
  qed
qed

text \<open>A directory to instantiate it on: one account, in two groups.\<close>

definition toy_search :: "nat \<Rightarrow> search_request \<Rightarrow> unit world \<Rightarrow> (ldap_entry list \<times> search_error option) \<times> unit world" where
  "toy_search c req w =
     ((if Filter req = ''(x=DC=x,CN=al)'' then [\<lparr>DN = ''CN=al,DC=x'', AttributeValue = (\<lambda>_. ''al'')\<rparr>]
       else if Filter req = ''(m=CN=al,DC=x)''
       then [\<lparr>DN = ''CN=g1'', AttributeValue = (\<lambda>_. ''dev'')\<rparr>, \<lparr>DN = ''CN=g2'', AttributeValue = (\<lambda>_. ''ops'')\<rparr>]
       else [], None), w)"

definition toy_lib :: "(nat, unit) ldap_lib" where
  "toy_lib =
     \<lparr>default_timeout = minute, dial_url = (\<lambda>_ _ w. (Inr 0, w)), bind_conn = (\<lambda>_ _ _ w. (None, w)),
      is_closing = (\<lambda>_ _. False), close_conn = (\<lambda>_ w. w), search = toy_search,
      escape_filter = rfc4515_escape, select_done = (\<lambda>_ _. False)\<rparr>"

definition toy_config :: ldap_config where
  "toy_config =
     \<lparr>URL = ''ldap://x'', BindDN = [], BindPW = [], PoolSize = 0,
      UserSearch = \<lparr>searchBaseDN = ''DC=x'', searchFilter = ''(x=$IDENTITY)'', searchAttribute = ''uid''\<rparr>,
      GroupSearch = \<lparr>searchBaseDN = ''DC=x'', searchFilter = ''(m=$IDENTITY_DN)'', searchAttribute = []\<rparr>\<rparr>"

definition toy_provider :: "(nat, unit) ldap_provider" where
  "toy_provider =
     \<lparr>pool_dial = dialAndBind toy_lib ''ldap://x'' [] [], userSearch = UserSearch toy_config,
      groupSearch = group_attribute (GroupSearch toy_config)\<rparr>"

definition toy_world :: "unit world" where
  "toy_world = \<lparr>clock = int, ticks = 0, trace = [], print_table = (\<lambda>_. False), backend = ()\<rparr>"

definition toy_vars :: "string go_map" where
  "toy_vars = [(''IDENTITY'', ''CN=al,DC=x'')]"

lemma toy_resolve:
  "fst (ldap_Resolve toy_lib toy_provider background toy_vars (newPool 8, toy_world)) =
     Inr [(''USER'', [''al'']), (''GROUP'', [''dev'', ''ops''])]"
  by code_simp

lemma resolve_values_witness:
  "\<exists>entries. directory_said toy_lib (user_request (userSearch toy_provider) (escaped_identity toy_lib toy_vars)) entries None \<and>
     map fst (user_matches (userSearch toy_provider) entries) = [''al'']"
proof -
  obtain st' where "ldap_Resolve toy_lib toy_provider background toy_vars (newPool 8, toy_world) =
      (Inr [(''USER'', [''al'']), (''GROUP'', [''dev'', ''ops''])], st')"
    using toy_resolve by (metis prod.collapse)
  from resolve_values [OF this] show ?thesis by auto
qed

text \<open>The requests a resolution may send: the identity reversed and escaped once in the user
  filter, a DN escaped once in the group filter.\<close>

definition may_send ::
  "('n, 'b) ldap_lib \<Rightarrow> ('n, 'b) ldap_provider \<Rightarrow> string go_map \<Rightarrow> search_request \<Rightarrow> bool" where
  "may_send lib p vars req \<longleftrightarrow>
     req = search_for (userSearch p) userSearchSizeLimit
       (replace_all ''$IDENTITY'' (escape_filter lib (normalizeSubjectDN (read_string vars identityVar)))
         (searchFilter (userSearch p))) \<or>
     (\<exists>dn. req = search_for (groupSearch p) groupSearchSizeLimit
       (replace_all ''$IDENTITY_DN'' (escape_filter lib dn) (searchFilter (groupSearch p))))"

lemma user_request_sent: "may_send lib p vars (user_request (userSearch p) (escaped_identity lib vars))"
  by (simp add: may_send_def user_request_def escaped_identity_def escapeFilterValue_def)

lemma group_request_sent: "may_send lib p vars (group_request lib (groupSearch p) dn)"
  by (auto simp: may_send_def group_request_def substituteFilterToken_def escapeFilterValue_def)

text \<open>A library that answers those as another does, and otherwise as it likes.\<close>

definition answers_sent ::
  "('n, 'b) ldap_lib \<Rightarrow> ('n, 'b) ldap_provider \<Rightarrow> string go_map \<Rightarrow> ('n, 'b) ldap_lib \<Rightarrow> bool" where
  "answers_sent lib p vars lib' \<longleftrightarrow>
     (\<exists>other. lib' = lib\<lparr>search := other\<rparr>) \<and>
     (\<forall>conn req w. may_send lib p vars req \<longrightarrow> search lib' conn req w = search lib conn req w)"

lemma answers_sent_fields:
  assumes "answers_sent lib p vars lib'"
  shows "escape_filter lib' = escape_filter lib" "select_done lib' = select_done lib"
    "is_closing lib' = is_closing lib" "close_conn lib' = close_conn lib"
  using assms by (auto simp: answers_sent_def)

lemma pooled_search_same:
  assumes "answers_sent lib p vars lib'" and "may_send lib p vars req"
  shows "pooled_search lib' dial ctx req st = pooled_search lib dial ctx req st"
proof -
  have "pool_get lib' dial ctx st = pool_get lib dial ctx st" for st
    by (simp only: pool_get_def answers_sent_fields [OF assms(1)])
  moreover have "pool_put lib' c healthy st = pool_put lib c healthy st" for c healthy st
    by (simp only: pool_put_def answers_sent_fields [OF assms(1)])
  moreover have "search lib' conn req w = search lib conn req w" for conn w
    using assms unfolding answers_sent_def by blast
  ultimately show ?thesis by (simp add: pooled_search_def Let_def split: prod.split sum.split)
qed

lemma resolveGroups_same:
  assumes "answers_sent lib p vars lib'"
  shows "resolveGroups lib' dial ctx (groupSearch p) dn st = resolveGroups lib dial ctx (groupSearch p) dn st"
  using pooled_search_same [OF assms group_request_sent]
  by (simp add: resolveGroups_def group_request_def answers_sent_fields [OF assms])

lemma resolve_accounts_same:
  assumes "answers_sent lib p vars lib'"
  shows "resolve_accounts lib' p ctx ms acc st = resolve_accounts lib p ctx ms acc st"
proof (induction ms arbitrary: acc st)
  case (Cons m ms)
  obtain u dn us gs where "m = (u, dn)" "acc = (us, gs)" by (metis surj_pair)
  then show ?case using Cons by (simp add: resolveGroups_same [OF assms] split: prod.split sum.split)
qed simp

lemma ldap_Resolve_same:
  assumes "answers_sent lib p vars lib'"
  shows "ldap_Resolve lib' p ctx vars st = ldap_Resolve lib p ctx vars st"
proof -
  have esc: "escaped_identity lib' vars = escaped_identity lib vars"
    by (simp add: escaped_identity_def answers_sent_fields [OF assms])
  have "resolveUser lib' dial ctx (userSearch p) (escaped_identity lib vars) st =
      resolveUser lib dial ctx (userSearch p) (escaped_identity lib vars) st" for dial
    by (simp add: resolveUser_def pooled_search_same [OF assms user_request_sent])
  moreover have "resolve_accounts lib' p ctx = resolve_accounts lib p ctx"
    by (intro ext resolve_accounts_same [OF assms])
  ultimately show ?thesis by (simp add: ldap_Resolve_def esc split: prod.split sum.split)
qed

lemma may_send_structure:
  assumes "\<forall>v. list_all (\<lambda>c. \<not> filter_meta c) (escape_filter lib v)" and "may_send lib p vars req"
  shows "filter filter_meta (Filter req) = filter filter_meta (searchFilter (userSearch p)) \<or>
    filter filter_meta (Filter req) = filter filter_meta (searchFilter (groupSearch p))"
proof -
  have "list_all (\<lambda>c. \<not> filter_meta c) ''$IDENTITY''" "list_all (\<lambda>c. \<not> filter_meta c) ''$IDENTITY_DN''"
    by code_simp+
  then show ?thesis
    using assms by (auto simp: may_send_def search_for_def replace_all_filter)
qed

text \<open>C26. No identity can change the structure of a search: a resolution sends the directory
  nothing but its two configured filters, in the one the identity, reversed and then escaped
  exactly once, in the other a DN escaped exactly once (whatever the directory would say to any
  other request makes no difference to it); so the parentheses, wildcards and NULs of what it
  sends are those of a configured filter, in the same order, if the library's escaping leaves
  none of them in its result.\<close>

theorem searches_keep_structure:
  assumes "\<forall>v. list_all (\<lambda>c. \<not> filter_meta c) (escape_filter lib v)"
    and "\<forall>conn req w. may_send lib p vars req \<longrightarrow> other conn req w = search lib conn req w"
  shows "ldap_Resolve (lib\<lparr>search := other\<rparr>) p ctx vars st = ldap_Resolve lib p ctx vars st \<and>
    (\<forall>req. may_send lib p vars req \<longrightarrow>
       filter filter_meta (Filter req) \<in>
         {filter filter_meta (searchFilter (userSearch p)), filter filter_meta (searchFilter (groupSearch p))})"
proof -
  have "answers_sent lib p vars (lib\<lparr>search := other\<rparr>)" using assms(2) by (auto simp: answers_sent_def)
  then show ?thesis using ldap_Resolve_same may_send_structure [OF assms(1)] by blast
qed

text \<open>A directory that fails on every filter with more than one pair of parentheses.\<close>

definition strict_search :: "nat \<Rightarrow> search_request \<Rightarrow> unit world \<Rightarrow> (ldap_entry list \<times> search_error option) \<times> unit world" where
  "strict_search c req w =
     (if filter filter_meta (Filter req) = ''()'' then toy_search c req w else (([], Some (LdapError 87 ''filter'')), w))"

lemma searches_keep_structure_witness:
  "ldap_Resolve (toy_lib\<lparr>search := strict_search\<rparr>) toy_provider background
     [(''IDENTITY'', ''*)(uid=*'')] (newPool 8, toy_world) =
   ldap_Resolve toy_lib toy_provider background [(''IDENTITY'', ''*)(uid=*'')] (newPool 8, toy_world)"
proof -
  have e: "\<forall>v. list_all (\<lambda>c. \<not> filter_meta c) (escape_filter toy_lib v)"
    using rfc4515_no_meta by (simp add: toy_lib_def)
  have "filter filter_meta (searchFilter (userSearch toy_provider)) = ''()''"
    "filter filter_meta (searchFilter (groupSearch toy_provider)) = ''()''" by code_simp+
  then have "filter filter_meta (Filter req) = ''()''"
    if "may_send toy_lib toy_provider [(''IDENTITY'', ''*)(uid=*'')] req" for req
    using may_send_structure [OF e that] by simp
  moreover have "search toy_lib = toy_search" by (simp add: toy_lib_def)
  ultimately have "\<forall>conn req w. may_send toy_lib toy_provider [(''IDENTITY'', ''*)(uid=*'')] req \<longrightarrow>
      strict_search conn req w = search toy_lib conn req w"
    by (simp add: strict_search_def)
  from searches_keep_structure [OF e this] show ?thesis by blast
qed

text \<open>A resolution gives back every connection it takes: on every path, errors and
  discarded connections included, the pool has as many slots after as before.\<close>

theorem no_slot_leaked:
  assumes "ldap_Resolve lib p ctx vars (ss, w) = (r, (ss', w'))"
  shows "length ss' = length ss"
proof -
  obtain x st1 where x: "resolveUser lib (pool_dial p) ctx (userSearch p) (escaped_identity lib vars) (ss, w) = (x, st1)"
    by (metis surj_pair)
  have one: "length (fst st1) = length ss" using resolveUser_result [OF x] by simp
  have two: "length (fst st2) = length (fst st1)"
    if "resolve_accounts lib p ctx ms ([], []) st1 = (y, st2)" for ms y st2
    using resolve_accounts_result [OF that] by blast
  show ?thesis
    using assms x one two
    by (cases x) (auto simp: ldap_Resolve_def split: sum.splits if_splits prod.splits)
qed

lemma no_slot_leaked_witness:
  "length (fst (snd (ldap_Resolve toy_lib toy_provider background toy_vars (newPool 8, toy_world)))) = 8"
proof -
  obtain r ss' w' where r: "ldap_Resolve toy_lib toy_provider background toy_vars (newPool 8, toy_world) = (r, (ss', w'))"
    by (metis surj_pair)
  from no_slot_leaked [OF this] r show ?thesis by (simp add: newPool_def)
qed

text \<open>A dialling error is reported in full: its text, which names the server in the
  library's errors, is the end of the error of \<open>Resolve\<close>.\<close>

theorem dial_error_reported:
  assumes "ss \<noteq> []" and "\<not> select_done lib ctx w"
    and "inspect (\<lambda>c. is_closing lib c w) (hd ss) = Redial None"
    and "pool_dial p ctx w = (Inl e, w')"
  shows "ldap_Resolve lib p ctx vars (ss, w) =
    (Inl (''ldap: resolving user: ldap: user search: acquiring connection: '' @ e), (tl ss @ [None], w'))"
  using assms by (simp add: ldap_Resolve_def resolveUser_def pooled_search_def pool_get_def Let_def)

lemma dial_error_reported_witness:
  "fst (ldap_Resolve toy_lib (toy_provider\<lparr>pool_dial := (\<lambda>_ w. (Inl ''dial tcp dc1:389'', w))\<rparr>) background toy_vars
     (newPool 8, toy_world)) =
   Inl ''ldap: resolving user: ldap: user search: acquiring connection: dial tcp dc1:389''"
  by (subst dial_error_reported [where e = "''dial tcp dc1:389''" and w' = toy_world])
    (simp_all add: newPool_def toy_lib_def inspect_def)

end
