(* ===== verification/Ldap_Shared.thy ===== *)
theory Ldap_Shared
  imports Ldap
begin

text \<open>
  Resolutions of one LDAP datasource that run at the same time. \<open>Provider.Resolve\<close> is cut
  where it touches what they share: it waits for a slot of the pool, dials, searches, and
  gives the connection back, once for the user search and once for every account. Any other
  resolution, and the world, moves between two of these steps. Connections carry the number
  of the dial that made them, as each is an object of its own.
\<close>

subsection \<open>States\<close>

type_synonym 'n numbered = "nat \<times> 'n"

text \<open>What is being searched for: the user, or the groups of one account, with the accounts
  still to come and the user names and groups collected so far.\<close>

datatype job =
    Users
  | Account "string \<times> string" "(string \<times> string) list" "string list" "string list"

datatype 'n standing =
    Wants
  | Dials
  | Holds "'n numbered"
  | Found "'n numbered" "ldap_entry list" "search_error option"
  | Ended "resolved result"

record 'n resolver =
  v_ctx :: go_ctx
  v_vars :: "string go_map"
  v_job :: job
  v_at :: "'n standing"

text \<open>\<open>free\<close> is the pool's channel, \<open>dials\<close> the number of the next connection.\<close>

record ('n, 'b) shared_ldap =
  free :: "'n numbered slots"
  dials :: nat
  ldap_world :: "'b world"
  resolvers :: "nat \<rightharpoonup> 'n resolver"

subsection \<open>The steps of a resolution\<close>

definition request_of :: "('n, 'b) ldap_lib \<Rightarrow> ('n, 'b) ldap_provider \<Rightarrow> string go_map \<Rightarrow> job \<Rightarrow> search_request" where
  "request_of lib p vars job =
     (case job of
        Users \<Rightarrow> user_request (userSearch p) (escaped_identity lib vars)
      | Account m _ _ _ \<Rightarrow> group_request lib (groupSearch p) (snd m))"

text \<open>The error when no connection can be acquired.\<close>

definition unacquired :: "job \<Rightarrow> go_error \<Rightarrow> resolved result" where
  "unacquired job e =
     Inl (case job of
            Users \<Rightarrow> ''ldap: resolving user: ldap: user search: acquiring connection: '' @ e
          | Account _ _ _ _ \<Rightarrow> ''ldap: resolving groups: ldap: group search: acquiring connection: '' @ e)"

text \<open>The loop over the accounts: the next search, or the result.\<close>

definition next_account ::
  "(string \<times> string) list \<Rightarrow> string list \<Rightarrow> string list \<Rightarrow> job + resolved result" where
  "next_account ms usernames groups =
     (case ms of
        [] \<Rightarrow> Inr (Inr [(''USER'', usernames), (''GROUP'', groups)])
      | m # rest \<Rightarrow> Inl (Account m rest usernames groups))"

definition searched ::
  "('n, 'b) ldap_provider \<Rightarrow> job \<Rightarrow> ldap_entry list \<Rightarrow> search_error option \<Rightarrow> job + resolved result" where
  "searched p job entries err =
     (case job of
        Users \<Rightarrow>
          (let matches = user_matches (userSearch p) entries
           in if err \<noteq> None \<or> matches = [] then Inr (Inr []) else next_account matches [] [])
      | Account m rest usernames groups \<Rightarrow>
          (case err of
             Some e \<Rightarrow>
               if size_limit_exceeded e
               then next_account rest (usernames @ [fst m]) (add_groups groups (group_values (groupSearch p) entries))
               else Inr (Inl (''ldap: resolving groups: ldap: group search failed: '' @ error_text e))
           | None \<Rightarrow>
               next_account rest (usernames @ [fst m]) (add_groups groups (group_values (groupSearch p) entries))))"

definition goes_on :: "job + resolved result \<Rightarrow> 'n resolver \<Rightarrow> 'n resolver" where
  "goes_on x r =
     (case x of Inl job \<Rightarrow> r\<lparr>v_job := job, v_at := Wants\<rparr> | Inr res \<Rightarrow> r\<lparr>v_at := Ended res\<rparr>)"

text \<open>The next step of resolution \<open>i\<close>; \<open>None\<close> when it waits for a slot or has ended.\<close>

definition act ::
  "('n, 'b) ldap_lib \<Rightarrow> ('n, 'b) ldap_provider \<Rightarrow> nat \<Rightarrow> ('n, 'b) shared_ldap \<Rightarrow> ('n, 'b) shared_ldap option" where
  "act lib p i d =
     (case resolvers d i of
        None \<Rightarrow> None
      | Some r \<Rightarrow>
          (let w = ldap_world d; to = (\<lambda>r'. (resolvers d)(i \<mapsto> r'))
           in case v_at r of
                Wants \<Rightarrow>
                  (case free d of
                     [] \<Rightarrow> None
                   | s # rest \<Rightarrow>
                       (case inspect (\<lambda>c. is_closing lib (snd c) w) s of
                          Live c \<Rightarrow> Some (d\<lparr>free := rest, resolvers := to (r\<lparr>v_at := Holds c\<rparr>)\<rparr>)
                        | Redial old \<Rightarrow>
                            Some (d\<lparr>free := rest, resolvers := to (r\<lparr>v_at := Dials\<rparr>),
                              ldap_world := (case old of None \<Rightarrow> w | Some c \<Rightarrow> close_conn lib (snd c) w)\<rparr>)))
              | Dials \<Rightarrow>
                  (case pool_dial p (v_ctx r) w of
                     (Inl e, w') \<Rightarrow>
                       Some (d\<lparr>free := free d @ [None], ldap_world := w',
                         resolvers := to (r\<lparr>v_at := Ended (unacquired (v_job r) e)\<rparr>)\<rparr>)
                   | (Inr c, w') \<Rightarrow>
                       Some (d\<lparr>dials := Suc (dials d), ldap_world := w',
                         resolvers := to (r\<lparr>v_at := Holds (dials d, c)\<rparr>)\<rparr>))
              | Holds c \<Rightarrow>
                  (let ((entries, err), w') = search lib (snd c) (request_of lib p (v_vars r) (v_job r)) w
                   in Some (d\<lparr>ldap_world := w', resolvers := to (r\<lparr>v_at := Found c entries err\<rparr>)\<rparr>))
              | Found c entries err \<Rightarrow>
                  (let healthy = connHealthyAfterError err
                   in Some (d\<lparr>free := free d @ [if healthy then Some c else None],
                        ldap_world := (if healthy then w else close_conn lib (snd c) w),
                        resolvers := to (goes_on (searched p (v_job r) entries err) r)\<rparr>))
              | Ended _ \<Rightarrow> None))"

text \<open>Moves of the resolutions there are, and everything else: a new one comes; the context of
  one that waits is done, for whatever reason; the world moves.\<close>

inductive ldap_moves ::
  "('n, 'b) ldap_lib \<Rightarrow> ('n, 'b) ldap_provider \<Rightarrow> ('n, 'b) shared_ldap \<Rightarrow> ('n, 'b) shared_ldap \<Rightarrow> bool" for lib p where
  acts: "act lib p i d = Some d' \<Longrightarrow> ldap_moves lib p d d'"

inductive ldap_step ::
  "('n, 'b) ldap_lib \<Rightarrow> ('n, 'b) ldap_provider \<Rightarrow> ('n, 'b) shared_ldap \<Rightarrow> ('n, 'b) shared_ldap \<Rightarrow> bool" for lib p where
  moved: "ldap_moves lib p d d' \<Longrightarrow> ldap_step lib p d d'"
| comes: "resolvers d i = None \<Longrightarrow> ldap_step lib p d (d\<lparr>resolvers := (resolvers d)(i \<mapsto>
     \<lparr>v_ctx = ctx, v_vars = vars, v_job = Users, v_at = Wants\<rparr>)\<rparr>)"
| gives_up: "resolvers d i = Some r \<Longrightarrow> v_at r = Wants \<Longrightarrow>
     ldap_step lib p d (d\<lparr>resolvers := (resolvers d)(i \<mapsto> r\<lparr>v_at := Ended (unacquired (v_job r) done)\<rparr>)\<rparr>)"
| elsewhere: "ldap_step lib p d (d\<lparr>ldap_world := w\<rparr>)"

definition idle_ldap :: "nat \<Rightarrow> 'b world \<Rightarrow> ('n, 'b) shared_ldap" where
  "idle_ldap sz w = \<lparr>free = newPool sz, dials = 0, ldap_world = w, resolvers = Map.empty\<rparr>"

inductive_simps ldap_moves_iff: "ldap_moves lib p d d'"
inductive_cases ldap_stepE: "ldap_step lib p d d'"

lemma act_cases:
  assumes "act lib p i d = Some d'"
  obtains
    (live) r c rest where "resolvers d i = Some r" "v_at r = Wants" "free d = Some c # rest"
      "d' = d\<lparr>free := rest, resolvers := (resolvers d)(i \<mapsto> r\<lparr>v_at := Holds c\<rparr>)\<rparr>"
      "inspect (\<lambda>c. is_closing lib (snd c) (ldap_world d)) (Some c) = Live c"
  | (redial) r s old rest w where "resolvers d i = Some r" "v_at r = Wants" "free d = s # rest"
      "inspect (\<lambda>c. is_closing lib (snd c) (ldap_world d)) s = Redial old"
      "d' = d\<lparr>free := rest, resolvers := (resolvers d)(i \<mapsto> r\<lparr>v_at := Dials\<rparr>), ldap_world := w\<rparr>"
  | (failed) r e w where "resolvers d i = Some r" "v_at r = Dials"
      "d' = d\<lparr>free := free d @ [None], ldap_world := w,
         resolvers := (resolvers d)(i \<mapsto> r\<lparr>v_at := Ended (unacquired (v_job r) e)\<rparr>)\<rparr>"
  | (connected) r c w where "resolvers d i = Some r" "v_at r = Dials"
      "d' = d\<lparr>dials := Suc (dials d), ldap_world := w,
         resolvers := (resolvers d)(i \<mapsto> r\<lparr>v_at := Holds (dials d, c)\<rparr>)\<rparr>"
  | (answered) r c entries err w where "resolvers d i = Some r" "v_at r = Holds c"
      "directory_said lib (request_of lib p (v_vars r) (v_job r)) entries err"
      "d' = d\<lparr>ldap_world := w, resolvers := (resolvers d)(i \<mapsto> r\<lparr>v_at := Found c entries err\<rparr>)\<rparr>"
  | (returned) r c entries err healthy w where "resolvers d i = Some r" "v_at r = Found c entries err"
      "d' = d\<lparr>free := free d @ [if healthy then Some c else None], ldap_world := w,
         resolvers := (resolvers d)(i \<mapsto> goes_on (searched p (v_job r) entries err) r)\<rparr>"
proof -
  obtain r where r: "resolvers d i = Some r" using assms by (auto simp: act_def split: option.splits)
  show ?thesis
  proof (cases "v_at r")
    case Wants
    then obtain s rest where s: "free d = s # rest" using assms r by (auto simp: act_def Let_def split: list.splits)
    show ?thesis
    proof (cases "inspect (\<lambda>c. is_closing lib (snd c) (ldap_world d)) s")
      case (Live c)
      with inspect_Live have "s = Some c" by metis
      with assms r Wants s Live show ?thesis by (intro live [of r c rest]) (simp_all add: act_def Let_def)
    next
      case (Redial old)
      with assms r Wants s show ?thesis by (intro redial [of r s rest old]) (auto simp: act_def Let_def)
    qed
  next
    case Dials
    with assms r show ?thesis
      by (auto simp: act_def Let_def split: prod.splits sum.splits intro: failed connected)
  next
    case (Holds c)
    obtain entries err w where s: "search lib (snd c) (request_of lib p (v_vars r) (v_job r)) (ldap_world d) =
        ((entries, err), w)" by (metis surj_pair)
    then have "directory_said lib (request_of lib p (v_vars r) (v_job r)) entries err"
      unfolding directory_said_def by blast
    with assms r Holds s show ?thesis by (intro answered [of r c entries err w]) (simp_all add: act_def)
  next
    case (Found c entries err)
    with assms r show ?thesis by (auto simp: act_def Let_def intro: returned)
  qed (use assms r in \<open>simp add: act_def\<close>)
qed

subsection \<open>The pool under the resolutions\<close>

definition borrowing :: "'n resolver \<Rightarrow> 'n numbered borrower option" where
  "borrowing r =
     (case v_at r of
        Dials \<Rightarrow> Some Dialing
      | Holds c \<Rightarrow> Some (Holding c)
      | Found c _ _ \<Rightarrow> Some (Holding c)
      | _ \<Rightarrow> None)"

lemma borrowing_simps [simp]:
  "v_at r = Wants \<Longrightarrow> borrowing r = None" "v_at r = Ended x \<Longrightarrow> borrowing r = None"
  "v_at r = Dials \<Longrightarrow> borrowing r = Some Dialing"
  "v_at r = Holds c \<Longrightarrow> borrowing r = Some (Holding c)"
  "v_at r = Found c entries err \<Longrightarrow> borrowing r = Some (Holding c)"
  "borrowing (goes_on y r) = None"
  by (simp_all add: borrowing_def goes_on_def split: sum.split)

definition borrowers_of :: "(nat \<rightharpoonup> 'n resolver) \<Rightarrow> nat \<rightharpoonup> 'n numbered borrower" where
  "borrowers_of m = (\<lambda>i. case m i of None \<Rightarrow> None | Some r \<Rightarrow> borrowing r)"

lemma borrowers_of_upd [simp]: "borrowers_of (m(i \<mapsto> r)) = (borrowers_of m)(i := borrowing r)"
  by (simp add: borrowers_of_def fun_eq_iff)

lemma borrowers_of_at: "m i = Some r \<Longrightarrow> borrowers_of m i = borrowing r"
  by (simp add: borrowers_of_def)

lemma borrowers_of_same: "m i = Some r \<Longrightarrow> borrowing r = b \<Longrightarrow> (borrowers_of m)(i := b) = borrowers_of m"
  by (auto simp: borrowers_of_def fun_eq_iff)

definition pool_of :: "('n, 'b) shared_ldap \<Rightarrow> 'n numbered pool_state" where
  "pool_of d = \<lparr>slots = free d, borrowers = borrowers_of (resolvers d)\<rparr>"

text \<open>No connection has a number that was not given out yet.\<close>

definition numbered :: "('n, 'b) shared_ldap \<Rightarrow> bool" where
  "numbered d \<longleftrightarrow>
     (\<forall>i c. borrowers_of (resolvers d) i = Some (Holding c) \<longrightarrow> fst c < dials d) \<and>
     (\<forall>c. Some c \<in> set (free d) \<longrightarrow> fst c < dials d)"

lemma numbered_fresh:
  assumes "numbered d"
  shows "(dials d, c) \<notin> held (pool_of d) \<and> (dials d, c) \<notin> pooled (pool_of d)"
  using assms unfolding numbered_def held_def pooled_def pool_of_def by force

lemma numbered_act:
  assumes "act lib p i d = Some d'" and "numbered d"
  shows "numbered d'"
  using assms(1)
proof (cases rule: act_cases)
  case (connected r c w)
  with assms(2) show ?thesis by (auto simp: numbered_def less_Suc_eq)
next
  case (returned r c entries err healthy w)
  then have "borrowers_of (resolvers d) i = Some (Holding c)" by (simp add: borrowers_of_at)
  with returned assms(2) show ?thesis by (auto simp: numbered_def split: if_splits)
next
  case (answered r c entries err w)
  then have "borrowers_of (resolvers d) i = Some (Holding c)" by (simp add: borrowers_of_at)
  with answered assms(2) show ?thesis by (auto simp: numbered_def split: if_splits)
qed (use assms(2) in \<open>auto simp: numbered_def split: if_splits\<close>)

lemma act_pool:
  assumes "act lib p i d = Some d'" and "numbered d"
  shows "pool_step\<^sup>*\<^sup>* (pool_of d) (pool_of d')"
  using assms(1)
proof (cases rule: act_cases)
  case (live r c rest)
  then have "borrowers (pool_of d) i = None" by (simp add: pool_of_def borrowers_of_at)
  from get_live [OF this _ live(5)] live show ?thesis by (simp add: pool_of_def r_into_rtranclp)
next
  case (redial r s old rest w)
  then have "borrowers (pool_of d) i = None" by (simp add: pool_of_def borrowers_of_at)
  from get_redial [OF this _ redial(4)] redial show ?thesis by (simp add: pool_of_def r_into_rtranclp)
next
  case (failed r e w)
  then have "borrowers (pool_of d) i = Some Dialing" by (simp add: pool_of_def borrowers_of_at)
  from dial_failed [OF this] failed show ?thesis by (simp add: pool_of_def r_into_rtranclp)
next
  case (connected r c w)
  then have "borrowers (pool_of d) i = Some Dialing" by (simp add: pool_of_def borrowers_of_at)
  moreover have "(dials d, c) \<notin> held (pool_of d)" "(dials d, c) \<notin> pooled (pool_of d)"
    using numbered_fresh [OF assms(2)] by blast+
  ultimately have "pool_step (pool_of d) (pool_of d\<lparr>borrowers := (borrowers (pool_of d))(i \<mapsto> Holding (dials d, c))\<rparr>)"
    by (rule pool_step.dialed)
  with connected show ?thesis by (simp add: pool_of_def r_into_rtranclp)
next
  case (answered r c entries err w)
  then show ?thesis by (simp add: pool_of_def borrowers_of_same)
next
  case (returned r c entries err healthy w)
  then have "borrowers (pool_of d) i = Some (Holding c)" by (simp add: pool_of_def borrowers_of_at)
  from put [OF this, of healthy] returned show ?thesis by (simp add: pool_of_def r_into_rtranclp)
qed

lemma step_pool:
  assumes "ldap_step lib p d d'" and "numbered d"
  shows "numbered d' \<and> pool_step\<^sup>*\<^sup>* (pool_of d) (pool_of d')"
  using assms(1)
proof cases
  case moved
  then obtain i where "act lib p i d = Some d'" by (auto simp: ldap_moves_iff)
  with numbered_act act_pool assms(2) show ?thesis by blast
next
  case (comes i ctx vars)
  then have "borrowers_of (resolvers d') = borrowers_of (resolvers d)" "free d' = free d" "dials d' = dials d"
    by (auto simp: borrowers_of_def fun_eq_iff)
  with assms(2) show ?thesis by (simp add: pool_of_def numbered_def)
next
  case (gives_up i r e)
  then have "borrowers_of (resolvers d') = borrowers_of (resolvers d)" "free d' = free d" "dials d' = dials d"
    by (auto simp: borrowers_of_def fun_eq_iff)
  with assms(2) show ?thesis by (simp add: pool_of_def numbered_def)
next
  case (elsewhere w)
  with assms(2) show ?thesis by (simp add: pool_of_def numbered_def)
qed

lemma idle_pool:
  "pool_of (idle_ldap sz w) = new_pool_state sz" "numbered (idle_ldap sz w)"
  by (simp_all add: pool_of_def numbered_def idle_ldap_def new_pool_state_def borrowers_of_def newPool_def)

lemma reachable_pool:
  assumes "(ldap_step lib p)\<^sup>*\<^sup>* (idle_ldap sz w) d"
  shows "numbered d \<and> pool_step\<^sup>*\<^sup>* (new_pool_state sz) (pool_of d)"
  using assms
proof (induction rule: rtranclp_induct)
  case base
  show ?case by (simp add: idle_pool)
next
  case (step d d')
  with step_pool [OF step(2)] show ?case by (meson rtranclp_trans)
qed

lemma reachable_pool_inv: "(ldap_step lib p)\<^sup>*\<^sup>* (idle_ldap sz w) d \<Longrightarrow> pool_inv sz (pool_of d)"
  using reachable_pool pool_inv_reachable by blast

subsection \<open>Values\<close>

text \<open>What a successful resolution may return: nothing, or the answers of one user search and
  of one group search per account.\<close>

definition answers_of ::
  "('n, 'b) ldap_lib \<Rightarrow> ('n, 'b) ldap_provider \<Rightarrow> string go_map \<Rightarrow> ldap_entry list \<Rightarrow> string list list \<Rightarrow> bool" where
  "answers_of lib p vars entries gss \<longleftrightarrow>
     directory_said lib (user_request (userSearch p) (escaped_identity lib vars)) entries None \<and>
     list_all2 (account_groups lib (groupSearch p)) (take (length gss) (user_matches (userSearch p) entries)) gss"

definition job_ok :: "('n, 'b) ldap_lib \<Rightarrow> ('n, 'b) ldap_provider \<Rightarrow> string go_map \<Rightarrow> job \<Rightarrow> bool" where
  "job_ok lib p vars job =
     (case job of
        Users \<Rightarrow> True
      | Account m rest us gs \<Rightarrow>
          (\<exists>entries gss. answers_of lib p vars entries gss \<and>
             drop (length gss) (user_matches (userSearch p) entries) = m # rest \<and>
             us = map fst (take (length gss) (user_matches (userSearch p) entries)) \<and>
             gs = dedup_onto [] (concat gss)))"

definition result_ok :: "('n, 'b) ldap_lib \<Rightarrow> ('n, 'b) ldap_provider \<Rightarrow> string go_map \<Rightarrow> resolved \<Rightarrow> bool" where
  "result_ok lib p vars m \<longleftrightarrow>
     m = [] \<or>
     (\<exists>entries gss. answers_of lib p vars entries gss \<and> user_matches (userSearch p) entries \<noteq> [] \<and>
        length gss = length (user_matches (userSearch p) entries) \<and>
        m = [(''USER'', map fst (user_matches (userSearch p) entries)), (''GROUP'', dedup_onto [] (concat gss))])"

definition resolver_ok :: "('n, 'b) ldap_lib \<Rightarrow> ('n, 'b) ldap_provider \<Rightarrow> 'n resolver \<Rightarrow> bool" where
  "resolver_ok lib p r \<longleftrightarrow>
     job_ok lib p (v_vars r) (v_job r) \<and>
     (case v_at r of
        Found _ entries err \<Rightarrow> directory_said lib (request_of lib p (v_vars r) (v_job r)) entries err
      | Ended (Inr m) \<Rightarrow> result_ok lib p (v_vars r) m
      | _ \<Rightarrow> True)"

lemma next_account_ok:
  assumes "answers_of lib p vars entries gss" and "user_matches (userSearch p) entries \<noteq> []"
    and "drop (length gss) (user_matches (userSearch p) entries) = rest"
    and "us = map fst (take (length gss) (user_matches (userSearch p) entries))"
    and "gs = dedup_onto [] (concat gss)"
  shows "case next_account rest us gs of
      Inl job \<Rightarrow> job_ok lib p vars job | Inr (Inr m) \<Rightarrow> result_ok lib p vars m | Inr (Inl _) \<Rightarrow> True"
proof (cases rest)
  case Nil
  have "length gss \<le> length (user_matches (userSearch p) entries)"
    using assms(1) by (auto simp: answers_of_def dest: list_all2_lengthD)
  with assms Nil show ?thesis by (fastforce simp: next_account_def result_ok_def)
next
  case (Cons m ms)
  with assms show ?thesis by (auto simp: next_account_def job_ok_def)
qed

lemma searched_ok:
  assumes "job_ok lib p vars job" and "directory_said lib (request_of lib p vars job) entries err"
  shows "case searched p job entries err of
      Inl job' \<Rightarrow> job_ok lib p vars job' | Inr (Inr m) \<Rightarrow> result_ok lib p vars m | Inr (Inl _) \<Rightarrow> True"
proof (cases job)
  case Users
  show ?thesis
  proof (cases "err = None \<and> user_matches (userSearch p) entries \<noteq> []")
    case True
    with assms Users have "answers_of lib p vars entries []" by (simp add: answers_of_def request_of_def)
    from next_account_ok [OF this] True Users show ?thesis by (simp add: searched_def)
  next
    case False
    with Users show ?thesis by (auto simp: searched_def result_ok_def)
  qed
next
  case (Account m rest us gs)
  with assms(1) obtain es gss where a: "answers_of lib p vars es gss"
      "drop (length gss) (user_matches (userSearch p) es) = m # rest"
      "us = map fst (take (length gss) (user_matches (userSearch p) es))" "gs = dedup_onto [] (concat gss)"
    by (auto simp: job_ok_def)
  let ?ms = "user_matches (userSearch p) es" and ?new = "group_values (groupSearch p) entries"
  have n: "length gss < length ?ms" using a(2) by (metis drop_eq_Nil linorder_not_le list.distinct(1))
  have m: "?ms ! length gss = m" "drop (Suc (length gss)) ?ms = rest"
    using a(2) n by (auto simp: Cons_nth_drop_Suc [symmetric])
  show ?thesis
  proof (cases "accepted err")
    case True
    with assms(2) Account have "account_groups lib (groupSearch p) m ?new"
      by (auto simp: account_groups_def request_of_def)
    with a(1) n m have "answers_of lib p vars es (gss @ [?new])"
      by (auto simp: answers_of_def take_Suc_conv_app_nth intro: list_all2_appendI)
    moreover have "?ms \<noteq> []" using n by auto
    ultimately have "case next_account rest (us @ [fst m]) (add_groups gs ?new) of
        Inl job \<Rightarrow> job_ok lib p vars job | Inr (Inr m) \<Rightarrow> result_ok lib p vars m | Inr (Inl _) \<Rightarrow> True"
      by (rule next_account_ok)
        (use a n m in \<open>simp_all add: take_Suc_conv_app_nth add_groups_dedup dedup_onto_append\<close>)
    with True Account show ?thesis by (auto simp: searched_def accepted_def split: option.split)
  next
    case False
    with Account show ?thesis by (auto simp: searched_def accepted_def split: option.split)
  qed
qed

lemma resolver_ok_simps [simp]:
  "resolver_ok lib p (r\<lparr>v_at := Holds c\<rparr>) = job_ok lib p (v_vars r) (v_job r)"
  "resolver_ok lib p (r\<lparr>v_at := Dials\<rparr>) = job_ok lib p (v_vars r) (v_job r)"
  "resolver_ok lib p (r\<lparr>v_at := Ended (unacquired j e)\<rparr>) = job_ok lib p (v_vars r) (v_job r)"
  by (simp_all add: resolver_ok_def unacquired_def)

definition all_ok :: "('n, 'b) ldap_lib \<Rightarrow> ('n, 'b) ldap_provider \<Rightarrow> ('n, 'b) shared_ldap \<Rightarrow> bool" where
  "all_ok lib p d \<longleftrightarrow> (\<forall>i r. resolvers d i = Some r \<longrightarrow> resolver_ok lib p r)"

lemma act_ok:
  assumes "act lib p i d = Some d'" and "all_ok lib p d"
  shows "all_ok lib p d'"
proof -
  have job: "job_ok lib p (v_vars r) (v_job r)" if "resolvers d i = Some r" for r
    using assms(2) that by (auto simp: all_ok_def resolver_ok_def)
  from assms(1) show ?thesis
  proof (cases rule: act_cases)
    case (answered r c entries err w)
    with assms(2) job show ?thesis by (auto simp: all_ok_def resolver_ok_def)
  next
    case (returned r c entries err healthy w)
    with assms(2) have "resolver_ok lib p r" by (simp add: all_ok_def)
    with returned(2) have "directory_said lib (request_of lib p (v_vars r) (v_job r)) entries err"
      by (simp add: resolver_ok_def)
    from searched_ok [OF job this] returned(1) have "resolver_ok lib p (goes_on (searched p (v_job r) entries err) r)"
      using job by (auto simp: resolver_ok_def goes_on_def split: sum.splits)
    with returned assms(2) show ?thesis by (auto simp: all_ok_def)
  qed (use assms(2) job in \<open>auto simp: all_ok_def\<close>)
qed

lemma step_ok:
  assumes "ldap_step lib p d d'" and "all_ok lib p d"
  shows "all_ok lib p d'"
  using assms(1)
proof cases
  case moved
  with act_ok assms(2) show ?thesis by (auto simp: ldap_moves_iff)
next
  case (comes i ctx vars)
  with assms(2) show ?thesis by (auto simp: all_ok_def resolver_ok_def job_ok_def)
next
  case (gives_up i r e)
  then have "job_ok lib p (v_vars r) (v_job r)" using assms(2) by (auto simp: all_ok_def resolver_ok_def)
  with gives_up assms(2) show ?thesis by (auto simp: all_ok_def)
next
  case (elsewhere w)
  with assms(2) show ?thesis by (simp add: all_ok_def)
qed

lemma reachable_ok:
  assumes "(ldap_step lib p)\<^sup>*\<^sup>* (idle_ldap sz w) d"
  shows "all_ok lib p d"
  using assms by (induction rule: rtranclp_induct) (auto simp: all_ok_def idle_ldap_def intro: step_ok [unfolded all_ok_def, rule_format])

subsection \<open>Progress\<close>

lemma moves_steps: "(ldap_moves lib p)\<^sup>*\<^sup>* d d' \<Longrightarrow> (ldap_step lib p)\<^sup>*\<^sup>* d d'"
  by (induction rule: rtranclp_induct) (auto intro: rtranclp.rtrancl_into_rtrancl moved)

lemma moves_trans: "act lib p i d = Some d1 \<Longrightarrow> (ldap_moves lib p)\<^sup>*\<^sup>* d1 d' \<Longrightarrow> (ldap_moves lib p)\<^sup>*\<^sup>* d d'"
  by (meson acts converse_rtranclp_into_rtranclp)

text \<open>A resolution has come to the end of its search: it wants the next slot, or has ended, and
  the others are where they were.\<close>

definition search_over ::
  "('n, 'b) ldap_provider \<Rightarrow> nat \<Rightarrow> 'n resolver \<Rightarrow> ('n, 'b) shared_ldap \<Rightarrow> ('n, 'b) shared_ldap \<Rightarrow> bool" where
  "search_over p i r d d' \<longleftrightarrow>
     free d' \<noteq> [] \<and>
     (\<exists>r'. resolvers d' = (resolvers d)(i \<mapsto> r') \<and> v_ctx r' = v_ctx r \<and> v_vars r' = v_vars r \<and>
        ((\<exists>x. v_at r' = Ended x) \<or>
         v_at r' = Wants \<and> (\<exists>entries err. searched p (v_job r) entries err = Inl (v_job r'))))"

lemma holder_over:
  assumes "resolvers d i = Some r" and "v_at r = Holds c \<or> (\<exists>entries err. v_at r = Found c entries err)"
  shows "\<exists>d'. (ldap_moves lib p)\<^sup>*\<^sup>* d d' \<and> search_over p i r d d'"
proof -
  have found: "\<exists>d'. (ldap_moves lib p)\<^sup>*\<^sup>* d d' \<and> search_over p i r d d'"
    if "resolvers d i = Some r" and "v_at r = Found c entries err" for d :: "('a, 'b) shared_ldap" and r entries err
  proof -
    from that obtain d' where a: "act lib p i d = Some d'" by (simp add: act_def Let_def)
    with \<open>resolvers d i = Some r\<close> \<open>v_at r = Found c entries err\<close> have "search_over p i r d d'"
      by (cases "searched p (v_job r) entries err")
        (auto simp: act_def search_over_def goes_on_def Let_def
          intro!: exI [of _ "goes_on (searched p (v_job r) entries err) r"])
    with acts [OF a] show ?thesis by blast
  qed
  from assms(2) show ?thesis
  proof
    assume h: "v_at r = Holds c"
    obtain entries err w where s: "search lib (snd c) (request_of lib p (v_vars r) (v_job r)) (ldap_world d) =
        ((entries, err), w)" by (metis surj_pair)
    let ?r = "r\<lparr>v_at := Found c entries err\<rparr>"
    let ?d = "d\<lparr>ldap_world := w, resolvers := (resolvers d)(i \<mapsto> ?r)\<rparr>"
    have a: "act lib p i d = Some ?d" using assms(1) h s by (simp add: act_def)
    obtain d' where "(ldap_moves lib p)\<^sup>*\<^sup>* ?d d'" "search_over p i ?r ?d d'"
      using found [of ?d ?r entries err] by auto
    then show ?thesis using moves_trans [OF a] by (fastforce simp: search_over_def)
  next
    assume "\<exists>entries err. v_at r = Found c entries err"
    with found assms(1) show ?thesis by blast
  qed
qed

lemma borrower_over:
  assumes "resolvers d i = Some r" and "borrowing r \<noteq> None"
  shows "\<exists>d'. (ldap_moves lib p)\<^sup>*\<^sup>* d d' \<and> search_over p i r d d'"
proof (cases "v_at r = Dials")
  case True
  obtain x w where x: "pool_dial p (v_ctx r) (ldap_world d) = (x, w)" by (metis surj_pair)
  show ?thesis
  proof (cases x)
    case (Inl e)
    with acts [of lib p i d] assms(1) True x show ?thesis
      by (auto simp: act_def search_over_def intro!: exI r_into_rtranclp)
  next
    case (Inr c)
    let ?r = "r\<lparr>v_at := Holds (dials d, c)\<rparr>"
    let ?d = "d\<lparr>dials := Suc (dials d), ldap_world := w, resolvers := (resolvers d)(i \<mapsto> ?r)\<rparr>"
    have a: "act lib p i d = Some ?d" using assms(1) True x Inr by (simp add: act_def)
    obtain d' where "(ldap_moves lib p)\<^sup>*\<^sup>* ?d d'" "search_over p i ?r ?d d'"
      using holder_over [of ?d i ?r "(dials d, c)"] by auto
    then show ?thesis using moves_trans [OF a] by (fastforce simp: search_over_def)
  qed
next
  case False
  with assms(2) have "\<exists>c. v_at r = Holds c \<or> (\<exists>entries err. v_at r = Found c entries err)"
    by (auto simp: borrowing_def split: standing.splits)
  with holder_over [OF assms(1)] show ?thesis by blast
qed

lemma waiting_over:
  assumes "resolvers d i = Some r" and "v_at r = Wants" and "free d \<noteq> []"
  shows "\<exists>d'. (ldap_moves lib p)\<^sup>*\<^sup>* d d' \<and> search_over p i r d d'"
proof -
  obtain s rest where s: "free d = s # rest" using assms(3) by (cases "free d") auto
  have "\<exists>d1 r1. act lib p i d = Some d1 \<and> resolvers d1 = (resolvers d)(i \<mapsto> r1) \<and> borrowing r1 \<noteq> None \<and>
      v_ctx r1 = v_ctx r \<and> v_vars r1 = v_vars r \<and> v_job r1 = v_job r"
    using assms(1,2) s by (auto simp: act_def Let_def borrowing_def split: received.split)
  then obtain d1 r1 where d1: "act lib p i d = Some d1" "resolvers d1 = (resolvers d)(i \<mapsto> r1)"
    "borrowing r1 \<noteq> None" "v_ctx r1 = v_ctx r" "v_vars r1 = v_vars r" "v_job r1 = v_job r" by blast
  then obtain d' where "(ldap_moves lib p)\<^sup>*\<^sup>* d1 d'" "search_over p i r1 d1 d'"
    using borrower_over [of d1 i r1] by auto
  with d1 moves_trans [OF d1(1)] show ?thesis by (fastforce simp: search_over_def)
qed

text \<open>When no slot is free, somebody has one and can bring it back.\<close>

lemma slot_comes:
  assumes "pool_inv sz (pool_of d)" and "0 < sz" and "resolvers d i = Some r" and "v_at r = Wants"
  shows "\<exists>d'. (ldap_moves lib p)\<^sup>*\<^sup>* d d' \<and> free d' \<noteq> [] \<and> resolvers d' i = Some r"
proof (cases "free d = []")
  case True
  then have "dom (borrowers_of (resolvers d)) \<noteq> {}"
    using assms(1,2) by (auto simp: pool_inv_def pool_of_def)
  then obtain j b where j: "borrowers_of (resolvers d) j = Some b" by blast
  then obtain r' where r': "resolvers d j = Some r'" "borrowing r' \<noteq> None"
    by (auto simp: borrowers_of_def split: option.splits)
  have "j \<noteq> i" using r' assms(3,4) by auto
  with borrower_over [OF r'] assms(3) show ?thesis by (fastforce simp: search_over_def)
qed (use assms in blast)

lemma pool_inv_moves:
  assumes "(ldap_moves lib p)\<^sup>*\<^sup>* d d'" and "numbered d" and "pool_inv sz (pool_of d)"
  shows "numbered d' \<and> pool_inv sz (pool_of d')"
  using assms(1)
proof (induction rule: rtranclp_induct)
  case (step d1 d2)
  then show ?case using step_pool [OF moved] pool_inv_steps by blast
qed (use assms in simp)

lemma one_search:
  assumes "numbered d" and "pool_inv sz (pool_of d)" and "0 < sz" and "resolvers d i = Some r" and "v_at r = Wants"
  shows "\<exists>d' r'. (ldap_moves lib p)\<^sup>*\<^sup>* d d' \<and> numbered d' \<and> pool_inv sz (pool_of d') \<and> resolvers d' i = Some r' \<and>
    ((\<exists>x. v_at r' = Ended x) \<or>
     v_at r' = Wants \<and> (\<exists>entries err. searched p (v_job r) entries err = Inl (v_job r')))"
proof -
  obtain d1 where d1: "(ldap_moves lib p)\<^sup>*\<^sup>* d d1" "free d1 \<noteq> []" "resolvers d1 i = Some r"
    using slot_comes [OF assms(2-5)] by blast
  then obtain d2 where d2: "(ldap_moves lib p)\<^sup>*\<^sup>* d1 d2" "search_over p i r d1 d2"
    using waiting_over [OF _ assms(5)] by blast
  then have "(ldap_moves lib p)\<^sup>*\<^sup>* d d2" using d1(1) by simp
  moreover from pool_inv_moves [OF this assms(1,2)] have "numbered d2 \<and> pool_inv sz (pool_of d2)" .
  moreover from d2(2) obtain r' where "resolvers d2 = (resolvers d1)(i \<mapsto> r')" "(\<exists>x. v_at r' = Ended x) \<or>
      v_at r' = Wants \<and> (\<exists>entries err. searched p (v_job r) entries err = Inl (v_job r'))"
    unfolding search_over_def by blast
  moreover from this(1) have "resolvers d2 i = Some r'" by simp
  ultimately show ?thesis by blast
qed

lemma searched_account:
  "searched p (Account m ms us gs) entries err = Inl job \<Longrightarrow>
     \<exists>m' ms' us' gs'. ms = m' # ms' \<and> job = Account m' ms' us' gs'"
  by (cases ms) (auto simp: searched_def next_account_def split: option.splits if_splits)

lemma accounts_end:
  assumes "numbered d" and "pool_inv sz (pool_of d)" and "0 < sz" and "resolvers d i = Some r" and "v_at r = Wants"
    and "v_job r = Account m ms us gs"
  shows "\<exists>d' r' x. (ldap_moves lib p)\<^sup>*\<^sup>* d d' \<and> resolvers d' i = Some r' \<and> v_at r' = Ended x"
  using assms
proof (induction ms arbitrary: d r m us gs)
  case Nil
  with one_search [OF Nil(1-5), of lib p] show ?case by (metis searched_account list.distinct(1))
next
  case (Cons m' ms)
  obtain d1 r1 where d1: "(ldap_moves lib p)\<^sup>*\<^sup>* d d1" "numbered d1" "pool_inv sz (pool_of d1)" "resolvers d1 i = Some r1"
    and over: "(\<exists>x. v_at r1 = Ended x) \<or>
      v_at r1 = Wants \<and> (\<exists>entries err. searched p (v_job r) entries err = Inl (v_job r1))"
    using one_search [OF Cons.prems(1-5)] by blast
  from over show ?case
  proof
    assume "v_at r1 = Wants \<and> (\<exists>entries err. searched p (v_job r) entries err = Inl (v_job r1))"
    then obtain us1 gs1 where w: "v_at r1 = Wants" "v_job r1 = Account m' ms us1 gs1"
      using Cons.prems(6) by (metis searched_account list.inject)
    from Cons.IH [OF d1(2,3) Cons.prems(3) d1(4) w] d1(1) show ?case by (meson rtranclp_trans)
  qed (use d1 in blast)
qed

lemma resolution_can_end:
  assumes "numbered d" and "pool_inv sz (pool_of d)" and "0 < sz" and "resolvers d i = Some r"
  shows "\<exists>d' r' x. (ldap_moves lib p)\<^sup>*\<^sup>* d d' \<and> resolvers d' i = Some r' \<and> v_at r' = Ended x"
proof -
  have wants: "\<exists>d' r' x. (ldap_moves lib p)\<^sup>*\<^sup>* d d' \<and> resolvers d' i = Some r' \<and> v_at r' = Ended x"
    if d: "numbered d" "pool_inv sz (pool_of d)" "resolvers d i = Some r" "v_at r = Wants"
    for d :: "('a, 'b) shared_ldap" and r
  proof (cases "v_job r")
    case Users
    obtain d1 r1 where d1: "(ldap_moves lib p)\<^sup>*\<^sup>* d d1" "numbered d1" "pool_inv sz (pool_of d1)" "resolvers d1 i = Some r1"
      and over: "(\<exists>x. v_at r1 = Ended x) \<or>
        v_at r1 = Wants \<and> (\<exists>entries err. searched p (v_job r) entries err = Inl (v_job r1))"
      using one_search [OF d(1,2) assms(3) d(3,4)] by blast
    show ?thesis
    proof (cases "\<exists>x. v_at r1 = Ended x")
      case False
      with over obtain m ms us gs where "v_at r1 = Wants" "v_job r1 = Account m ms us gs"
        by (cases "v_job r1") (auto simp: searched_def next_account_def Users Let_def split: list.splits if_splits)
      from accounts_end [OF d1(2,3) assms(3) d1(4) this] d1(1) show ?thesis by (meson rtranclp_trans)
    qed (use d1 in blast)
  next
    case Account
    from accounts_end [OF d(1,2) assms(3) d(3,4) this] show ?thesis .
  qed
  show ?thesis
  proof (cases "borrowing r = None")
    case True
    with wants [OF assms(1,2,4)] assms(4) show ?thesis
      by (cases "v_at r") (auto simp: borrowing_def)
  next
    case False
    then obtain d1 r1 where d1: "(ldap_moves lib p)\<^sup>*\<^sup>* d d1" "resolvers d1 i = Some r1"
      "(\<exists>x. v_at r1 = Ended x) \<or> v_at r1 = Wants"
      using borrower_over [OF assms(4), of lib p] by (auto simp: search_over_def)
    with wants pool_inv_moves [OF d1(1) assms(1,2)] show ?thesis by (meson rtranclp_trans)
  qed
qed

subsection \<open>One resolution at a time\<close>

definition bare :: "'n numbered slots \<Rightarrow> 'n slots" where
  "bare = map (map_option snd)"

lemma bare_simps [simp]:
  "bare [] = []" "bare (s # ss) = map_option snd s # bare ss" "bare (as @ bs) = bare as @ bare bs"
  "length (bare ss) = length ss"
  by (simp_all add: bare_def)

text \<open>The search of one resolution, its steps taken together, is \<open>pooled_search\<close>.\<close>

definition after_search ::
  "('n, 'b) ldap_provider \<Rightarrow> job \<Rightarrow> (ldap_entry list \<times> search_error option) result \<Rightarrow> job + resolved result" where
  "after_search p job y =
     (case y of Inl e \<Rightarrow> Inr (unacquired job e) | Inr (entries, err) \<Rightarrow> searched p job entries err)"

lemma holder_run:
  assumes "resolvers d i = Some r" and "v_at r = Holds c"
    and "search lib (snd c) (request_of lib p (v_vars r) (v_job r)) (ldap_world d) = ((entries, err), w1)"
    and "pool_put lib (snd c) (connHealthyAfterError err) (bare (free d), w1) = (ss, w2)"
  shows "\<exists>d'. (ldap_moves lib p)\<^sup>*\<^sup>* d d' \<and> bare (free d') = ss \<and> ldap_world d' = w2 \<and>
    resolvers d' = (resolvers d)(i \<mapsto> goes_on (searched p (v_job r) entries err) r)"
proof -
  let ?r = "r\<lparr>v_at := Found c entries err\<rparr>"
  let ?d = "d\<lparr>ldap_world := w1, resolvers := (resolvers d)(i \<mapsto> ?r)\<rparr>"
  have a: "act lib p i d = Some ?d" using assms(1-3) by (simp add: act_def)
  have g: "goes_on y (r\<lparr>v_at := l\<rparr>) = goes_on y r" for y l by (simp add: goes_on_def split: sum.split)
  obtain d' where b: "act lib p i ?d = Some d'" by (simp add: act_def Let_def)
  then have "bare (free d') = ss \<and> ldap_world d' = w2 \<and>
      resolvers d' = (resolvers d)(i \<mapsto> goes_on (searched p (v_job r) entries err) r)"
    using assms(4) by (auto simp: act_def Let_def pool_put_def g split: if_splits)
  moreover have "(ldap_moves lib p)\<^sup>*\<^sup>* ?d d'" using acts [OF b] by (rule r_into_rtranclp)
  ultimately show ?thesis using moves_trans [OF a] by blast
qed

lemma search_run:
  assumes "resolvers d i = Some r" and "v_at r = Wants" and "free d \<noteq> []" and "\<And>w. \<not> select_done lib (v_ctx r) w"
    and "pooled_search lib (pool_dial p) (v_ctx r) (request_of lib p (v_vars r) (v_job r))
      (bare (free d), ldap_world d) = (y, (ss, w'))"
  shows "\<exists>d'. (ldap_moves lib p)\<^sup>*\<^sup>* d d' \<and> bare (free d') = ss \<and> ldap_world d' = w' \<and>
    resolvers d' = (resolvers d)(i \<mapsto> goes_on (after_search p (v_job r) y) r)"
proof -
  obtain s rest where s: "free d = s # rest" using assms(3) by (cases "free d") auto
  let ?w = "ldap_world d"
  have g: "goes_on y (r\<lparr>v_at := l\<rparr>) = goes_on y r" for y l by (simp add: goes_on_def split: sum.split)
  have held: "\<exists>d'. (ldap_moves lib p)\<^sup>*\<^sup>* d d' \<and> bare (free d') = ss \<and> ldap_world d' = w' \<and>
      resolvers d' = (resolvers d)(i \<mapsto> goes_on (after_search p (v_job r) y) r)"
    if run: "(ldap_moves lib p)\<^sup>*\<^sup>* d d1" "resolvers d1 = (resolvers d)(i \<mapsto> r\<lparr>v_at := Holds c\<rparr>)" "free d1 = rest"
      and got: "pool_get lib (pool_dial p) (v_ctx r) (bare (free d), ?w) = (Inr (snd c), (bare rest, ldap_world d1))"
    for d1 c
  proof -
    obtain entries err w1 where q: "search lib (snd c) (request_of lib p (v_vars r) (v_job r)) (ldap_world d1) =
        ((entries, err), w1)" by (metis surj_pair)
    with assms(5) got have y: "y = Inr (entries, err)"
      "pool_put lib (snd c) (connHealthyAfterError err) (bare (free d1), w1) = (ss, w')"
      by (auto simp: pooled_search_def run(3))
    obtain d' where "(ldap_moves lib p)\<^sup>*\<^sup>* d1 d'" "bare (free d') = ss" "ldap_world d' = w'"
      "resolvers d' = (resolvers d1)(i \<mapsto> goes_on (searched p (v_job r) entries err) (r\<lparr>v_at := Holds c\<rparr>))"
      using holder_run [of d1 i "r\<lparr>v_at := Holds c\<rparr>" c lib p entries err w1 ss w'] run(2) q y(2) by auto
    with run y(1) show ?thesis by (auto simp: after_search_def g intro!: exI [of _ d'])
  qed
  show ?thesis
  proof (cases "inspect (\<lambda>c. is_closing lib c ?w) (map_option snd s)")
    case (Live c0)
    then obtain c where c: "s = Some c" "c0 = snd c" by (auto dest: inspect_Live)
    let ?d = "d\<lparr>free := rest, resolvers := (resolvers d)(i \<mapsto> r\<lparr>v_at := Holds c\<rparr>)\<rparr>"
    have "act lib p i d = Some ?d"
      using assms(1,2) s Live c by (simp add: act_def inspect_def split: if_splits)
    then show ?thesis
      using assms(4) s Live c by (intro held [of ?d c]) (auto simp: pool_get_def intro: acts)
  next
    case (Redial old)
    define w0 where "w0 = (case s of None \<Rightarrow> ?w | Some c \<Rightarrow> close_conn lib (snd c) ?w)"
    have old: "(case old of None \<Rightarrow> ?w | Some c \<Rightarrow> close_conn lib c ?w) = w0"
      using Redial by (cases s) (auto simp: w0_def inspect_def split: if_splits)
    let ?r = "r\<lparr>v_at := Dials\<rparr>"
    let ?d = "d\<lparr>free := rest, resolvers := (resolvers d)(i \<mapsto> ?r), ldap_world := w0\<rparr>"
    have a: "act lib p i d = Some ?d"
      using assms(1,2) s Redial by (cases s) (simp_all add: act_def inspect_def w0_def split: if_splits)
    obtain x w1 where x: "pool_dial p (v_ctx r) w0 = (x, w1)" by (metis surj_pair)
    show ?thesis
    proof (cases x)
      case (Inl e)
      let ?e = "?d\<lparr>free := rest @ [None], ldap_world := w1,
        resolvers := (resolvers d)(i \<mapsto> r\<lparr>v_at := Ended (unacquired (v_job r) e)\<rparr>)\<rparr>"
      have "act lib p i ?d = Some ?e" using x Inl by (simp add: act_def)
      then have "(ldap_moves lib p)\<^sup>*\<^sup>* d ?e" using moves_trans [OF a] acts by blast
      moreover have "y = Inl e" "ss = bare (rest @ [None])" "w' = w1"
        using assms(4,5) s Redial x Inl old by (auto simp: pooled_search_def pool_get_def)
      ultimately show ?thesis by (intro exI [of _ ?e]) (simp add: after_search_def goes_on_def)
    next
      case (Inr c)
      let ?e = "?d\<lparr>dials := Suc (dials d), ldap_world := w1,
        resolvers := (resolvers d)(i \<mapsto> r\<lparr>v_at := Holds (dials d, c)\<rparr>)\<rparr>"
      have "act lib p i ?d = Some ?e" using x Inr by (simp add: act_def)
      then have "(ldap_moves lib p)\<^sup>*\<^sup>* d ?e" using moves_trans [OF a] acts by blast
      then show ?thesis
        using assms(4) s Redial x Inr old by (intro held [of ?e "(dials d, c)"]) (auto simp: pool_get_def)
    qed
  qed
qed

lemma after_groups:
  assumes "pooled_search lib dial ctx (group_request lib (groupSearch p) dn) st = (y, st1)"
  shows "\<exists>z. resolveGroups lib dial ctx (groupSearch p) dn st = (z, st1) \<and>
    after_search p (Account (u, dn) rest us gs) y =
      (case z of Inl e \<Rightarrow> Inr (Inl (''ldap: resolving groups: '' @ e))
       | Inr new \<Rightarrow> next_account rest (us @ [u]) (add_groups gs new))"
  using assms
  by (auto simp: resolveGroups_def after_search_def searched_def unacquired_def split: sum.split option.split)

lemma accounts_run:
  assumes "resolvers d i = Some r" and "v_at r = Wants" and "v_job r = Account m ms us gs" and "free d \<noteq> []"
    and "\<And>w. \<not> select_done lib (v_ctx r) w"
    and "resolve_accounts lib p (v_ctx r) (m # ms) (us, gs) (bare (free d), ldap_world d) = (y, (ss, w'))"
  shows "\<exists>d' r'. (ldap_moves lib p)\<^sup>*\<^sup>* d d' \<and> bare (free d') = ss \<and> ldap_world d' = w' \<and>
    resolvers d' = (resolvers d)(i \<mapsto> r') \<and>
    v_at r' = Ended (case y of Inl e \<Rightarrow> Inl e | Inr (us', gs') \<Rightarrow> Inr [(''USER'', us'), (''GROUP'', gs')])"
  using assms
proof (induction ms arbitrary: d r m us gs)
  case (Nil d r m us gs)
  obtain u dn where m: "m = (u, dn)" by fastforce
  have req: "request_of lib p (v_vars r) (v_job r) = group_request lib (groupSearch p) dn"
    by (simp add: request_of_def Nil.prems(3) m)
  obtain y1 ss1 w1 where s: "pooled_search lib (pool_dial p) (v_ctx r) (request_of lib p (v_vars r) (v_job r))
      (bare (free d), ldap_world d) = (y1, (ss1, w1))" by (metis surj_pair)
  obtain z where z: "resolveGroups lib (pool_dial p) (v_ctx r) (groupSearch p) dn (bare (free d), ldap_world d) = (z, (ss1, w1))"
    "after_search p (Account (u, dn) [] us gs) y1 =
      (case z of Inl e \<Rightarrow> Inr (Inl (''ldap: resolving groups: '' @ e))
       | Inr new \<Rightarrow> next_account [] (us @ [u]) (add_groups gs new))"
    using after_groups [OF s [unfolded req]] by blast
  obtain d1 where d1: "(ldap_moves lib p)\<^sup>*\<^sup>* d d1" "bare (free d1) = ss1" "ldap_world d1 = w1"
    "resolvers d1 = (resolvers d)(i \<mapsto> goes_on (after_search p (v_job r) y1) r)"
    using search_run [OF Nil.prems(1,2,4,5) s] by blast
  have "ss1 = ss \<and> w1 = w'" using Nil.prems(6) z(1) m by (auto split: sum.splits)
  moreover have "v_at (goes_on (after_search p (v_job r) y1) r) =
      Ended (case y of Inl e \<Rightarrow> Inl e | Inr (us', gs') \<Rightarrow> Inr [(''USER'', us'), (''GROUP'', gs')])"
    using Nil.prems(3,6) z m by (cases z) (auto simp: goes_on_def next_account_def)
  ultimately show ?case using d1 by blast
next
  case (Cons m' ms d r m us gs)
  obtain u dn where m: "m = (u, dn)" by fastforce
  have req: "request_of lib p (v_vars r) (v_job r) = group_request lib (groupSearch p) dn"
    by (simp add: request_of_def Cons.prems(3) m)
  obtain y1 ss1 w1 where s: "pooled_search lib (pool_dial p) (v_ctx r) (request_of lib p (v_vars r) (v_job r))
      (bare (free d), ldap_world d) = (y1, (ss1, w1))" by (metis surj_pair)
  obtain z where z: "resolveGroups lib (pool_dial p) (v_ctx r) (groupSearch p) dn (bare (free d), ldap_world d) = (z, (ss1, w1))"
    "after_search p (Account (u, dn) (m' # ms) us gs) y1 =
      (case z of Inl e \<Rightarrow> Inr (Inl (''ldap: resolving groups: '' @ e))
       | Inr new \<Rightarrow> next_account (m' # ms) (us @ [u]) (add_groups gs new))"
    using after_groups [OF s [unfolded req]] by blast
  obtain d1 where d1: "(ldap_moves lib p)\<^sup>*\<^sup>* d d1" "bare (free d1) = ss1" "ldap_world d1 = w1"
    "resolvers d1 = (resolvers d)(i \<mapsto> goes_on (after_search p (v_job r) y1) r)"
    using search_run [OF Cons.prems(1,2,4,5) s] by blast
  show ?case
  proof (cases z)
    case (Inl e)
    with Cons.prems(6) z(1) m have "y = Inl (''ldap: resolving groups: '' @ e)" "ss1 = ss" "w1 = w'" by auto
    moreover have "v_at (goes_on (after_search p (v_job r) y1) r) = Ended (Inl (''ldap: resolving groups: '' @ e))"
      using Cons.prems(3) z(2) m Inl by (simp add: goes_on_def)
    ultimately show ?thesis using d1 by (intro exI [of _ d1]) auto
  next
    case (Inr new)
    let ?r = "goes_on (after_search p (v_job r) y1) r"
    have r: "?r = r\<lparr>v_job := Account m' ms (us @ [u]) (add_groups gs new), v_at := Wants\<rparr>"
      using Cons.prems(3) z(2) m Inr by (simp add: goes_on_def next_account_def)
    have "length ss1 = length (free d)" using resolveGroups_result [OF z(1)] by simp
    then have f: "free d1 \<noteq> []" using d1(2) Cons.prems(4) by auto
    have at: "resolvers d1 i = Some ?r" "v_at ?r = Wants" "v_job ?r = Account m' ms (us @ [u]) (add_groups gs new)"
      by (simp_all add: d1(4) r)
    have none: "\<not> select_done lib (v_ctx ?r) w" for w using Cons.prems(5) by (simp add: r)
    have "resolve_accounts lib p (v_ctx ?r) (m' # ms) (us @ [u], add_groups gs new) (bare (free d1), ldap_world d1) =
        (y, (ss, w'))"
      using Cons.prems(6) z(1) m Inr d1(2,3) by (simp add: r)
    from Cons.IH [OF at f none this] obtain d2 r2 where "(ldap_moves lib p)\<^sup>*\<^sup>* d1 d2" "bare (free d2) = ss" "ldap_world d2 = w'"
      "resolvers d2 = (resolvers d1)(i \<mapsto> r2)"
      "v_at r2 = Ended (case y of Inl e \<Rightarrow> Inl e | Inr (us', gs') \<Rightarrow> Inr [(''USER'', us'), (''GROUP'', gs')])"
      by blast
    with d1(1,4) show ?thesis by (metis fun_upd_upd rtranclp_trans)
  qed
qed

subsection \<open>Two resolutions on the toy directory\<close>

text \<open>Moves of one resolution, as many as it can make up to \<open>n\<close>.\<close>

fun act_times ::
  "('n, 'b) ldap_lib \<Rightarrow> ('n, 'b) ldap_provider \<Rightarrow> nat \<Rightarrow> nat \<Rightarrow> ('n, 'b) shared_ldap \<Rightarrow> ('n, 'b) shared_ldap" where
  "act_times lib p i 0 d = d"
| "act_times lib p i (Suc n) d = (case act lib p i d of None \<Rightarrow> d | Some d' \<Rightarrow> act_times lib p i n d')"

lemma act_times_moves: "(ldap_moves lib p)\<^sup>*\<^sup>* d (act_times lib p i n d)"
proof (induction n arbitrary: d)
  case (Suc n)
  then show ?case by (auto intro: moves_trans split: option.split)
qed simp

definition toy_resolver :: "nat resolver" where
  "toy_resolver = \<lparr>v_ctx = background, v_vars = toy_vars, v_job = Users, v_at = Wants\<rparr>"

definition two_resolvers :: "nat \<Rightarrow> (nat, unit) shared_ldap" where
  "two_resolvers sz =
     \<lparr>free = newPool sz, dials = 0, ldap_world = toy_world,
      resolvers = (Map.empty(0 \<mapsto> toy_resolver))(1 \<mapsto> toy_resolver)\<rparr>"

lemma two_resolvers_reachable:
  "(ldap_step toy_lib toy_provider)\<^sup>*\<^sup>* (idle_ldap sz toy_world) (act_times toy_lib toy_provider i n (two_resolvers sz))"
proof -
  let ?one = "(idle_ldap sz toy_world)\<lparr>resolvers := [0 \<mapsto> toy_resolver]\<rparr> :: (nat, unit) shared_ldap"
  have "ldap_step toy_lib toy_provider (idle_ldap sz toy_world) ?one"
    using comes [of "idle_ldap sz toy_world" 0] by (simp add: idle_ldap_def toy_resolver_def)
  moreover have "ldap_step toy_lib toy_provider ?one (two_resolvers sz)"
    using comes [of ?one 1 toy_lib toy_provider background toy_vars]
    by (simp add: idle_ldap_def toy_resolver_def two_resolvers_def)
  ultimately have "(ldap_step toy_lib toy_provider)\<^sup>*\<^sup>* (idle_ldap sz toy_world) (two_resolvers sz)"
    by (meson rtranclp.rtrancl_into_rtrancl rtranclp.rtrancl_refl)
  then show ?thesis using moves_steps [OF act_times_moves] by (rule rtranclp_trans)
qed

definition outcome_of :: "'n resolver \<Rightarrow> resolved result option" where
  "outcome_of r = (case v_at r of Ended x \<Rightarrow> Some x | _ \<Rightarrow> None)"

lemma outcome_of_Some [simp]: "outcome_of r = Some x \<longleftrightarrow> v_at r = Ended x"
  by (simp add: outcome_of_def split: standing.split)

text \<open>The only slot is taken by the first, the second waits.\<close>

lemma slot_taken:
  "free (act_times toy_lib toy_provider 0 2 (two_resolvers 1)) = []"
  "map_option v_vars (resolvers (act_times toy_lib toy_provider 0 2 (two_resolvers 1)) 1) = Some toy_vars"
  by code_simp+

lemma first_ended:
  "map_option (\<lambda>r. (v_vars r, outcome_of r)) (resolvers (act_times toy_lib toy_provider 0 7 (two_resolvers 1)) 0) =
     Some (toy_vars, Some (Inr [(''USER'', [''al'']), (''GROUP'', [''dev'', ''ops''])]))"
  by code_simp

section \<open>Resolutions at the same time\<close>

text \<open>C28. What the resolutions do with the pool, under any interleaving, is what its step relation
  allows; so there are never more connections than slots, no two resolutions search on the same
  connection at the same time, and when all have ended, however they ended, every slot is back.\<close>

theorem resolutions_share_pool:
  assumes "(ldap_step lib p)\<^sup>*\<^sup>* (idle_ldap sz w) d"
  shows "pool_step\<^sup>*\<^sup>* (new_pool_state sz) (pool_of d) \<and>
    card (held (pool_of d) \<union> pooled (pool_of d)) \<le> sz \<and>
    (\<forall>i j r s c. resolvers d i = Some r \<longrightarrow> resolvers d j = Some s \<longrightarrow> v_at r = Holds c \<longrightarrow> v_at s = Holds c \<longrightarrow> i = j) \<and>
    ((\<forall>i r. resolvers d i = Some r \<longrightarrow> (\<exists>x. v_at r = Ended x)) \<longrightarrow> length (free d) = sz)"
proof (intro conjI impI allI)
  have steps: "pool_step\<^sup>*\<^sup>* (new_pool_state sz) (pool_of d)" using reachable_pool [OF assms] by blast
  then have inv: "pool_inv sz (pool_of d)" by (rule pool_inv_reachable)
  show "pool_step\<^sup>*\<^sup>* (new_pool_state sz) (pool_of d)" by (rule steps)
  show "card (held (pool_of d) \<union> pooled (pool_of d)) \<le> sz" by (rule pool_inv_card [OF inv])
  fix i j r s c
  assume "resolvers d i = Some r" "resolvers d j = Some s" "v_at r = Holds c" "v_at s = Holds c"
  then have "borrowers (pool_of d) i = Some (Holding c)" "borrowers (pool_of d) j = Some (Holding c)"
    by (simp_all add: pool_of_def borrowers_of_at)
  with inv show "i = j" unfolding pool_inv_def by blast
next
  assume "\<forall>i r. resolvers d i = Some r \<longrightarrow> (\<exists>x. v_at r = Ended x)"
  then have "borrowers (pool_of d) = Map.empty"
    by (fastforce simp: pool_of_def borrowers_of_def fun_eq_iff split: option.split)
  with reachable_pool_inv [OF assms] show "length (free d) = sz" by (simp add: pool_inv_def pool_of_def)
qed

lemma resolutions_share_pool_witness:
  "card (held (pool_of (act_times toy_lib toy_provider 0 2 (two_resolvers 1))) \<union>
     pooled (pool_of (act_times toy_lib toy_provider 0 2 (two_resolvers 1)))) \<le> 1"
  using resolutions_share_pool [OF two_resolvers_reachable [of 1 0 2]] by blast

text \<open>C29. Resolutions do not deadlock over the slots: a pool of any positive size serves any number
  of them, as none waits for a slot while it has one. From every reachable state each can come
  to its end by the moves of those there are, no context having to be done for it.\<close>

theorem every_resolution_ends:
  assumes "(ldap_step lib p)\<^sup>*\<^sup>* (idle_ldap sz w) d" and "0 < sz" and "resolvers d i = Some r"
  shows "\<exists>d' r' x. (ldap_moves lib p)\<^sup>*\<^sup>* d d' \<and> resolvers d' i = Some r' \<and> v_at r' = Ended x"
  using resolution_can_end [OF _ reachable_pool_inv [OF assms(1)] assms(2,3)] reachable_pool [OF assms(1)] by blast

lemma every_resolution_ends_witness:
  "\<exists>d r x. (ldap_moves toy_lib toy_provider)\<^sup>*\<^sup>* (act_times toy_lib toy_provider 0 2 (two_resolvers 1)) d \<and>
     resolvers d 1 = Some r \<and> v_at r = Ended x"
proof -
  obtain r where "resolvers (act_times toy_lib toy_provider 0 2 (two_resolvers 1)) 1 = Some r"
    using slot_taken(2) by auto
  from every_resolution_ends [OF two_resolvers_reachable _ this] show ?thesis by simp
qed

text \<open>C25. What a resolution returns, whatever runs beside it and whatever the directory does in
  between: nothing, or, for the accounts the directory answered to the one user search (with
  the identity's DN reversed and escaped), their attribute values in order as \<open>$USER\<close>, and as
  \<open>$GROUP\<close> the deduplicated attribute values of the answers to one group search per account, no
  answer failed or missing among them, and nobody else's answer.\<close>

theorem shared_values:
  assumes "(ldap_step lib p)\<^sup>*\<^sup>* (idle_ldap sz w) d" and "resolvers d i = Some r" and "v_at r = Ended (Inr m)"
  shows "m = [] \<or>
    (\<exists>entries gss.
       directory_said lib (user_request (userSearch p) (escaped_identity lib (v_vars r))) entries None \<and>
       user_matches (userSearch p) entries \<noteq> [] \<and>
       list_all2 (account_groups lib (groupSearch p)) (user_matches (userSearch p) entries) gss \<and>
       m = [(''USER'', map fst (user_matches (userSearch p) entries)),
            (''GROUP'', dedup_onto [] (concat gss))])"
proof -
  have "resolver_ok lib p r" using reachable_ok [OF assms(1)] assms(2) by (simp add: all_ok_def)
  with assms(3) have "result_ok lib p (v_vars r) m" by (simp add: resolver_ok_def)
  then show ?thesis unfolding result_ok_def answers_of_def by (metis order_refl take_all)
qed

lemma shared_values_witness:
  "\<exists>entries. directory_said toy_lib (user_request (userSearch toy_provider) (escaped_identity toy_lib toy_vars)) entries None \<and>
     map fst (user_matches (userSearch toy_provider) entries) = [''al'']"
proof -
  obtain r where r: "resolvers (act_times toy_lib toy_provider 0 7 (two_resolvers 1)) 0 = Some r"
    "v_vars r = toy_vars" "v_at r = Ended (Inr [(''USER'', [''al'']), (''GROUP'', [''dev'', ''ops''])])"
    using first_ended by auto
  from shared_values [OF two_resolvers_reachable r(1,3)] r(2) show ?thesis by auto
qed

text \<open>C30. \<open>Provider.Resolve\<close> in one step is a refinement away: a resolution that begins when a slot is
  free, and whose steps come together while its context is not done, ends with what
  \<open>ldap_Resolve\<close> returns, and leaves pool and world as it does.\<close>

theorem resolution_in_one_step:
  assumes "resolvers d i = Some r" and "v_at r = Wants" and "v_job r = Users" and "free d \<noteq> []"
    and "\<forall>w. \<not> select_done lib (v_ctx r) w"
    and "ldap_Resolve lib p (v_ctx r) (v_vars r) (bare (free d), ldap_world d) = (x, (ss, w'))"
  shows "\<exists>d' r'. (ldap_moves lib p)\<^sup>*\<^sup>* d d' \<and> resolvers d' = (resolvers d)(i \<mapsto> r') \<and> v_at r' = Ended x \<and>
    bare (free d') = ss \<and> ldap_world d' = w'"
proof -
  let ?st = "(bare (free d), ldap_world d)"
  have req: "request_of lib p (v_vars r) (v_job r) = user_request (userSearch p) (escaped_identity lib (v_vars r))"
    by (simp add: request_of_def assms(3))
  obtain y ss1 w1 where s: "pooled_search lib (pool_dial p) (v_ctx r)
      (user_request (userSearch p) (escaped_identity lib (v_vars r))) ?st = (y, (ss1, w1))" by (metis surj_pair)
  obtain d1 where d1: "(ldap_moves lib p)\<^sup>*\<^sup>* d d1" "bare (free d1) = ss1" "ldap_world d1 = w1"
    "resolvers d1 = (resolvers d)(i \<mapsto> goes_on (after_search p (v_job r) y) r)"
    using search_run [OF assms(1,2,4) _ s [folded req]] assms(5) by blast
  let ?r = "goes_on (after_search p (v_job r) y) r"
  show ?thesis
  proof (cases "\<exists>m ms. after_search p (v_job r) y = Inl (Account m ms [] [])")
    case False
    with assms(3,6) s have "v_at ?r = Ended x \<and> ss1 = ss \<and> w1 = w'"
      by (cases y) (auto simp: ldap_Resolve_def resolveUser_def after_search_def searched_def unacquired_def
          goes_on_def next_account_def Let_def split: option.splits list.splits if_splits)
    with d1 show ?thesis by blast
  next
    case True
    then obtain m ms where m: "after_search p (v_job r) y = Inl (Account m ms [] [])" by blast
    then have r: "v_at ?r = Wants" "v_job ?r = Account m ms [] []" "v_ctx ?r = v_ctx r"
      by (simp_all add: goes_on_def)
    obtain entries where y: "y = Inr (entries, None)" "user_matches (userSearch p) entries = m # ms"
      using m assms(3)
      by (auto simp: after_search_def searched_def next_account_def Let_def split: sum.splits list.splits if_splits)
    obtain z ss2 w2 where z: "resolve_accounts lib p (v_ctx r) (m # ms) ([], []) (ss1, w1) = (z, (ss2, w2))"
      by (metis surj_pair)
    have x: "x = (case z of Inl e \<Rightarrow> Inl e | Inr (us, gs) \<Rightarrow> Inr [(''USER'', us), (''GROUP'', gs)])" "ss2 = ss" "w2 = w'"
      using assms(6) s z y by (auto simp: ldap_Resolve_def resolveUser_def Let_def split: sum.splits)
    have "length ss1 = length (free d)" using pooled_search_result [OF s] by simp
    then have f: "free d1 \<noteq> []" using d1(2) assms(4) by auto
    have at: "resolvers d1 i = Some ?r" by (simp add: d1(4))
    have none: "\<not> select_done lib (v_ctx ?r) w" for w using assms(5) by (simp add: r)
    have run: "resolve_accounts lib p (v_ctx ?r) (m # ms) ([], []) (bare (free d1), ldap_world d1) = (z, (ss, w'))"
      using z x(2,3) d1(2,3) by (simp add: r)
    obtain d2 r2 where "(ldap_moves lib p)\<^sup>*\<^sup>* d1 d2" "bare (free d2) = ss" "ldap_world d2 = w'"
      "resolvers d2 = (resolvers d1)(i \<mapsto> r2)" "v_at r2 = Ended x"
      using accounts_run [OF at r(1,2) f none run] unfolding x by blast
    with d1(1,4) show ?thesis by (metis fun_upd_upd rtranclp_trans)
  qed
qed

lemma resolution_in_one_step_witness:
  "\<exists>d r. (ldap_moves toy_lib toy_provider)\<^sup>*\<^sup>* (two_resolvers 8) d \<and> resolvers d 1 = Some r \<and>
     v_at r = Ended (Inr [(''USER'', [''al'']), (''GROUP'', [''dev'', ''ops''])])"
proof -
  have r: "resolvers (two_resolvers 8) 1 = Some toy_resolver" "v_at toy_resolver = Wants" "v_job toy_resolver = Users"
    "free (two_resolvers 8) \<noteq> []" "v_ctx toy_resolver = background" "v_vars toy_resolver = toy_vars"
    "bare (free (two_resolvers 8)) = newPool 8" "ldap_world (two_resolvers 8) = toy_world"
    by (simp_all add: two_resolvers_def toy_resolver_def newPool_def bare_def)
  obtain ss w' where x: "ldap_Resolve toy_lib toy_provider background toy_vars (newPool 8, toy_world) =
      (Inr [(''USER'', [''al'']), (''GROUP'', [''dev'', ''ops''])], (ss, w'))"
    using toy_resolve by (metis prod.collapse)
  have none: "\<forall>w. \<not> select_done toy_lib (v_ctx toy_resolver) w" by (simp add: toy_lib_def)
  have "ldap_Resolve toy_lib toy_provider (v_ctx toy_resolver) (v_vars toy_resolver)
      (bare (free (two_resolvers 8)), ldap_world (two_resolvers 8)) =
      (Inr [(''USER'', [''al'']), (''GROUP'', [''dev'', ''ops''])], (ss, w'))"
    by (simp only: r x)
  from resolution_in_one_step [OF r(1-4) none this] show ?thesis by auto
qed

end
