(* ===== verification/Server_Life.thy ===== *)
theory Server_Life
  imports Server
begin

text \<open>
  The life of a server (\<open>Start\<close> and \<open>Shutdown\<close>, \<open>internal/server/server.go\<close>): any number of
  calls of \<open>Start\<close>, cut between the swap of \<open>started\<close> and the listening; the goroutine that
  serves and reports its end on a channel of capacity one; and the shutdown. What \<open>Serve\<close> of
  net/http returns is the choice of the step, within its documentation: always an error,
  and \<open>ErrServerClosed\<close> only once the server is shut down.
\<close>

subsection \<open>States\<close>

datatype start_call = Called | Won | Returned "go_error option"

datatype serve_error = ErrServerClosed | ServeError go_error

text \<open>\<open>sent\<close> is what was sent on the channel, \<open>running\<close> whether the goroutine is in \<open>Serve\<close>,
  \<open>inShutdown\<close> the flag of \<open>http.Server\<close>.\<close>

record ('x, 'b, 'k) life =
  the_server :: "('x, 'b, 'k) server"
  start_calls :: "nat \<rightharpoonup> start_call"
  running :: bool
  inShutdown :: bool
  sent :: "go_error option list"

definition begun :: "('x, 'b, 'k) server \<Rightarrow> ('x, 'b, 'k) life" where
  "begun s = \<lparr>the_server = s, start_calls = Map.empty, running = False, inShutdown = False, sent = []\<rparr>"

subsection \<open>Steps\<close>

text \<open>\<open>CompareAndSwap\<close>, and what follows it.\<close>

definition start_swap :: "nat \<Rightarrow> ('x, 'b, 'k) life \<Rightarrow> ('x, 'b, 'k) life" where
  "start_swap i l =
     (if started (the_server l)
      then l\<lparr>start_calls := (start_calls l)(i \<mapsto> Returned (Some ''server: Start called more than once''))\<rparr>
      else l\<lparr>start_calls := (start_calls l)(i \<mapsto> Won), the_server := (the_server l)\<lparr>started := True\<rparr>\<rparr>)"

definition start_listen :: "(string \<Rightarrow> string result) \<Rightarrow> nat \<Rightarrow> ('x, 'b, 'k) life \<Rightarrow> ('x, 'b, 'k) life" where
  "start_listen listen i l =
     (let s = the_server l
      in case listen (addr s) of
           Inl e \<Rightarrow>
             l\<lparr>start_calls := (start_calls l)(i \<mapsto>
               Returned (Some (''server: listening on '' @ addr s @ '': '' @ e)))\<rparr>
         | Inr ln \<Rightarrow>
             l\<lparr>start_calls := (start_calls l)(i \<mapsto> Returned None), the_server := s\<lparr>listener := Some ln\<rparr>,
               running := True\<rparr>)"

text \<open>The goroutine once \<open>Serve\<close> or \<open>ServeTLS\<close> has returned.\<close>

definition serve_ended :: "serve_error \<Rightarrow> ('x, 'b, 'k) life \<Rightarrow> ('x, 'b, 'k) life" where
  "serve_ended serveErr l =
     l\<lparr>running := False,
       sent := sent l @ [case serveErr of ErrServerClosed \<Rightarrow> None | ServeError e \<Rightarrow> Some e]\<rparr>"

definition shut_down :: "('x, 'b, 'k) life \<Rightarrow> ('x, 'b, 'k) life" where
  "shut_down l = l\<lparr>inShutdown := True\<rparr>"

text \<open>\<open>elsewhere\<close>: requests and reloads change the server's states and certificate.\<close>

inductive life_step :: "('x, 'b, 'k) life \<Rightarrow> ('x, 'b, 'k) life \<Rightarrow> bool" where
  calls_start: "start_calls l i = None \<Longrightarrow> life_step l (l\<lparr>start_calls := (start_calls l)(i \<mapsto> Called)\<rparr>)"
| swaps: "start_calls l i = Some Called \<Longrightarrow> life_step l (start_swap i l)"
| listens: "start_calls l i = Some Won \<Longrightarrow> life_step l (start_listen listen i l)"
| serve_returns: "running l \<Longrightarrow> serveErr = ErrServerClosed \<longrightarrow> inShutdown l \<Longrightarrow> life_step l (serve_ended serveErr l)"
| shuts_down: "life_step l (shut_down l)"
| elsewhere: "started s' = started (the_server l) \<Longrightarrow> listener s' = listener (the_server l) \<Longrightarrow>
     addr s' = addr (the_server l) \<Longrightarrow> life_step l (l\<lparr>the_server := s'\<rparr>)"

inductive_cases life_stepE: "life_step l l'"

text \<open>A call of \<open>Start\<close> that is alone is the function \<open>Start\<close>.\<close>

lemma start_alone:
  assumes "start_calls l i = Some Called" and "Start listen (the_server l) = (r, s)"
  shows "\<exists>l'. life_step\<^sup>*\<^sup>* l l' \<and> the_server l' = s \<and> start_calls l' = (start_calls l)(i \<mapsto> Returned r) \<and>
    running l' = (running l \<or> r = None)"
proof (cases "started (the_server l)")
  case True
  with assms swaps [OF assms(1)] show ?thesis
    by (intro exI [of _ "start_swap i l"]) (auto simp: Start_def start_swap_def)
next
  case False
  let ?m = "start_swap i l"
  have m: "start_calls ?m i = Some Won" "the_server ?m = (the_server l)\<lparr>started := True\<rparr>"
    using False by (simp_all add: start_swap_def)
  have "life_step\<^sup>*\<^sup>* l (start_listen listen i ?m)"
    using swaps [OF assms(1)] listens [OF m(1), of listen] by (meson rtranclp.rtrancl_into_rtrancl rtranclp.rtrancl_refl)
  moreover have "the_server (start_listen listen i ?m) = s \<and>
      start_calls (start_listen listen i ?m) = (start_calls l)(i \<mapsto> Returned r) \<and>
      running (start_listen listen i ?m) = (running l \<or> r = None)"
    using assms(2) False
    by (auto simp: Start_def start_listen_def start_swap_def Let_def split: sum.splits)
  ultimately show ?thesis by blast
qed

subsection \<open>The invariant\<close>

text \<open>The one call that got past the swap.\<close>

definition past_swap :: "start_call \<Rightarrow> bool" where
  "past_swap c \<longleftrightarrow> c = Won \<or> c = Returned None"

text \<open>Has a call succeeded.\<close>

definition is_up :: "(nat \<rightharpoonup> start_call) \<Rightarrow> bool" where
  "is_up m \<longleftrightarrow> (\<exists>i. m i = Some (Returned None))"

lemma is_up_upd: "m i \<noteq> Some (Returned None) \<Longrightarrow> is_up (m(i \<mapsto> c)) \<longleftrightarrow> c = Returned None \<or> is_up m"
  unfolding is_up_def by (metis fun_upd_apply option.inject)

definition life_inv :: "('x, 'b, 'k) life \<Rightarrow> bool" where
  "life_inv l \<longleftrightarrow>
     (\<forall>i c. start_calls l i = Some c \<longrightarrow> past_swap c \<longrightarrow> started (the_server l)) \<and>
     (\<forall>i j c d. start_calls l i = Some c \<longrightarrow> start_calls l j = Some d \<longrightarrow> past_swap c \<longrightarrow> past_swap d \<longrightarrow> i = j) \<and>
     (is_up (start_calls l) \<longleftrightarrow> running l \<or> sent l \<noteq> []) \<and>
     (is_up (start_calls l) \<longleftrightarrow> listener (the_server l) \<noteq> None) \<and>
     length (sent l) \<le> 1 \<and> (running l \<longrightarrow> sent l = []) \<and> (None \<in> set (sent l) \<longrightarrow> inShutdown l)"

lemma life_inv_begun: "listener s = None \<Longrightarrow> life_inv (begun s)"
  by (simp add: life_inv_def begun_def is_up_def)

lemma life_inv_step:
  assumes "life_step l l'" and "life_inv l"
  shows "life_inv l'"
  using assms(1)
proof cases
  case (calls_start i)
  with assms(2) show ?thesis by (auto simp: life_inv_def past_swap_def is_up_upd)
next
  case (swaps i)
  with assms(2) show ?thesis
    by (auto simp: life_inv_def past_swap_def start_swap_def is_up_upd split: if_splits)
next
  case (listens i listen)
  have "start_calls l j \<noteq> Some (Returned None)" for j
  proof
    assume "start_calls l j = Some (Returned None)"
    moreover from this have "j = i" using assms(2) listens(2) unfolding life_inv_def past_swap_def by blast
    ultimately show False using listens(2) by simp
  qed
  then have "\<not> is_up (start_calls l)" by (simp add: is_up_def)
  with assms(2) listens show ?thesis
    by (auto simp: life_inv_def past_swap_def start_listen_def Let_def is_up_upd split: sum.splits if_splits)
next
  case (serve_returns serveErr)
  with assms(2) show ?thesis
    by (auto simp: life_inv_def serve_ended_def split: serve_error.splits)
next
  case shuts_down
  with assms(2) show ?thesis by (auto simp: life_inv_def shut_down_def)
next
  case (elsewhere s')
  with assms(2) show ?thesis by (auto simp: life_inv_def)
qed

lemma life_inv_reachable:
  assumes "life_step\<^sup>*\<^sup>* (begun s) l" and "listener s = None"
  shows "life_inv l"
  using assms(1) by (induction rule: rtranclp_induct) (auto intro: life_inv_begun [OF assms(2)] life_inv_step)

section \<open>The channel of Start\<close>

text \<open>C21. However calls of \<open>Start\<close>, the end of serving and shutdowns are interleaved: at most one
  call of \<open>Start\<close> succeeds, and from then on \<open>Addr\<close> is the bound address; the goroutine reports
  exactly once, when serving has ended, so that the buffer of one suffices; and it reports no
  error only after a shutdown.\<close>

theorem serving_reported_once:
  assumes "life_step\<^sup>*\<^sup>* (begun s) l" and "listener s = None"
  shows "(start_calls l i = Some (Returned None) \<longrightarrow> start_calls l j = Some (Returned None) \<longrightarrow> i = j) \<and>
    length (sent l) \<le> 1 \<and> (None \<in> set (sent l) \<longrightarrow> inShutdown l) \<and>
    (start_calls l i = Some (Returned None) \<longrightarrow>
       (\<exists>ln. listener (the_server l) = Some ln \<and> Addr (the_server l) = ln) \<and>
       (if running l then sent l = [] \<and> (\<exists>l'. life_step l l' \<and> length (sent l') = 1) else length (sent l) = 1))"
proof -
  have inv: "life_inv l" by (rule life_inv_reachable [OF assms])
  have "\<exists>l'. life_step l l' \<and> length (sent l') = 1" if "running l"
  proof -
    have "life_step l (serve_ended (if inShutdown l then ErrServerClosed else ServeError []) l)"
      using that by (intro serve_returns) simp_all
    moreover have "sent l = []" using inv that by (simp add: life_inv_def)
    ultimately show ?thesis by (force simp: serve_ended_def)
  qed
  moreover have "length (sent l) = 1" if "start_calls l i = Some (Returned None)" "\<not> running l"
    using inv that by (cases "sent l") (auto simp: life_inv_def is_up_def)
  moreover have "i = j" if "start_calls l i = Some (Returned None)" "start_calls l j = Some (Returned None)"
    using inv that unfolding life_inv_def past_swap_def by blast
  moreover have "\<exists>ln. listener (the_server l) = Some ln \<and> Addr (the_server l) = ln"
    if "start_calls l i = Some (Returned None)"
    using inv that by (auto simp: life_inv_def is_up_def Addr_def)
  ultimately show ?thesis using inv by (auto simp: life_inv_def)
qed

definition idle_server :: "(unit, unit, unit) server" where
  "idle_server =
     \<lparr>tlsEnabled = False, cert = None, states = [], active = 0, addr = '':0'', metrics_pattern = ''/m'',
      started = False, listener = None\<rparr>"

definition started_life :: "(unit, unit, unit) life" where
  "started_life =
     start_listen (\<lambda>_. Inr ''[::]:8080'') 0 (start_swap 0 ((begun idle_server)\<lparr>start_calls := [0 \<mapsto> Called]\<rparr>))"

lemma started_life_reachable: "life_step\<^sup>*\<^sup>* (begun idle_server) started_life"
proof -
  let ?a = "(begun idle_server)\<lparr>start_calls := [0 \<mapsto> Called]\<rparr>"
  have "life_step (begun idle_server) ?a" using calls_start [of "begun idle_server" 0] by (simp add: begun_def)
  moreover have "life_step ?a (start_swap 0 ?a)" by (rule swaps) simp
  moreover have "life_step (start_swap 0 ?a) started_life"
    unfolding started_life_def by (rule listens) (simp add: start_swap_def begun_def idle_server_def)
  ultimately show ?thesis by (meson rtranclp.rtrancl_into_rtrancl rtranclp.rtrancl_refl)
qed

lemma serving_reported_once_witness: "Addr (the_server started_life) = ''[::]:8080'' \<and> sent started_life = []"
proof -
  have c: "start_calls started_life 0 = Some (Returned None)" "running started_life"
    "listener (the_server started_life) = Some ''[::]:8080''"
    by (simp_all add: started_life_def start_listen_def start_swap_def begun_def idle_server_def)
  have "listener idle_server = None" by (simp add: idle_server_def)
  from serving_reported_once [OF started_life_reachable this, of 0] c show ?thesis by auto
qed

end
