(* ===== verification/Request_Language.thy ===== *)
theory Request_Language
  imports Policy Examples
begin

text \<open>
  Which request URIs the rules recognise (\<open>internal/rules/mounts.go\<close>): the recognisers as
  languages of URI texts, and what happens to every other request.
\<close>

subsection \<open>Texts of a path\<close>

text \<open>The segments joined by single slashes, any number of slashes around them, and perhaps a
  query.\<close>

definition names_path :: "string list \<Rightarrow> string \<Rightarrow> bool" where
  "names_path segs uri \<longleftrightarrow>
     (\<exists>a b q. (q = [] \<or> hd q = CHR ''?'') \<and>
        uri = replicate a slash @ join ''/'' segs @ replicate b slash @ q)"

definition plain_segment :: "string \<Rightarrow> bool" where
  "plain_segment s \<longleftrightarrow> slash \<notin> set s \<and> CHR ''?'' \<notin> set s"

lemma plain_literals [simp]:
  "plain_segment ''containers''" "plain_segment ''volumes''" "plain_segment ''create''"
  "plain_segment ''archive''" "plain_segment ''exec''"
  by (simp_all add: plain_segment_def)

lemma before_byte_split: "\<exists>q. (q = [] \<or> hd q = c) \<and> s = before_byte s c @ q"
  using hd_dropWhile [of "\<lambda>x. x \<noteq> c" s]
  by (intro exI [of _ "dropWhile (\<lambda>x. x \<noteq> c) s"]) (auto simp: before_byte_takeWhile)

lemma not_in_before_byte: "c \<notin> set (before_byte s c)"
  by (auto simp: before_byte_takeWhile dest: set_takeWhileD)

lemma trim_byte_split: "\<exists>a b. s = replicate a c @ trim_byte s c @ replicate b c"
proof -
  have front: "\<exists>n. s = replicate n c @ dropWhile (\<lambda>x. x = c) s" for s
  proof (induction s)
    case (Cons x s)
    then obtain n where n: "s = replicate n c @ dropWhile (\<lambda>x. x = c) s" by blast
    show ?case
    proof (cases "x = c")
      case True
      then show ?thesis using n by (intro exI [of _ "Suc n"]) simp
    qed (intro exI [of _ 0], simp)
  qed simp
  obtain a where a: "s = replicate a c @ dropWhile (\<lambda>x. x = c) s" using front by blast
  obtain b where "rev (dropWhile (\<lambda>x. x = c) s) =
      replicate b c @ dropWhile (\<lambda>x. x = c) (rev (dropWhile (\<lambda>x. x = c) s))" using front by blast
  then have "dropWhile (\<lambda>x. x = c) s = trim_byte s c @ replicate b c"
    unfolding trim_byte_def by (metis rev_append rev_replicate rev_rev_ident)
  with a show ?thesis by metis
qed

lemma trim_byte_padded:
  assumes "s \<noteq> []" and "hd s \<noteq> c" and "last s \<noteq> c"
  shows "trim_byte (replicate a c @ s @ replicate b c) c = s"
proof -
  have "dropWhile (\<lambda>x. x = c) (replicate n c @ t) = dropWhile (\<lambda>x. x = c) t" for n t
    by (induction n) simp_all
  moreover from this have "dropWhile (\<lambda>x. x = c) (s @ replicate b c) = s @ replicate b c"
    using assms(1,2) by (cases s) auto
  moreover have "dropWhile (\<lambda>x. x = c) (rev s) = rev s" using assms(1,3) by (cases s rule: rev_cases) auto
  ultimately show ?thesis by (simp add: trim_byte_def)
qed

subsection \<open>Segments\<close>

lemma set_split_on: "s \<in> set (split_on c p) \<Longrightarrow> set s \<subseteq> set p"
  by (induction p arbitrary: s) (fastforce split: list.splits if_splits)+

lemma in_split_on: "x \<in> set p \<Longrightarrow> x = c \<or> (\<exists>s\<in>set (split_on c p). x \<in> set s)"
  by (induction p) (auto split: list.splits)

lemma path_segments_plain: "s \<in> set (path_segments uri) \<Longrightarrow> plain_segment s"
proof -
  let ?p = "trim_byte (before_byte uri (CHR ''?'')) slash"
  assume "s \<in> set (path_segments uri)"
  then have s: "s \<in> set (split_on slash ?p)"
    by (auto simp: path_segments_def Let_def split: if_splits dest: list.set_sel(2) [rotated])
  then have "slash \<notin> set s" using split_on_no_sep by blast
  moreover have "set s \<subseteq> set ?p" using s set_split_on by blast
  moreover have "set ?p \<subseteq> set (before_byte uri (CHR ''?''))"
    using trim_byte_split [of "before_byte uri (CHR ''?'')" slash] by (metis Un_iff set_append subsetI)
  ultimately show ?thesis using not_in_before_byte by (auto simp: plain_segment_def)
qed

lemma version_plain:
  assumes "is_version_segment v"
  shows "plain_segment v \<and> v \<noteq> []"
proof -
  obtain rest where v: "v = CHR ''v'' # rest"
    "list_all (\<lambda>part. part \<noteq> [] \<and> list_all is_ascii_digit (runes part)) (split_on (CHR ''.'') rest)"
    using assms by (auto simp: is_version_segment_def split: list.splits)
  have "x \<notin> set rest" if x: "byte x < (0x80 :: nat)" "\<not> is_ascii_digit (byte x)" "x \<noteq> CHR ''.''" for x
  proof
    assume "x \<in> set rest"
    then obtain part where "part \<in> set (split_on (CHR ''.'') rest)" "x \<in> set part"
      using in_split_on x(3) by blast
    then have "is_ascii_digit (byte x)"
      using v(2) x(1) ascii_in_runes [of "byte x" part] by (fastforce simp: list_all_iff)
    then show False using x(2) by simp
  qed
  from this [of slash] this [of "CHR ''?''"] show ?thesis by (simp add: v(1) plain_segment_def is_ascii_digit_def)
qed

lemma segments_of_path:
  assumes "names_path segs uri" and "segs \<noteq> []" and "hd segs \<noteq> []" and "last segs \<noteq> []"
    and "\<forall>s\<in>set segs. plain_segment s"
  shows "path_segments uri = (if is_version_segment (hd segs) then tl segs else segs)"
proof -
  obtain a b q where q: "q = [] \<or> hd q = CHR ''?''"
    and uri: "uri = (replicate a slash @ join ''/'' segs @ replicate b slash) @ q" (is "uri = ?p @ q")
    using assms(1) by (auto simp: names_path_def)
  have "set (join ''/'' segs) \<subseteq> \<Union> (set ` set segs) \<union> {slash}" using set_join [of "''/''" segs] by simp
  then have "CHR ''?'' \<notin> set ?p" using assms(5) by (auto simp: plain_segment_def)
  then have "before_byte uri (CHR ''?'') = ?p"
    using q before_byte_append_byte [of ?p "CHR ''?''" "tl q"] before_query_id [of ?p] unfolding uri
    by (cases q) (auto simp del: append_assoc)
  moreover have "trim_byte ?p slash = join ''/'' segs"
  proof (rule trim_byte_padded)
    note ends = join_ends [OF assms(2-4), of "''/''"]
    show "join ''/'' segs \<noteq> []" using ends by simp
    have "hd (hd segs) \<noteq> slash" "last (last segs) \<noteq> slash"
      using assms(2-5) by (metis hd_in_set plain_segment_def, metis last_in_set plain_segment_def)
    with ends show "hd (join ''/'' segs) \<noteq> slash" "last (join ''/'' segs) \<noteq> slash" by simp_all
  qed
  moreover have "split_on slash (join ''/'' segs) = segs"
    using assms(2,5) by (intro split_on_join) (auto simp: plain_segment_def)
  ultimately show ?thesis using join_ends [OF assms(2-4), of "''/''"] by (simp add: path_segments_def)
qed

lemma path_of_segments:
  assumes "path_segments uri = segs" and "segs \<noteq> []"
  shows "names_path segs uri \<or> (\<exists>v. is_version_segment v \<and> names_path (v # segs) uri)"
proof -
  let ?b = "before_byte uri (CHR ''?'')"
  let ?p = "trim_byte ?b slash"
  obtain q where q: "q = [] \<or> hd q = CHR ''?''" "uri = ?b @ q" using before_byte_split by blast
  obtain a b where ab: "?b = replicate a slash @ ?p @ replicate b slash" using trim_byte_split by blast
  have names: "names_path (split_on slash ?p) uri"
    unfolding names_path_def using q ab join_split_on [of slash ?p] by (metis append.assoc)
  have "segs = (if is_version_segment (hd (split_on slash ?p)) then tl (split_on slash ?p) else split_on slash ?p)"
    using assms by (auto simp: path_segments_def Let_def split: if_splits)
  with names show ?thesis by (metis list.collapse split_on_nonempty)
qed

text \<open>The version prefix is optional.\<close>

definition names_endpoint :: "string list \<Rightarrow> string \<Rightarrow> bool" where
  "names_endpoint segs uri \<longleftrightarrow>
     names_path segs uri \<or> (\<exists>v. is_version_segment v \<and> names_path (v # segs) uri)"

lemma segments_language:
  assumes "segs \<noteq> []" and "hd segs \<noteq> []" and "last segs \<noteq> []" and "\<forall>s\<in>set segs. plain_segment s"
    and "\<not> is_version_segment (hd segs)"
  shows "path_segments uri = segs \<longleftrightarrow> names_endpoint segs uri"
proof
  assume "path_segments uri = segs"
  then show "names_endpoint segs uri"
    using path_of_segments assms(1) unfolding names_endpoint_def by blast
next
  assume "names_endpoint segs uri"
  then show "path_segments uri = segs"
    unfolding names_endpoint_def
  proof
    assume "names_path segs uri"
    from segments_of_path [OF this assms(1-4)] assms(5) show ?thesis by simp
  next
    assume "\<exists>v. is_version_segment v \<and> names_path (v # segs) uri"
    then obtain v where v: "is_version_segment v" "names_path (v # segs) uri" by blast
    from segments_of_path [OF v(2)] version_plain [OF v(1)] assms(1,3,4) v(1) show ?thesis by simp
  qed
qed

lemma literals_not_versions [simp]: "\<not> is_version_segment ''containers''" "\<not> is_version_segment ''volumes''"
  by code_simp+

lemma action_language:
  assumes "plain_segment act" and "act \<noteq> []"
  shows "container_action act (path_segments uri) \<longleftrightarrow>
    (\<exists>i. i \<noteq> [] \<and> plain_segment i \<and> names_endpoint [''containers'', i, act] uri)"
proof -
  have "plain_segment i" if "path_segments uri = [''containers'', i, act]" for i
    using path_segments_plain [of i uri] that by simp
  moreover have "path_segments uri = [''containers'', i, act] \<longleftrightarrow> names_endpoint [''containers'', i, act] uri"
    if "plain_segment i" for i
    by (rule segments_language) (use assms that in auto)
  ultimately show ?thesis by (auto simp: container_action_iff)
qed

section \<open>Recognised and unrecognised requests\<close>

text \<open>C9. The recognisers as languages: a request is taken for a container create, a volume create, a
  \<open>docker cp\<close> or a \<open>docker exec\<close> exactly when its URI is the text of that endpoint's path, with
  or without a version in front, any number of slashes around it and any query behind it, and,
  for the last two, its method is the endpoint's.\<close>

theorem recognised_language:
  "(is_container_create uri \<longleftrightarrow> names_endpoint [''containers'', ''create''] uri) \<and>
   (is_volume_create uri \<longleftrightarrow> names_endpoint [''volumes'', ''create''] uri) \<and>
   (is_docker_cp mth uri \<longleftrightarrow> mth \<in> {''GET'', ''PUT''} \<and>
      (\<exists>i. i \<noteq> [] \<and> plain_segment i \<and> names_endpoint [''containers'', i, ''archive''] uri)) \<and>
   (is_docker_exec_create mth uri \<longleftrightarrow> mth = ''POST'' \<and>
      (\<exists>i. i \<noteq> [] \<and> plain_segment i \<and> names_endpoint [''containers'', i, ''exec''] uri))"
  unfolding is_container_create_def is_volume_create_def is_docker_cp_def is_docker_exec_create_def
  by (simp add: segments_language action_language)

text \<open>C7. Every other text fails open: whatever the configuration and whatever the body asks for, a
  request whose URI is in none of the four languages is allowed, as an abstention or as an
  admin's. So is a container create under a text that the daemon may read as one and the rules
  do not: a version with a dot too many, an escaped letter, or an absolute URI.\<close>

theorem unrecognised_allowed:
  assumes "\<not> is_container_create (RequestURI req)" and "\<not> is_volume_create (RequestURI req)"
    and "\<not> is_docker_cp (RequestMethod req) (RequestURI req)"
    and "\<not> is_docker_exec_create (RequestMethod req) (RequestURI req)"
  shows "fst (chain_decide (builtin_chain os ops cfg) ctx req st) \<in> {(True, [], None), (True, admin_msg, None)}"
proof -
  let ?r = "NewAdminRule (AdminUsers cfg) (AdminGroups cfg)"
  have "fst (admin_evaluate os ops ?r ctx req st) \<in> {Inr abstain} \<union> range (\<lambda>detail. Inr (adminAllow detail))"
    by (auto simp: admin_evaluate_def Let_def split: prod.split option.split)
  then have a: "\<exists>detail st'. admin_evaluate os ops ?r ctx req st = (Inr (adminAllow detail), st') \<or>
      admin_evaluate os ops ?r ctx req st = (Inr abstain, st')"
    by (cases "admin_evaluate os ops ?r ctx req st") auto
  have "binds (RequestURI req) (RequestBody req) = []" "volume_bind_device (RequestURI req) (RequestBody req) = None"
    "network_mode (RequestURI req) (RequestBody req) = None" "privileged (RequestURI req) (RequestBody req) = None"
    using assms(1,2) by simp_all
  with a assms(3,4) show ?thesis
    by (auto simp: decide_fst builtin_chain_def mount_abstains volume_abstains gate_defs)
qed

definition smuggled :: "string \<Rightarrow> authz_req" where \<open>
  smuggled uri = request ''CN=mallory'' ''POST'' uri ''{"HostConfig":{"Binds":["/:/host"],"Privileged":true}}''\<close>

lemma unrecognised_allowed_witness:
  "list_all (\<lambda>uri. fst (fst (chain_decide (builtin_chain sample_os sample_ops sample_config) background
     (smuggled uri) sample_state)))
     [''/v1.43./containers/create'', ''/v1.43/containers/cre%61te'', ''http://docker/v1.43/containers/create'']"
proof -
  have "list_all (\<lambda>uri. \<not> is_container_create uri \<and> \<not> is_volume_create uri \<and>
      \<not> is_docker_cp ''POST'' uri \<and> \<not> is_docker_exec_create ''POST'' uri)
     [''/v1.43./containers/create'', ''/v1.43/containers/cre%61te'', ''http://docker/v1.43/containers/create'']"
    by code_simp
  moreover have "fst (fst (chain_decide (builtin_chain sample_os sample_ops sample_config) background
     (smuggled uri) sample_state))"
    if "\<not> is_container_create uri \<and> \<not> is_volume_create uri \<and>
      \<not> is_docker_cp ''POST'' uri \<and> \<not> is_docker_exec_create ''POST'' uri" for uri
    using that unrecognised_allowed [of "smuggled uri" sample_os sample_ops sample_config background sample_state]
    by (fastforce simp: smuggled_def)
  ultimately show ?thesis by (simp add: list_all_iff)
qed

end
