(* ===== verification/Symlink_Free.thy ===== *)
theory Symlink_Free
  imports Allowlist
begin

text \<open>
  What \<open>Canonicalize\<close> returns names no symbolic link: no component of the result is one, on
  the file system the path was resolved on. The walk keeps its destination as a list of
  components, \<open>..\<close> among them, whose normal form is free of links.
\<close>

subsection \<open>Destinations\<close>

definition seg_ok :: "string \<Rightarrow> bool" where
  "seg_ok d \<longleftrightarrow> d \<noteq> [] \<and> d \<noteq> ''.'' \<and> slash \<notin> set d"

lemma seg_ok_dotdot [simp]: "seg_ok ''..''"
  by (simp add: seg_ok_def)

lemma seg_ok_cases: "seg_ok d \<Longrightarrow> d \<noteq> ''..'' \<Longrightarrow> proper_comp d"
  by (simp add: seg_ok_def proper_comp_def)

text \<open>The components after normalisation.\<close>

definition norm :: "string list \<Rightarrow> string list" where
  "norm ds = rev (clean_stack True ds [])"

lemma norm_Nil [simp]: "norm [] = []"
  by (simp add: norm_def clean_stack_def)

lemma norm_snoc: "proper_comp c \<Longrightarrow> norm (ds @ [c]) = norm ds @ [c]"
  by (simp add: norm_def clean_stack_append) (simp add: clean_stack_def)

lemma norm_proper: "list_all seg_ok ds \<Longrightarrow> list_all proper_comp (norm ds)"
  unfolding norm_def list_all_rev
  by (rule clean_stack_invar) (auto simp: list_all_iff seg_ok_def)

lemma norm_up:
  assumes "list_all seg_ok ds"
  shows "norm (ds @ [''..'']) = butlast (norm ds)"
proof -
  let ?st = "clean_stack True ds []"
  have "list_all proper_comp ?st"
    using assms by (intro clean_stack_invar) (auto simp: list_all_iff seg_ok_def)
  then have "clean_step True ''..'' ?st = tl ?st"
    by (cases ?st) (auto simp: clean_step.simps proper_comp_def)
  then show ?thesis
    by (simp add: norm_def clean_stack_append) (simp add: clean_stack_def butlast_rev)
qed

lemma split_on_segs:
  assumes "list_all seg_ok ds"
  shows "split_on slash (abs_path ds) = (if ds = [] then [[], []] else [] # ds)"
proof -
  have "\<forall>d\<in>set ds. slash \<notin> set d" using assms by (auto simp: list_all_iff seg_ok_def)
  then show ?thesis using split_on_join [of ds slash] by (auto simp: abs_path_def)
qed

lemma clean_dest: "list_all seg_ok ds \<Longrightarrow> clean (abs_path ds) = abs_path (norm ds)"
  by (cases "ds = []") (simp_all add: clean_rooted clean_comps_def split_on_segs norm_def)

lemma abs_path_snoc: "ds \<noteq> [] \<Longrightarrow> abs_path (ds @ [c]) = abs_path ds @ ''/'' @ c"
  using abs_path_append [of ds "[c]"] by simp

lemma push_dest:
  assumes "list_all seg_ok ds" and "seg_ok c"
  shows "push_comp (abs_path ds) c = abs_path (ds @ [c])"
proof (cases "ds = []")
  case False
  then have "seg_ok (last ds)" using assms(1) by (simp add: list_all_iff)
  then have "last ds \<noteq> []" "slash \<notin> set (last ds)" by (simp_all add: seg_ok_def)
  then have "last (join ''/'' ds) \<noteq> slash" "join ''/'' ds \<noteq> []"
    using last_join [OF False, of "''/''"] by (metis last_in_set, metis)
  then have "last (abs_path ds) \<noteq> slash" by (simp add: abs_path_def)
  then show ?thesis using False by (simp add: push_comp_def abs_path_snoc) (simp add: abs_path_def)
qed (simp add: push_comp_def abs_path_def)

lemma last_sep_one: "seg_ok d \<Longrightarrow> last_sep ''/'' (abs_path [d]) = None"
  by (simp add: last_sep_def abs_path_def seg_ok_def)

lemma last_sep_more:
  assumes "ds \<noteq> []" and "seg_ok c"
  shows "last_sep ''/'' (abs_path (ds @ [c])) = Some (abs_path ds, c)"
proof -
  have c: "slash \<notin> set (rev c)" using assms(2) by (simp add: seg_ok_def)
  have "drop 1 (abs_path (ds @ [c])) = join ''/'' ds @ slash # c"
    using assms(1) by (simp add: abs_path_snoc) (simp add: abs_path_def)
  moreover have "dropWhile (\<lambda>x. x \<noteq> slash) (rev c @ slash # t) = slash # t" for t
    using c by (subst dropWhile_append2) auto
  moreover have "takeWhile (\<lambda>x. x \<noteq> slash) (rev c @ slash # t) = rev c" for t
    using c by (subst takeWhile_append2) auto
  ultimately show ?thesis
    by (simp add: last_sep_def Let_def) (simp add: abs_path_def)
qed

lemma step_up_dest:
  assumes "list_all seg_ok ds"
  obtains ds' where "step_up ''/'' (abs_path ds) = abs_path ds'" and "list_all seg_ok ds'"
    and "norm ds' = butlast (norm ds)" and "ds' = butlast ds \<or> ds' = ds @ [''..'']"
proof (cases ds rule: rev_cases)
  case Nil
  have "step_up ''/'' (abs_path ds) = abs_path [''..'']"
    by (simp add: step_up_def last_sep_def abs_path_def Nil)
  then show ?thesis by (rule that) (use norm_up [of "[]"] Nil in simp_all)
next
  case (snoc es d)
  have d: "seg_ok d" "list_all seg_ok es" using assms snoc by simp_all
  have keep: "abs_path ds @ ''/'' @ ''..'' = abs_path (ds @ [''..''])"
    by (rule abs_path_snoc [symmetric]) (simp add: snoc)
  have long: "length ''/'' < length (abs_path ds)"
    using d snoc by (cases es) (auto simp: abs_path_def seg_ok_def join_Cons)
  show ?thesis
  proof (cases "es = [] \<or> d = ''..''")
    case True
    have "step_up ''/'' (abs_path ds) = abs_path (ds @ [''..''])"
      using True keep long snoc d by (cases "es = []") (auto simp: step_up_def last_sep_one last_sep_more)
    then show ?thesis by (rule that) (use assms norm_up in simp_all)
  next
    case False
    then have "step_up ''/'' (abs_path ds) = abs_path es"
      using snoc d by (simp add: step_up_def last_sep_more)
    then show ?thesis
      by (rule that) (use d False snoc norm_snoc [of d es] seg_ok_cases [of d] in simp_all)
  qed
qed

subsection \<open>The walk\<close>

text \<open>No prefix of these components is a link; and what the walk went through to get to a
  destination: directories.\<close>

definition link_free :: "os_env \<Rightarrow> string list \<Rightarrow> bool" where
  "link_free os cs \<longleftrightarrow>
     (\<forall>ds. prefix ds cs \<longrightarrow> ds \<noteq> [] \<longrightarrow> (\<exists>k. os_lstat os (abs_path ds) = Inr k \<and> k \<noteq> Symlink))"

definition walked :: "os_env \<Rightarrow> string list \<Rightarrow> bool" where
  "walked os ds \<longleftrightarrow>
     list_all seg_ok ds \<and>
     (\<forall>es d. prefix (es @ [d]) ds \<longrightarrow> d \<noteq> ''..'' \<longrightarrow> os_lstat os (abs_path (es @ [d])) = Inr Directory)"

text \<open>What the file system does with \<open>..\<close>: after real directories, looking up a name is
  looking it up in the directory the normalised path names.\<close>

definition dotdot_is_parent :: "os_env \<Rightarrow> bool" where
  "dotdot_is_parent os \<longleftrightarrow>
     (\<forall>ds c. walked os ds \<longrightarrow> proper_comp c \<longrightarrow>
        os_lstat os (abs_path (ds @ [c])) = os_lstat os (abs_path (norm ds @ [c])))"

lemma link_free_Nil [simp]: "link_free os []"
  by (simp add: link_free_def)

lemma link_free_snoc:
  "link_free os cs \<Longrightarrow> os_lstat os (abs_path (cs @ [c])) = Inr k \<Longrightarrow> k \<noteq> Symlink \<Longrightarrow> link_free os (cs @ [c])"
  by (auto simp: link_free_def)

lemma link_free_butlast: "link_free os cs \<Longrightarrow> link_free os (butlast cs)"
  unfolding link_free_def by (meson prefix_order.trans prefixeq_butlast)

lemma walked_Nil [simp]: "walked os []"
  by (simp add: walked_def)

lemma walked_snoc:
  "walked os ds \<Longrightarrow> seg_ok c \<Longrightarrow> (c \<noteq> ''..'' \<Longrightarrow> os_lstat os (abs_path (ds @ [c])) = Inr Directory) \<Longrightarrow>
     walked os (ds @ [c])"
  by (auto simp: walked_def)

lemma walked_butlast: "walked os ds \<Longrightarrow> walked os (butlast ds)"
  using prefix_order.trans [OF _ prefixeq_butlast [of ds]]
  by (auto simp: walked_def list_all_iff dest: in_set_butlastD)

text \<open>The invariant. After a plain file nothing is left to walk.\<close>

definition walk_ok :: "os_env \<Rightarrow> walk_state \<Rightarrow> bool" where
  "walk_ok os w \<longleftrightarrow>
     wk_vol w = ''/'' \<and>
     (\<exists>ds. wk_dest w = abs_path ds \<and> list_all seg_ok ds \<and> link_free os (norm ds) \<and>
        (walked os ds \<or> wk_path w = []))"

lemma next_comp_seg: "next_comp p = (seg, rest) \<Longrightarrow> slash \<notin> set seg"
  by (auto simp: next_comp_def Let_def dest: set_takeWhileD)

text \<open>One component that is looked up.\<close>

lemma look_up:
  assumes "dotdot_is_parent os" and "walked os ds" and "link_free os (norm ds)" and "proper_comp c"
    and "os_lstat os (abs_path (ds @ [c])) = Inr k" and "k \<noteq> Symlink"
  shows "link_free os (norm (ds @ [c]))" and "list_all seg_ok (ds @ [c])"
proof -
  have "os_lstat os (abs_path (norm ds @ [c])) = Inr k"
    using assms(1,2,4,5) by (simp add: dotdot_is_parent_def)
  with assms(3,6) show "link_free os (norm (ds @ [c]))"
    by (simp add: norm_snoc [OF assms(4)] link_free_snoc)
  show "list_all seg_ok (ds @ [c])"
    using assms(2,4) by (simp add: walked_def seg_ok_def proper_comp_def)
qed

lemma link_dest:
  assumes "list_all seg_ok ds" and "seg_ok c"
  shows "(case last_sep ''/'' (abs_path (ds @ [c])) of None \<Rightarrow> ''/'' | Some (base, _) \<Rightarrow> base) = abs_path ds"
  using assms last_sep_one [of c] last_sep_more [of ds c]
  by (cases "ds = []") (auto simp: abs_path_def)

lemma walk_iter_ok:
  assumes "dotdot_is_parent os" and "walk_ok os w" and "walk_iter os w = Inr w'"
  shows "walk_ok os w'"
proof -
  obtain ds where dest: "wk_dest w = abs_path ds" and segs: "list_all seg_ok ds"
    and free: "link_free os (norm ds)" and wkd: "walked os ds \<or> wk_path w = []" and vol: "wk_vol w = ''/''"
    using assms(2) by (auto simp: walk_ok_def)
  obtain c rest where n: "next_comp (wk_path w) = (c, rest)" by fastforce
  have c: "c \<noteq> []" using assms(3) n by (auto simp: walk_iter_def)
  then have wkd: "walked os ds" using wkd n by (cases "wk_path w = []") auto
  show ?thesis
  proof (cases "c = ''.'' \<or> c = ''..''")
    case True
    then show ?thesis
    proof
      assume "c = ''.''"
      with assms(3) n have "w' = w\<lparr>wk_path := rest\<rparr>" by (simp add: walk_iter_def)
      with dest segs free wkd vol show ?thesis by (auto simp: walk_ok_def)
    next
      assume "c = ''..''"
      with assms(3) n vol have w': "w' = w\<lparr>wk_dest := step_up ''/'' (wk_dest w), wk_path := rest\<rparr>"
        by (simp add: walk_iter_def)
      obtain ds' where up: "step_up ''/'' (abs_path ds) = abs_path ds'" "list_all seg_ok ds'"
        "norm ds' = butlast (norm ds)" "ds' = butlast ds \<or> ds' = ds @ [''..'']"
        by (rule step_up_dest [OF segs])
      have "walked os ds'" using up(4) wkd by (auto intro: walked_butlast walked_snoc)
      with up dest vol link_free_butlast [OF free] show ?thesis by (auto simp: walk_ok_def w')
    qed
  next
    case False
    then have good: "proper_comp c" "seg_ok c"
      using c next_comp_seg [OF n] by (simp_all add: proper_comp_def seg_ok_def)
    have push: "push_comp (wk_dest w) c = abs_path (ds @ [c])"
      using dest push_dest [OF segs good(2)] by simp
    have ends: "walk_ok os \<lparr>wk_vol = ''/'', wk_dest = ''/'', wk_links = l, wk_path = p\<rparr>" for l p
      unfolding walk_ok_def by (simp, rule exI [of _ "[]"]) (simp add: abs_path_def)
    obtain k where k: "os_lstat os (abs_path (ds @ [c])) = Inr k"
      using assms(3) n c False push by (auto simp: walk_iter_def Let_def split: sum.splits)
    show ?thesis
    proof (cases k)
      case Regular
      note lu = look_up [OF assms(1) wkd free good(1) k]
      from Regular assms(3) n c False push k have "rest = []" "w' = w\<lparr>wk_dest := abs_path (ds @ [c]), wk_path := rest\<rparr>"
        by (auto simp: walk_iter_def split: if_splits)
      with lu vol Regular show ?thesis unfolding walk_ok_def by (auto intro!: exI [of _ "ds @ [c]"])
    next
      case Directory
      note lu = look_up [OF assms(1) wkd free good(1) k]
      from Directory assms(3) n c False push k have "w' = w\<lparr>wk_dest := abs_path (ds @ [c]), wk_path := rest\<rparr>"
        by (auto simp: walk_iter_def)
      moreover have "walked os (ds @ [c])" using walked_snoc [OF wkd good(2)] k Directory by simp
      ultimately show ?thesis using lu vol Directory unfolding walk_ok_def by (auto intro!: exI [of _ "ds @ [c]"])
    next
      case Symlink
      obtain link where rl: "os_readlink os (abs_path (ds @ [c])) = Inr link"
        using assms(3) n c False push k Symlink
        by (auto simp: walk_iter_def Let_def split: if_splits sum.splits)
      have "w' = (if is_abs link
          then \<lparr>wk_vol = ''/'', wk_dest = ''/'', wk_links = Suc (wk_links w), wk_path = tl link @ rest\<rparr>
          else w\<lparr>wk_dest := (case last_sep ''/'' (abs_path (ds @ [c])) of None \<Rightarrow> ''/'' | Some (base, _) \<Rightarrow> base),
                 wk_links := Suc (wk_links w), wk_path := link @ rest\<rparr>)"
        using assms(3) n c False push k Symlink rl vol
        by (auto simp: walk_iter_def Let_def split: if_splits option.splits)
      then have "w' = \<lparr>wk_vol = ''/'', wk_dest = ''/'', wk_links = Suc (wk_links w), wk_path = tl link @ rest\<rparr> \<or>
          w' = w\<lparr>wk_dest := abs_path ds, wk_links := Suc (wk_links w), wk_path := link @ rest\<rparr>"
        by (simp only: link_dest [OF segs good(2)] split: if_splits) simp_all
      then show ?thesis
      proof
        assume "w' = \<lparr>wk_vol = ''/'', wk_dest = ''/'', wk_links = Suc (wk_links w), wk_path = tl link @ rest\<rparr>"
        then show ?thesis using ends by (simp only:)
      next
        assume "w' = w\<lparr>wk_dest := abs_path ds, wk_links := Suc (wk_links w), wk_path := link @ rest\<rparr>"
        then show ?thesis using dest segs free wkd vol by (auto simp: walk_ok_def)
      qed
    qed
  qed
qed

lemma walk_symlinks_free:
  "walk_symlinks os w = Inr r \<Longrightarrow> dotdot_is_parent os \<Longrightarrow> walk_ok os w \<Longrightarrow>
     \<exists>cs. r = abs_path cs \<and> list_all proper_comp cs \<and> link_free os cs"
proof (induction os w rule: walk_symlinks.induct)
  case (1 os w)
  show ?case
  proof (cases "walk_iter os w")
    case (Inl res)
    then have "r = clean (wk_dest w)"
      using 1(2) walk_iter_result [of os w r] by (simp add: walk_symlinks.simps)
    then show ?thesis using 1(4) by (auto simp: walk_ok_def clean_dest norm_proper)
  next
    case (Inr w')
    then show ?thesis
      using 1 walk_iter_ok [OF 1(3,4) Inr] by (simp add: walk_symlinks.simps [of os w])
  qed
qed

text \<open>A link to itself is followed until the bound.\<close>

lemma self_link_walk:
  assumes "proper_comp c" and "os_lstat os (abs_path [c]) = Inr Symlink"
    and "os_readlink os (abs_path [c]) = Inr (abs_path [c])" and "n \<le> max_links"
  shows "walk_symlinks os \<lparr>wk_vol = ''/'', wk_dest = ''/'', wk_links = n, wk_path = c\<rparr> = Inl too_many_links"
  using assms(4)
proof (induction "max_links - n" arbitrary: n)
  case 0
  then have n: "n = max_links" by simp
  have "next_comp c = (c, [])" "push_comp ''/'' c = abs_path [c]"
    using assms(1) by (cases c; force simp: next_comp_def proper_comp_def push_comp_def abs_path_def takeWhile_no_sep)+
  with assms(1-3) n show ?case
    by (subst walk_symlinks.simps) (simp add: walk_iter_def Let_def proper_comp_def)
next
  case (Suc m)
  have "next_comp c = (c, [])" "push_comp ''/'' c = abs_path [c]"
    using assms(1) by (cases c; force simp: next_comp_def proper_comp_def push_comp_def abs_path_def takeWhile_no_sep)+
  moreover have "walk_symlinks os \<lparr>wk_vol = ''/'', wk_dest = ''/'', wk_links = Suc n, wk_path = c\<rparr> = Inl too_many_links"
    using Suc by (intro Suc.hyps(1)) simp_all
  moreover have "n < max_links" using Suc by simp
  moreover have "tl (abs_path [c]) = c" by (simp add: abs_path_def)
  ultimately show ?case
    using assms(1-3) by (subst walk_symlinks.simps) (simp add: walk_iter_def Let_def proper_comp_def)
qed

section \<open>Properties of resolved paths\<close>

text \<open>C39. What \<open>Canonicalize\<close> returns is free of symbolic links: neither the path nor any
  directory on the way to it is one, on the file system it was resolved on; so the paths
  compared with the allowlist cannot be redirected by a link that was there. The file
  system's part is that \<open>..\<close> after a real directory is its parent.\<close>

theorem canonicalize_link_free:
  assumes "dotdot_is_parent os" and "canonicalize os path = Inr c"
  shows "\<exists>cs. c = abs_path cs \<and> list_all proper_comp cs \<and>
    (\<forall>ds. prefix ds cs \<longrightarrow> ds \<noteq> [] \<longrightarrow> (\<exists>k. os_lstat os (abs_path ds) = Inr k \<and> k \<noteq> Symlink))"
proof -
  obtain ap r where ap: "path_abs os path = Inr ap" and r: "eval_symlinks os ap = Inr r" and c: "c = clean r"
    using assms(2) by (auto simp: canonicalize_def split: option.splits sum.splits)
  have abs: "is_abs ap" using ap by (rule path_abs_is_abs)
  have "walk_ok os \<lparr>wk_vol = ''/'', wk_dest = ''/'', wk_links = 0, wk_path = drop 1 ap\<rparr>"
    unfolding walk_ok_def by (simp, rule exI [of _ "[]"]) (simp add: abs_path_def)
  moreover have "walk_symlinks os \<lparr>wk_vol = ''/'', wk_dest = ''/'', wk_links = 0, wk_path = drop 1 ap\<rparr> = Inr r"
    using r abs by (simp add: eval_symlinks_def Let_def)
  ultimately obtain cs where "r = abs_path cs" "list_all proper_comp cs" "link_free os cs"
    using walk_symlinks_free assms(1) by blast
  then show ?thesis by (auto simp: c clean_abs_path link_free_def)
qed

text \<open>A file system with one link, \<open>/l\<close>, to \<open>real/../d\<close>.\<close>

definition linked_os :: os_env where
  "linked_os =
     \<lparr>os_getwd = Inr ''/'', os_lstat = (\<lambda>p. Inr (if clean p = ''/l'' then Symlink else Directory)),
      os_readlink = (\<lambda>_. Inr ''real/../d''), os_schedule = (\<lambda>n. [0..<n])\<rparr>"

lemma linked_os_dotdot: "dotdot_is_parent linked_os"
proof -
  have "clean (abs_path (ds @ [c])) = clean (abs_path (norm ds @ [c]))"
    if "list_all seg_ok ds" "proper_comp c" for ds c
  proof -
    have "seg_ok c" "list_all proper_comp (norm ds @ [c])"
      using that norm_proper by (simp_all add: seg_ok_def proper_comp_def)
    then show ?thesis using that by (simp add: clean_dest norm_snoc clean_abs_path)
  qed
  then show ?thesis by (simp add: dotdot_is_parent_def walked_def linked_os_def)
qed

lemma linked_canonicalize: "canonicalize linked_os ''/l/x'' = Inr ''/d/x''"
  by code_simp

lemma canonicalize_link_free_witness:
  "\<exists>cs. ''/d/x'' = abs_path cs \<and>
     (\<forall>ds. prefix ds cs \<longrightarrow> ds \<noteq> [] \<longrightarrow> os_lstat linked_os (abs_path ds) \<noteq> Inr Symlink)"
  using canonicalize_link_free [OF linked_os_dotdot linked_canonicalize] by fastforce

text \<open>A link to itself is an error of \<open>Canonicalize\<close> (and so a denial), not an endless walk.\<close>

theorem self_link_refused:
  assumes "proper_comp c" and "\<not> has_control (abs_path [c])"
    and "os_lstat os (abs_path [c]) = Inr Symlink" and "os_readlink os (abs_path [c]) = Inr (abs_path [c])"
  shows "canonicalize os (abs_path [c]) = Inl (ErrSymlinks too_many_links) \<and> \<not> check_path os m (abs_path [c])"
proof -
  have "clean (abs_path [c]) = abs_path [c]" using assms(1) by (simp add: clean_abs_path)
  then have "path_abs os (abs_path [c]) = Inr (abs_path [c])" by (simp add: path_abs_def)
  moreover have "eval_symlinks os (abs_path [c]) = Inl too_many_links"
    using self_link_walk [OF assms(1,3,4), of 0] by (simp add: eval_symlinks_def) (simp add: abs_path_def)
  ultimately have "canonicalize os (abs_path [c]) = Inl (ErrSymlinks too_many_links)"
    using assms(2) by (simp add: canonicalize_def check_no_control_chars_def)
  then show ?thesis by (simp add: check_path_def)
qed

lemma self_link_refused_witness:
  "\<not> check_path (linked_os\<lparr>os_readlink := (\<lambda>_. Inr ''/l'')\<rparr>) (new_matcher [''/'']) ''/l''"
proof -
  have l: "abs_path [''l''] = ''/l''" by (simp add: abs_path_def)
  have "proper_comp ''l''" "\<not> has_control ''/l''" "clean ''/l'' = ''/l''" by code_simp+
  with self_link_refused [of "''l''" "linked_os\<lparr>os_readlink := (\<lambda>_. Inr ''/l'')\<rparr>"] show ?thesis
    by (simp add: l linked_os_def)
qed

subsection \<open>The run of the loop\<close>

definition walk_start :: "string \<Rightarrow> walk_state" where
  "walk_start ap =
     (let v = (if is_abs ap then ''/'' else [])
      in \<lparr>wk_vol = v, wk_dest = v, wk_links = 0, wk_path = drop (length v) ap\<rparr>)"

text \<open>One iteration that is not the last.\<close>

definition walk_step :: "os_env \<Rightarrow> walk_state \<Rightarrow> walk_state \<Rightarrow> bool" where
  "walk_step os w w' \<longleftrightarrow> walk_iter os w = Inr w'"

text \<open>The file system neither ends the walk nor fails: there is a component to come, and it is a
  dot, a directory, or a link that can be read.\<close>

definition leads_on :: "os_env \<Rightarrow> walk_state \<Rightarrow> bool" where
  "leads_on os w \<longleftrightarrow>
     (let seg = fst (next_comp (wk_path w)); dest = push_comp (wk_dest w) seg
      in seg \<noteq> [] \<and> (seg \<in> {''.'', ''..''} \<or> os_lstat os dest = Inr Directory \<or>
           os_lstat os dest = Inr Symlink \<and> is_ok (os_readlink os dest)))"

lemma walk_links_bound: "walk_iter os w = Inr w' \<Longrightarrow> wk_links w \<le> max_links \<Longrightarrow> wk_links w' \<le> max_links"
  by (auto simp: walk_iter_def Let_def split: prod.splits if_splits sum.splits file_kind.splits)

lemma leads_on_stops:
  assumes "walk_iter os w = Inl r" and "leads_on os w"
  shows "r = Inl too_many_links \<and> max_links < Suc (wk_links w)"
  using assms
  by (auto simp: walk_iter_def leads_on_def Let_def is_ok_iff
      split: prod.splits if_splits sum.splits file_kind.splits)

text \<open>The run that computes \<open>walk_symlinks\<close>.\<close>

lemma walk_run:
  "wk_links w \<le> max_links \<Longrightarrow>
     \<exists>n w'. (walk_step os ^^ n) w w' \<and> walk_iter os w' = Inl (walk_symlinks os w) \<and> wk_links w' \<le> max_links"
proof (induction os w rule: walk_symlinks.induct)
  case (1 os w)
  show ?case
  proof (cases "walk_iter os w")
    case (Inl r)
    then show ?thesis
      using 1(2) by (intro exI [of _ 0] exI [of _ w]) (simp add: walk_symlinks.simps [of os w])
  next
    case (Inr w1)
    with 1 obtain n w' where "(walk_step os ^^ n) w1 w'" "walk_iter os w' = Inl (walk_symlinks os w1)"
        "wk_links w' \<le> max_links" by (meson walk_links_bound)
    moreover have "(walk_step os ^^ Suc n) w w'"
      using Inr calculation(1) by (meson walk_step_def relpowp_Suc_I2)
    ultimately show ?thesis using Inr by (metis sum.simps(6) walk_symlinks.simps)
  qed
qed

text \<open>C40. Resolution ends on every file system: for a path without control characters the loop of
  \<open>EvalSymlinks\<close> is a finite run of iterations, which follows at most 255 links, and whose last
  one gives what \<open>Canonicalize\<close> returns, an error being a denial. On a file system that would
  lead it on for ever (a link to itself, or any cycle of links) the run has followed exactly 255
  links and the error is \<open>too many links\<close>.\<close>

theorem resolution_ends:
  assumes "\<not> has_control path" and "path_abs os path = Inr ap"
  shows "\<exists>n w r. (walk_step os ^^ n) (walk_start ap) w \<and> walk_iter os w = Inl r \<and> wk_links w \<le> 255 \<and>
    canonicalize os path = (case r of Inl e \<Rightarrow> Inl (ErrSymlinks e) | Inr q \<Rightarrow> Inr (clean q)) \<and>
    (check_path os m path \<longrightarrow> is_ok r) \<and>
    ((\<forall>w'. (walk_step os)\<^sup>*\<^sup>* (walk_start ap) w' \<longrightarrow> leads_on os w') \<longrightarrow>
       wk_links w = 255 \<and> r = Inl too_many_links)"
proof -
  have start: "eval_symlinks os ap = walk_symlinks os (walk_start ap)"
    by (simp add: eval_symlinks_def walk_start_def Let_def)
  have "wk_links (walk_start ap) \<le> max_links" by (simp add: walk_start_def Let_def)
  then obtain n w where run: "(walk_step os ^^ n) (walk_start ap) w"
    "walk_iter os w = Inl (walk_symlinks os (walk_start ap))" "wk_links w \<le> max_links"
    using walk_run by blast
  let ?r = "walk_symlinks os (walk_start ap)"
  have canon: "canonicalize os path = (case ?r of Inl e \<Rightarrow> Inl (ErrSymlinks e) | Inr q \<Rightarrow> Inr (clean q))"
    using assms by (simp add: canonicalize_def check_no_control_chars_def start)
  have "?r = Inl too_many_links \<and> wk_links w = 255"
    if "\<forall>w'. (walk_step os)\<^sup>*\<^sup>* (walk_start ap) w' \<longrightarrow> leads_on os w'"
    using leads_on_stops [OF run(2)] that relpowp_imp_rtranclp [OF run(1)] run(3) by (simp add: max_links_def)
  moreover have "check_path os m path \<longrightarrow> is_ok ?r"
    using canon by (cases ?r) (simp_all add: check_path_def is_ok_iff)
  ultimately show ?thesis
    using run canon by (intro exI [of _ n] exI [of _ w] exI [of _ ?r]) (simp add: max_links_def)
qed

text \<open>A link to itself under a directory: \<open>/d/l\<close> names \<open>l\<close>.\<close>

definition looping_os :: os_env where
  "looping_os = linked_os\<lparr>os_lstat := (\<lambda>p. Inr (if p = ''/d/l'' then Symlink else Directory)),
     os_readlink := (\<lambda>_. Inr ''l'')\<rparr>"

lemma resolution_ends_witness:
  "canonicalize looping_os ''/d/l'' = Inl (ErrSymlinks too_many_links) \<and>
   (\<exists>n w. (walk_step looping_os ^^ n) (walk_start ''/d/l'') w \<and> wk_links w = 255)"
proof -
  have p: "\<not> has_control ''/d/l''" "path_abs looping_os ''/d/l'' = Inr ''/d/l''" by code_simp+
  have a: "walk_start ''/d/l'' = \<lparr>wk_vol = ''/'', wk_dest = ''/'', wk_links = 0, wk_path = ''d/l''\<rparr>" by code_simp
  have "w = walk_start ''/d/l'' \<or> (\<exists>n p. w = \<lparr>wk_vol = ''/'', wk_dest = ''/d'', wk_links = n, wk_path = p\<rparr> \<and> p \<in> {''/l'', ''l''})"
    if "(walk_step looping_os)\<^sup>*\<^sup>* (walk_start ''/d/l'') w" for w
    using that
  proof (induction rule: rtranclp_induct)
    case (step w w')
    then show ?case
      by (auto simp: walk_step_def a walk_iter_def next_comp_def push_comp_def looping_os_def last_sep_def is_abs_def Let_def
          split: if_splits)
  qed simp
  then have "leads_on looping_os w" if "(walk_step looping_os)\<^sup>*\<^sup>* (walk_start ''/d/l'') w" for w
    using that
    by (fastforce simp: a leads_on_def next_comp_def push_comp_def looping_os_def Let_def is_ok_iff)
  with resolution_ends [OF p, of "new_matcher []"] show ?thesis by fastforce
qed

end
