(* ===== verification/Config_Watch.thy ===== *)
theory Config_Watch
  imports Config_Laws
begin

text \<open>
  \<open>Store\<close> and \<open>Watch\<close> (\<open>internal/config/config.go\<close>) as they run: the signal channel with its
  buffer of one, the goroutine that takes signals from it and reloads, and \<open>stop\<close>. Signals,
  \<open>stop\<close> and the world move between any two steps of the goroutine.
\<close>

subsection \<open>The store\<close>

record store =
  ptr :: conf

definition NewStore :: "conf \<Rightarrow> store" where
  "NewStore cfg = \<lparr>ptr = cfg\<rparr>"

definition Current :: "store \<Rightarrow> conf" where
  "Current s = ptr s"

subsection \<open>The goroutine\<close>

text \<open>One turn of its loop, cut before the files are read.\<close>

definition begin_reload :: "string \<Rightarrow> 'b world \<Rightarrow> 'b world" where
  "begin_reload path w = emit (Log LevelInfo ''SIGHUP received, reloading config'' [(''path'', path)]) w"

definition finish_reload ::
  "config_env \<Rightarrow> string \<Rightarrow> flag_overrides \<Rightarrow> store \<Rightarrow> 'b world \<Rightarrow> conf result \<times> store \<times> 'b world" where
  "finish_reload env path overrides st w1 =
     (case LoadFull env path overrides w1 of
        (Inl e, w2) \<Rightarrow> (Inl e, st, w2)
      | (Inr cfg, w2) \<Rightarrow>
          (Inr cfg, st\<lparr>ptr := cfg\<rparr>,
           emit (Log LevelDebug ''reload: allowlist'' [(''allowlist'', allowlist_text (Allowlist cfg))]) w2))"

lemma on_sighup_halves:
  "on_sighup env path overrides (ptr st) w =
     (case finish_reload env path overrides st (begin_reload path w) of (r, st', w') \<Rightarrow> (r, ptr st', w'))"
  by (simp add: on_sighup_def finish_reload_def begin_reload_def split: prod.split sum.split)

text \<open>\<open>sigCh\<close>: is there a signal in the channel's buffer; \<open>notified\<close>: does the channel still get
  signals; \<open>closed\<close>: is \<open>done\<close> closed; \<open>once\<close>: has \<open>stop\<close> run; \<open>reported\<close>: the calls of \<open>onReload\<close>,
  in order. \<open>delivered\<close> and \<open>seen\<close> are kept by the model only: how many signals came, and how
  many had come when the latest reload began.\<close>

record 'b watch =
  sigCh :: bool
  notified :: bool
  closed :: bool
  once :: bool
  reloading :: bool
  returned :: bool
  kept_in :: store
  reported :: "conf result list"
  around :: "'b world"
  delivered :: nat
  seen :: nat

definition Watch :: "store \<Rightarrow> 'b world \<Rightarrow> 'b watch" where
  "Watch st w =
     \<lparr>sigCh = False, notified = True, closed = False, once = False, reloading = False, returned = False,
      kept_in = st, reported = [], around = w, delivered = 0, seen = 0\<rparr>"

definition stop_watch :: "'b watch \<Rightarrow> 'b watch" where
  "stop_watch s = (if once s then s else s\<lparr>once := True, notified := False, closed := True\<rparr>)"

text \<open>What the goroutine can do; \<open>env\<close> is what the files and the environment are when it reads
  them.\<close>

inductive turns :: "string \<Rightarrow> flag_overrides \<Rightarrow> 'b watch \<Rightarrow> 'b watch \<Rightarrow> bool" for path overrides where
  takes: "\<not> returned s \<Longrightarrow> \<not> reloading s \<Longrightarrow> sigCh s \<Longrightarrow>
     turns path overrides s
       (s\<lparr>sigCh := False, reloading := True, seen := delivered s, around := begin_reload path (around s)\<rparr>)"
| loads: "reloading s \<Longrightarrow> finish_reload env path overrides (kept_in s) (around s) = (r, st, w) \<Longrightarrow>
     turns path overrides s (s\<lparr>reloading := False, kept_in := st, reported := reported s @ [r], around := w\<rparr>)"
| leaves: "\<not> returned s \<Longrightarrow> \<not> reloading s \<Longrightarrow> closed s \<Longrightarrow> turns path overrides s (s\<lparr>returned := True\<rparr>)"

text \<open>A signal that finds the buffer full is dropped, as \<open>signal.Notify\<close> does not block.\<close>

inductive watch_step :: "string \<Rightarrow> flag_overrides \<Rightarrow> 'b watch \<Rightarrow> 'b watch \<Rightarrow> bool" for path overrides where
  signalled: "notified s \<Longrightarrow> watch_step path overrides s (s\<lparr>sigCh := True, delivered := Suc (delivered s)\<rparr>)"
| turned: "turns path overrides s s' \<Longrightarrow> watch_step path overrides s s'"
| stopped: "watch_step path overrides s (stop_watch s)"
| elsewhere: "watch_step path overrides s (s\<lparr>around := w\<rparr>)"

inductive_cases turnsE: "turns path overrides s s'"

subsection \<open>The invariant\<close>

text \<open>What the store holds after these reports: the latest configuration that loaded.\<close>

fun latest :: "conf \<Rightarrow> conf result list \<Rightarrow> conf" where
  "latest cfg [] = cfg"
| "latest cfg (r # rs) = latest (case r of Inl _ \<Rightarrow> cfg | Inr c \<Rightarrow> c) rs"

lemma latest_snoc: "latest cfg (rs @ [r]) = (case r of Inl _ \<Rightarrow> latest cfg rs | Inr c \<Rightarrow> c)"
  by (induction rs arbitrary: cfg) (simp_all split: sum.split)

definition watch_inv :: "conf \<Rightarrow> 'b watch \<Rightarrow> bool" where
  "watch_inv cfg s \<longleftrightarrow>
     (if sigCh s then seen s < delivered s else seen s = delivered s) \<and>
     Current (kept_in s) = latest cfg (reported s) \<and>
     (once s \<longleftrightarrow> \<not> notified s) \<and> (once s \<longleftrightarrow> closed s) \<and> (returned s \<longrightarrow> closed s \<and> \<not> reloading s)"

lemma finish_reload_store:
  "finish_reload env path overrides st w = (r, st', w') \<Longrightarrow>
     Current st' = (case r of Inl _ \<Rightarrow> Current st | Inr c \<Rightarrow> c)"
  by (auto simp: finish_reload_def Current_def split: prod.splits sum.splits)

lemma watch_inv_turns: "turns path overrides s s' \<Longrightarrow> watch_inv cfg s \<Longrightarrow> watch_inv cfg s'"
  by (erule turnsE) (auto simp: watch_inv_def latest_snoc dest!: finish_reload_store split: sum.splits if_splits)

lemma watch_inv_step: "watch_step path overrides s s' \<Longrightarrow> watch_inv cfg s \<Longrightarrow> watch_inv cfg s'"
proof (induction rule: watch_step.induct)
  case (turned s s')
  then show ?case by (rule watch_inv_turns)
qed (auto simp: watch_inv_def stop_watch_def split: if_splits)

lemma watch_inv_reachable:
  assumes "(watch_step path overrides)\<^sup>*\<^sup>* (Watch (NewStore cfg) w) s"
  shows "watch_inv cfg s"
  using assms
proof (induction rule: rtranclp_induct)
  case base
  then show ?case by (simp add: watch_inv_def Watch_def NewStore_def Current_def)
qed (blast intro: watch_inv_step)

text \<open>Nothing is reported that \<open>LoadFull\<close> did not return for some state of the files.\<close>

definition load_result :: "string \<Rightarrow> flag_overrides \<Rightarrow> 'b world itself \<Rightarrow> conf result \<Rightarrow> bool" where
  "load_result path overrides T r \<longleftrightarrow>
     (\<exists>env (w :: 'b world) w'. LoadFull env path overrides w = (r, w'))"

lemma finish_reload_result:
  fixes w :: "'b world"
  shows "finish_reload env path overrides st w = (r, st', w') \<Longrightarrow> load_result path overrides TYPE('b world) r"
  unfolding load_result_def
  by (rule exI [of _ env], rule exI [of _ w])
    (auto simp: finish_reload_def split: prod.splits sum.splits)

lemma reported_loaded:
  fixes s :: "'b watch"
  assumes "(watch_step path overrides)\<^sup>*\<^sup>* (Watch (NewStore cfg) w) s"
  shows "list_all (load_result path overrides TYPE('b world)) (reported s)"
  using assms
proof (induction rule: rtranclp_induct)
  case base
  then show ?case by (simp add: Watch_def)
next
  case (step s s')
  from step(2,3) show ?case
    by (cases rule: watch_step.cases)
      (auto simp: stop_watch_def elim!: turnsE dest!: finish_reload_result)
qed

lemma turns_reachable:
  "(turns path overrides)\<^sup>*\<^sup>* s s' \<Longrightarrow> (watch_step path overrides)\<^sup>*\<^sup>* s s'"
  by (rule rtranclp_mono [THEN predicate2D]) (auto intro: turned)

lemma stop_watch_twice: "stop_watch (stop_watch s) = stop_watch s"
  by (simp add: stop_watch_def)

text \<open>A reload under way ends, and a pending signal is then taken.\<close>

lemma reload_ends:
  obtains s' where "(turns path overrides)\<^sup>*\<^sup>* s s'" and "\<not> reloading s'" and "sigCh s' = sigCh s"
    and "delivered s' = delivered s" and "returned s' = returned s" and "closed s' = closed s"
    and "length (reported s) \<le> length (reported s')" and "seen s' = seen s"
    and "reloading s \<Longrightarrow> length (reported s) < length (reported s')"
proof (cases "reloading s")
  case True
  fix env
  obtain r st w where f: "finish_reload env path overrides (kept_in s) (around s) = (r, st, w)" by (metis surj_pair)
  show thesis
    by (rule that [OF r_into_rtranclp [of "turns path overrides", OF loads [OF True f]]]) simp_all
qed (use that in blast)

section \<open>Properties of the watcher\<close>

text \<open>No SIGHUP is lost, which is what makes it a lever of revocation: under any interleaving
  of signals, reloads, \<open>stop\<close> and the outside world, a signal that came is either still in
  the channel or was there before the latest reload began to read the files; and the store
  holds the latest configuration that loaded, which a failed reload never touches.\<close>

theorem no_signal_lost:
  assumes "(watch_step path overrides)\<^sup>*\<^sup>* (Watch (NewStore cfg) w) s"
  shows "(sigCh s \<or> seen s = delivered s) \<and> Current (kept_in s) = latest cfg (reported s)"
  using watch_inv_reachable [OF assms] by (auto simp: watch_inv_def split: if_splits)

text \<open>A watch that has got one signal.\<close>

definition signalled_watch :: "unit watch" where
  "signalled_watch = (Watch (NewStore sample_loaded) start_world)\<lparr>sigCh := True, delivered := 1\<rparr>"

lemma signalled_reachable:
  "(watch_step path overrides)\<^sup>*\<^sup>* (Watch (NewStore sample_loaded) start_world) signalled_watch"
  using signalled [of "Watch (NewStore sample_loaded) start_world" path overrides]
  by (intro r_into_rtranclp) (simp add: signalled_watch_def Watch_def)

lemma no_signal_lost_witness: "Current (kept_in signalled_watch) = sample_loaded"
  using no_signal_lost [OF signalled_reachable [of "[]" sample_flags]]
  by (simp add: signalled_watch_def Watch_def NewStore_def Current_def)

lemma rest_reached:
  assumes "(watch_step path overrides)\<^sup>*\<^sup>* (Watch (NewStore cfg) w) s" and "\<not> once s"
  shows "\<exists>s'. (turns path overrides)\<^sup>*\<^sup>* s s' \<and> \<not> sigCh s' \<and> \<not> reloading s' \<and>
    seen s' = delivered s \<and> (sigCh s \<longrightarrow> length (reported s) < length (reported s'))"
proof -
  have inv: "watch_inv cfg s" by (rule watch_inv_reachable [OF assms(1)])
  then have here: "\<not> returned s" using assms(2) by (auto simp: watch_inv_def)
  obtain s1 where s1: "(turns path overrides)\<^sup>*\<^sup>* s s1" "\<not> reloading s1" "sigCh s1 = sigCh s"
    "delivered s1 = delivered s" "returned s1 = returned s" "length (reported s) \<le> length (reported s1)"
    "seen s1 = seen s"
    by (rule reload_ends [of path overrides s]) blast
  show ?thesis
  proof (cases "sigCh s")
    case False
    with s1 inv show ?thesis by (auto simp: watch_inv_def)
  next
    case True
    let ?s2 = "s1\<lparr>sigCh := False, reloading := True, seen := delivered s1, around := begin_reload path (around s1)\<rparr>"
    have "turns path overrides s1 ?s2" using s1 True here by (intro takes) simp_all
    moreover obtain s3 where s3: "(turns path overrides)\<^sup>*\<^sup>* ?s2 s3" "\<not> reloading s3" "sigCh s3 = sigCh ?s2"
      "seen s3 = seen ?s2" "reloading ?s2 \<Longrightarrow> length (reported ?s2) < length (reported s3)"
      by (rule reload_ends [of path overrides ?s2]) blast
    ultimately have "(turns path overrides)\<^sup>*\<^sup>* s s3"
      using s1(1) by (meson converse_rtranclp_into_rtranclp rtranclp_trans)
    then show ?thesis using s1 s3 by (intro exI [of _ s3]) simp
  qed
qed

text \<open>C33. Every SIGHUP is answered, and the store follows: under any interleaving of signals,
  reloads, \<open>stop\<close> and the outside world, whatever was reported is a result of \<open>LoadFull\<close>, and
  the store holds the latest configuration among them; as long as \<open>stop\<close> has not been called,
  the goroutine on its own comes to rest with a reload begun after the last signal and reported,
  with nothing in the channel, and with the store holding the latest configuration that loaded
  by then.\<close>

theorem signals_answered:
  fixes s :: "'b watch"
  assumes "(watch_step path overrides)\<^sup>*\<^sup>* (Watch (NewStore cfg) w) s"
  shows "list_all (\<lambda>r. \<exists>env (w0 :: 'b world) w1. LoadFull env path overrides w0 = (r, w1)) (reported s) \<and>
    Current (kept_in s) = latest cfg (reported s) \<and>
    (\<not> once s \<longrightarrow>
       (\<exists>s'. (turns path overrides)\<^sup>*\<^sup>* s s' \<and> \<not> sigCh s' \<and> \<not> reloading s' \<and>
          seen s' = delivered s \<and> (sigCh s \<longrightarrow> length (reported s) < length (reported s')) \<and>
          Current (kept_in s') = latest cfg (reported s')))"
proof -
  have "Current (kept_in s') = latest cfg (reported s')"
    if "(watch_step path overrides)\<^sup>*\<^sup>* s s'" for s'
    using watch_inv_reachable [OF rtranclp_trans [OF assms that]] by (simp add: watch_inv_def)
  then show ?thesis
    using rest_reached [OF assms] reported_loaded [OF assms] turns_reachable
    unfolding load_result_def by (meson rtranclp.rtrancl_refl)
qed

lemma signals_answered_witness:
  "\<exists>s'. (turns [] sample_flags)\<^sup>*\<^sup>* signalled_watch s' \<and> seen s' = 1 \<and> reported s' \<noteq> []"
proof -
  have "\<not> once signalled_watch" "delivered signalled_watch = 1" "sigCh signalled_watch" "reported signalled_watch = []"
    by (simp_all add: signalled_watch_def Watch_def)
  with signals_answered [OF signalled_reachable [of "[]" sample_flags]] show ?thesis by auto
qed

end
