(* ===== verification/Config_Ranges.thy ===== *)
theory Config_Ranges
  imports Server Config_Laws
begin

text \<open>
  The durations of a configuration: every one that reaches the server or a cache is a
  \<open>time.Duration\<close>, an \<open>int64\<close>, whichever layer it came from, and a cache's interval is also
  positive. The decision timeout need not be.
\<close>

subsection \<open>Durations\<close>

definition int64 :: "int \<Rightarrow> bool" where
  "int64 d \<longleftrightarrow> min_duration \<le> d \<and> d \<le> max_duration"

lemma int64_const [simp]: "int64 0" "int64 2000000000" "int64 600000000000"
  by (simp_all add: int64_def min_duration_def max_duration_def)

definition durations_fit :: "'r config \<Rightarrow> bool" where
  "durations_fit cfg \<longleftrightarrow>
     int64 (DecisionTimeout (Server cfg)) \<and> (\<forall>d\<in>set (Datasources cfg). int64 (DsCacheTTL d))"

text \<open>The YAML library decodes a field of type \<open>Duration\<close>, and an entry of \<open>datasources\<close>, by its
  \<open>UnmarshalYAML\<close>, or leaves it zero.\<close>

definition yaml_types :: "config_env \<Rightarrow> bool" where
  "yaml_types env \<longleftrightarrow>
     (\<forall>dur ds text cfg. yaml_config env dur ds text = Inr cfg \<longrightarrow>
        (DecisionTimeout (Server cfg) = 0 \<or> (\<exists>n. dur n = Inr (DecisionTimeout (Server cfg)))) \<and>
        (\<forall>d\<in>set (Datasources cfg). \<exists>n. ds n = Inr d)) \<and>
     (\<forall>dur node name ty ttl. yaml_common env dur node = Inr (name, ty, ttl) \<longrightarrow>
        ttl = 0 \<or> (\<exists>n. dur n = Inr ttl))"

lemma parsed_int64: "ParseDuration fl s = Inr d \<Longrightarrow> int64 d"
  using ParseDuration_range [of fl s d] by (simp add: int64_def min_duration_def max_duration_def)

lemma unmarshalled_int64: "Duration_UnmarshalYAML env is_print node = Inr d \<Longrightarrow> int64 d"
  by (auto simp: Duration_UnmarshalYAML_def intro: parsed_int64 split: sum.splits)

lemma entry_int64:
  assumes "yaml_types env" and "Datasource_UnmarshalYAML env is_print node = Inr d"
  shows "int64 (DsCacheTTL d)"
proof -
  obtain name ty ttl where c: "yaml_common env (Duration_UnmarshalYAML env is_print) node = Inr (name, ty, ttl)"
    and d: "DsCacheTTL d = ttl"
    using assms(2) by (auto simp: Datasource_UnmarshalYAML_def split: sum.splits)
  from assms(1) c have "ttl = 0 \<or> (\<exists>n. Duration_UnmarshalYAML env is_print n = Inr ttl)"
    unfolding yaml_types_def by blast
  then show ?thesis using d unmarshalled_int64 by auto
qed

lemma merge_datasources_set: "set (merge_datasources base ds) \<subseteq> set base \<union> set ds"
proof (induction base ds rule: merge_datasources.induct)
  case (2 base d ds)
  then show ?case
    by (auto split: option.split dest!: set_update_subset_insert [THEN subsetD] subsetD)
qed simp

lemma mergeLayer_fits:
  assumes "mergeLayer env cfg path w = (Inr cfg', w')" and "yaml_types env" and "durations_fit cfg"
  shows "durations_fit cfg'"
proof -
  obtain data layer present where y: "yaml_config env (Duration_UnmarshalYAML env (print_table w))
      (Datasource_UnmarshalYAML env (print_table w)) data = Inr layer"
    and m: "cfg' = merge_fields present layer cfg"
    using assms(1) by (auto simp: mergeLayer_def Let_def split: sum.splits prod.splits)
  from assms(2) y have l: "DecisionTimeout (Server layer) = 0 \<or>
      (\<exists>n. Duration_UnmarshalYAML env (print_table w) n = Inr (DecisionTimeout (Server layer)))"
    "\<forall>d\<in>set (Datasources layer). \<exists>n. Datasource_UnmarshalYAML env (print_table w) n = Inr d"
    unfolding yaml_types_def by blast+
  from l(1) have "int64 (DecisionTimeout (Server layer))" using unmarshalled_int64 by auto
  moreover have "\<forall>d\<in>set (Datasources layer). int64 (DsCacheTTL d)" using l(2) entry_int64 [OF assms(2)] by blast
  ultimately show ?thesis
    using assms(3) merge_datasources_set [of "Datasources cfg" "Datasources layer"]
    by (auto simp: durations_fit_def m merge_fields_def merge_server_def)
qed

lemma merge_layers_fits:
  assumes "merge_layers env dir es cfg w = (Inr cfg', w')" and "yaml_types env" and "durations_fit cfg"
  shows "durations_fit cfg'"
  using assms
proof (induction env dir es cfg w rule: merge_layers.induct)
  case (2 env dir name isDir es cfg w)
  show ?case
  proof (cases "isDir \<or> path_ext name \<noteq> ''.yaml''")
    case False
    with 2(3) obtain c1 w1 where m: "mergeLayer env cfg (path_join dir name) w = (Inr c1, w1)"
      by (auto split: prod.splits sum.splits)
    with False 2(3) have "merge_layers env dir es c1 w1 = (Inr cfg', w')" by simp
    with 2(2) [OF False m [symmetric]] mergeLayer_fits [OF m 2(4,5)] 2(4) show ?thesis by simp
  qed (use 2 in simp)
qed simp

lemma Load_fits:
  assumes "Load env path w = (Inr cfg, w')" and "yaml_types env"
  shows "durations_fit cfg"
proof -
  obtain c1 w1 where m: "mergeLayer env zero_config path w = (Inr c1, w1)"
    using assms(1) by (auto simp: Load_def split: prod.splits sum.splits)
  have "durations_fit (zero_config :: conf)" by (simp add: durations_fit_def zero_config_def zero_server_def)
  with mergeLayer_fits [OF m assms(2)] have c1: "durations_fit (c1\<lparr>ConfigDir := d\<rparr>)" for d
    by (simp add: durations_fit_def)
  obtain es c2 where l: "merge_layers env (conf_dir path (ConfigDir c1)) es
      (c1\<lparr>ConfigDir := conf_dir path (ConfigDir c1)\<rparr>) w1 = (Inr c2, w')"
    and cfg: "cfg = applyDefaults c2"
    using assms(1) m by (auto simp: Load_def Let_def split: prod.splits sum.splits if_splits)
  from merge_layers_fits [OF l assms(2) c1] show ?thesis
    by (auto simp: cfg durations_fit_def applyDefaults_def)
qed

lemma LoadFull_fits:
  assumes "LoadFull env path o' w = (Inr cfg, w')" and "yaml_types env"
  shows "durations_fit cfg"
  using assms(1)
proof (rule LoadFullE)
  fix c0 c1
  assume load: "Load env path w = (Inr c0, w')" and e: "ApplyEnv env (print_table w) c0 = Inr c1"
    and f: "ApplyFlags env (print_table w) o' c1 = Inr cfg"
  have c0: "durations_fit c0" by (rule Load_fits [OF load assms(2)])
  have "Datasources cfg = Datasources c0"
    using ApplyEnv_policy [OF e] ApplyFlags_policy [OF f] by (simp add: same_policy_def)
  moreover have "int64 (DecisionTimeout (Server c1))"
    using ApplyEnv_fields(6) [OF e] c0 parsed_int64 by (auto simp: durations_fit_def split: option.splits)
  then have "int64 (DecisionTimeout (Server cfg))"
    using ApplyFlags_fields(6) [OF f] parsed_int64 by (auto split: if_splits)
  ultimately show ?thesis using c0 by (simp add: durations_fit_def)
qed

lemma new_providers_ttl:
  "new_providers is_print meter reg c cfgs = Inr ps \<Longrightarrow> \<forall>d\<in>set cfgs. int64 (CacheTTL d) \<Longrightarrow>
     \<forall>cp\<in>set ps. 0 < cp_ttl cp \<and> cp_ttl cp \<le> max_duration \<and> 0 < cp_negTTL cp \<and> cp_negTTL cp \<le> max_duration"
  by (induction cfgs arbitrary: ps)
    (auto simp: new_provider_def newCachedProvider_def newCachedProviderWithClock_def decorated_def int64_def
      defaultCacheTTL_def defaultNegativeCacheTTL_def max_duration_def split: sum.splits option.splits)

section \<open>The types of the durations\<close>

text \<open>C34. Every duration of a loaded configuration is an \<open>int64\<close>, from whichever file, variable or
  flag it came, and whatever was written there; and in every cache built from it the refresh
  interval and the negative interval are positive ones.\<close>

theorem durations_typed:
  assumes "yaml_types env" and "LoadFull env path o' w = (Inr cfg, w')"
  shows "int64 (DecisionTimeout (Server cfg)) \<and> (\<forall>d\<in>set (Datasources cfg). int64 (DsCacheTTL d)) \<and>
    (\<forall>is_print d. build_set sv is_print cfg = Inr d \<longrightarrow>
       (\<forall>cp\<in>set (providers d). 0 < cp_ttl cp \<and> cp_ttl cp \<le> max_duration \<and>
          0 < cp_negTTL cp \<and> cp_negTTL cp \<le> max_duration))"
proof -
  have fit: "durations_fit cfg" by (rule LoadFull_fits [OF assms(2,1)])
  then have ttls: "\<forall>d\<in>set (convertDatasources (Datasources cfg)). int64 (CacheTTL d)"
    by (auto simp: durations_fit_def convertDatasources_def)
  have "\<forall>cp\<in>set (providers d). 0 < cp_ttl cp \<and> cp_ttl cp \<le> max_duration \<and>
      0 < cp_negTTL cp \<and> cp_negTTL cp \<le> max_duration"
    if "build_set sv is_print cfg = Inr d" for is_print d
  proof -
    from that obtain ps where "new_providers is_print (sv_meter sv) (sv_registry sv) (sv_empty sv)
        (convertDatasources (Datasources cfg)) = Inr ps" and "providers d = ps"
      by (auto simp: build_set_def NewSet_def split: sum.splits)
    with new_providers_ttl [OF this(1) ttls] show ?thesis by simp
  qed
  with fit show ?thesis by (auto simp: durations_fit_def)
qed

lemma sample_yaml_types: "yaml_types sample_env"
  by (auto simp: yaml_types_def sample_env_def sample_layer_def zero_config_def zero_server_def
      split: sum.splits if_splits)

lemma durations_typed_witness: "int64 (DecisionTimeout (Server sample_loaded))"
proof -
  obtain w' where "LoadFull sample_env ''/etc/a/config.yaml'' sample_flags start_world = (Inr sample_loaded, w')"
    using sample_load by (metis surjective_pairing)
  from durations_typed [OF sample_yaml_types this] show ?thesis by blast
qed

text \<open>But validation does not look at the decision timeout: a configuration that is valid stays
  valid with any, and with one that is not positive every decision's deadline has passed
  before its first rule runs.\<close>

lemma timeout_unchecked:
  assumes "Validate env is_print cfg = None"
  shows "Validate env is_print (cfg\<lparr>Server := (Server cfg)\<lparr>DecisionTimeout := d\<rparr>\<rparr>) = None"
    and "d \<le> 0 \<Longrightarrow> with_timeout background d w = (ctx, w') \<Longrightarrow> \<exists>t. ctx_deadline ctx = Some t \<and> t \<le> clock w (ticks w)"
  using assms by (auto simp: Validate_None valid_config_def with_timeout_def background_def now_def)

end
