(* ===== verification/Log_Output.thy ===== *)
theory Log_Output
  imports World
begin

text \<open>
  What the logger of \<open>internal/logging\<close> writes of the events the program emits: the level
  filter \<open>New\<close> sets up and the rendering of the level attribute. The JSON handler of
  \<open>log/slog\<close> below it is not modelled further: it applies the filter and passes every
  built-in attribute through \<open>ReplaceAttr\<close>.
\<close>

subsection \<open>The level attribute\<close>

datatype attr_value = LevelValue level | StringValue string | OtherValue

record attr =
  attr_key :: string
  attr_value :: attr_value

definition LevelKey :: string where
  "LevelKey = ''level''"

definition replaceLevelAttr :: "string list \<Rightarrow> attr \<Rightarrow> attr" where
  "replaceLevelAttr groups a =
     (if attr_key a \<noteq> LevelKey then a
      else
        (case attr_value a of
           LevelValue lvl \<Rightarrow> a\<lparr>attr_value := StringValue (level_name lvl)\<rparr>
         | _ \<Rightarrow> a))"

subsection \<open>The logger\<close>

fun event_level :: "event \<Rightarrow> level option" where
  "event_level (Log l _ _) = Some l"
| "event_level (TraceReq _) = Some LevelTrace"
| "event_level (TraceRes _) = Some LevelTrace"
| "event_level (Metric _ _ _) = None"

definition Trace :: "authz_req + authz_res \<Rightarrow> event" where
  "Trace x = (case x of Inl req \<Rightarrow> TraceReq req | Inr res \<Rightarrow> TraceRes res)"

text \<open>The lines of a logger built by \<open>New level\<close>: the level as it is rendered, and the event.\<close>

definition new_logger :: "string \<Rightarrow> event list \<Rightarrow> (attr \<times> event) list" where
  "new_logger lvl evs =
     map (\<lambda>ev. (replaceLevelAttr [] \<lparr>attr_key = LevelKey, attr_value = LevelValue (the (event_level ev))\<rparr>, ev))
       (filter (\<lambda>ev. case event_level ev of None \<Rightarrow> False | Some l \<Rightarrow> enabled (logger_threshold lvl) l) evs)"

lemma new_logger_append: "new_logger lvl (xs @ ys) = new_logger lvl xs @ new_logger lvl ys"
  by (simp add: new_logger_def)

lemma event_level_Trace: "event_level (Trace x) = Some LevelTrace"
  by (simp add: Trace_def split: sum.split)

text \<open>A written level is the name of the highest of the five levels that is not above it.\<close>

lemma parse_level_names:
  "parse_level ''TRACE'' = Some LevelTrace" "parse_level ''DEBUG'' = Some LevelDebug"
  "parse_level ''INFO'' = Some LevelInfo" "parse_level ''WARN'' = Some LevelWarn"
  "parse_level ''ERROR'' = Some LevelError"
  by code_simp+

theorem level_buckets:
  assumes "LevelTrace \<le> l"
  shows "\<exists>b. parse_level (level_name l) = Some b \<and> b \<le> l \<and> (\<forall>(n, b')\<in>set level_names. b' \<le> l \<longrightarrow> b' \<le> b)"
  using assms by (auto simp: level_name_def parse_level_names level_names_def level_defs)

lemma level_buckets_witness: "\<exists>b. parse_level (level_name 6) = Some b \<and> b \<le> 6"
  using level_buckets [of 6] by (auto simp: level_defs)

text \<open>Only the TRACE level writes the requests and answers themselves, which hold the
  environment variables of containers: under every other setting, an invalid one included,
  none of them reaches the log.\<close>

theorem requests_only_at_trace:
  assumes "parse_level lvl \<noteq> Some LevelTrace" and "(a, ev) \<in> set (new_logger lvl evs)"
  shows "\<exists>l msg attrs. ev = Log l msg attrs"
proof -
  have "LevelTrace < logger_threshold lvl"
    using assms(1) parse_level_in_table [of lvl]
    by (auto simp: logger_threshold_def level_names_def level_defs split: option.splits)
  with assms(2) show ?thesis
    by (cases ev) (auto simp: new_logger_def enabled_def)
qed

lemma requests_only_at_trace_witness:
  "\<exists>l msg attrs. Log LevelWarn ''m'' [] = Log l msg attrs \<and> l = LevelWarn"
proof -
  have info: "parse_level ''info'' = Some LevelInfo" by code_simp
  then have "parse_level ''info'' \<noteq> Some LevelTrace" by (simp add: level_defs)
  moreover have "(\<lparr>attr_key = LevelKey, attr_value = StringValue ''WARN''\<rparr>, Log LevelWarn ''m'' []) \<in>
      set (new_logger ''info'' [TraceRes \<lparr>ResAllow = True, ResMsg = [], ResErr = []\<rparr>, Log LevelWarn ''m'' []])"
    using info by (simp add: new_logger_def enabled_def logger_threshold_def replaceLevelAttr_def level_name_def level_defs)
  ultimately show ?thesis using requests_only_at_trace by blast
qed

end
