(* ===== verification/Telemetry.thy ===== *)
theory Telemetry
  imports Prelude
begin

text \<open>
  The metrics stack (\<open>internal/telemetry/telemetry.go\<close>): package-level state built once, on
  first use, and shared by every caller. The OpenTelemetry and Prometheus libraries are the
  record \<open>otel_lib\<close>, over a state \<open>'l\<close> of their own.
\<close>

subsection \<open>The libraries\<close>

record ('r, 'e, 'm, 'h, 't, 'l) otel_lib =
  NewRegistry :: "'l \<Rightarrow> 'r \<times> 'l"
  NewExporter :: "'r \<Rightarrow> 'l \<Rightarrow> 'e result \<times> 'l"
  NewMeterProvider :: "'e list \<Rightarrow> 'l \<Rightarrow> 'm \<times> 'l"
  HandlerFor :: "'r \<Rightarrow> 'l \<Rightarrow> 'h \<times> 'l"
  ProviderMeter :: "'m \<Rightarrow> string \<Rightarrow> 'l \<Rightarrow> 't \<times> 'l"
  RuntimeStart :: "'m \<Rightarrow> 'l \<Rightarrow> go_error option \<times> 'l"
  ProviderShutdown :: "'m \<Rightarrow> 'l \<Rightarrow> go_error option \<times> 'l"

subsection \<open>State\<close>

definition scopeName :: string where
  "scopeName = ''github.com/weishiuchang/authzmtls''"

text \<open>\<open>initOnce\<close> is whether \<open>sync.Once\<close> has run its function; it counts a panic as a run.\<close>

record ('m, 'h, 't, 'l) telemetry =
  initOnce :: bool
  meterProvider :: "'m option"
  promHandler :: "'h option"
  sharedMeter :: "'t option"
  libs :: 'l

definition newMeterProvider :: "('r, 'e, 'm, 'h, 't, 'l) otel_lib \<Rightarrow> 'e list \<Rightarrow> 'l \<Rightarrow> 'm \<times> 'l" where
  "newMeterProvider lib readers l = NewMeterProvider lib readers l"

text \<open>The left side of the result is the text of a panic.\<close>

definition ensureInit ::
  "('r, 'e, 'm, 'h, 't, 'l) otel_lib \<Rightarrow> ('m, 'h, 't, 'l) telemetry \<Rightarrow>
     string option \<times> ('m, 'h, 't, 'l) telemetry" where
  "ensureInit lib s =
     (if initOnce s then (None, s)
      else
        (let (reg, l1) = NewRegistry lib (libs s);
             (exporter, l2) = NewExporter lib reg l1
         in case exporter of
              Inl err \<Rightarrow>
                (Some (''telemetry: failed to construct prometheus exporter/reader: '' @ err),
                 s\<lparr>initOnce := True, libs := l2\<rparr>)
            | Inr e \<Rightarrow>
                (let (m, l3) = newMeterProvider lib [e] l2;
                     (h, l4) = HandlerFor lib reg l3;
                     (t, l5) = ProviderMeter lib m scopeName l4;
                     (_, l6) = RuntimeStart lib m l5
                 in (None, \<lparr>initOnce = True, meterProvider = Some m, promHandler = Some h,
                            sharedMeter = Some t, libs = l6\<rparr>))))"

definition MeterProvider ::
  "('r, 'e, 'm, 'h, 't, 'l) otel_lib \<Rightarrow> ('m, 'h, 't, 'l) telemetry \<Rightarrow>
     (string + 'm option) \<times> ('m, 'h, 't, 'l) telemetry" where
  "MeterProvider lib s =
     (case ensureInit lib s of
        (Some p, s') \<Rightarrow> (Inl p, s')
      | (None, s') \<Rightarrow> (Inr (meterProvider s'), s'))"

definition Handler ::
  "('r, 'e, 'm, 'h, 't, 'l) otel_lib \<Rightarrow> ('m, 'h, 't, 'l) telemetry \<Rightarrow>
     (string + 'h option) \<times> ('m, 'h, 't, 'l) telemetry" where
  "Handler lib s =
     (case ensureInit lib s of
        (Some p, s') \<Rightarrow> (Inl p, s')
      | (None, s') \<Rightarrow> (Inr (promHandler s'), s'))"

definition Meter ::
  "('r, 'e, 'm, 'h, 't, 'l) otel_lib \<Rightarrow> ('m, 'h, 't, 'l) telemetry \<Rightarrow>
     (string + 't option) \<times> ('m, 'h, 't, 'l) telemetry" where
  "Meter lib s =
     (case ensureInit lib s of
        (Some p, s') \<Rightarrow> (Inl p, s')
      | (None, s') \<Rightarrow> (Inr (sharedMeter s'), s'))"

definition telemetry_Shutdown ::
  "('r, 'e, 'm, 'h, 't, 'l) otel_lib \<Rightarrow> ('m, 'h, 't, 'l) telemetry \<Rightarrow>
     go_error option \<times> ('m, 'h, 't, 'l) telemetry" where
  "telemetry_Shutdown lib s =
     (case meterProvider s of
        None \<Rightarrow> (None, s)
      | Some m \<Rightarrow> (case ProviderShutdown lib m (libs s) of (err, l) \<Rightarrow> (err, s\<lparr>libs := l\<rparr>)))"

definition fresh_telemetry :: "'l \<Rightarrow> ('m, 'h, 't, 'l) telemetry" where
  "fresh_telemetry l =
     \<lparr>initOnce = False, meterProvider = None, promHandler = None, sharedMeter = None, libs = l\<rparr>"

subsection \<open>Once\<close>

datatype telemetry_call = GetProvider | GetHandler | GetMeter | DoShutdown

text \<open>The state after a sequence of calls, and what the getters returned: provider, handler
  and meter, or a panic.\<close>

datatype ('m, 'h, 't) got = GotProvider "'m option" | GotHandler "'h option" | GotMeter "'t option" | Panicked string

definition got_by :: "('a \<Rightarrow> ('m, 'h, 't) got) \<Rightarrow> (string + 'a) \<times> 's \<Rightarrow> ('m, 'h, 't) got list \<times> 's" where
  "got_by f r = (case r of (Inl p, s) \<Rightarrow> ([Panicked p], s) | (Inr x, s) \<Rightarrow> ([f x], s))"

definition telemetry_do ::
  "('r, 'e, 'm, 'h, 't, 'l) otel_lib \<Rightarrow> telemetry_call \<Rightarrow> ('m, 'h, 't, 'l) telemetry \<Rightarrow>
     ('m, 'h, 't) got list \<times> ('m, 'h, 't, 'l) telemetry" where
  "telemetry_do lib c s =
     (case c of
        GetProvider \<Rightarrow> got_by GotProvider (MeterProvider lib s)
      | GetHandler \<Rightarrow> got_by GotHandler (Handler lib s)
      | GetMeter \<Rightarrow> got_by GotMeter (Meter lib s)
      | DoShutdown \<Rightarrow> ([], snd (telemetry_Shutdown lib s)))"

fun telemetry_run ::
  "('r, 'e, 'm, 'h, 't, 'l) otel_lib \<Rightarrow> telemetry_call list \<Rightarrow> ('m, 'h, 't, 'l) telemetry \<Rightarrow>
     ('m, 'h, 't) got list \<times> ('m, 'h, 't, 'l) telemetry" where
  "telemetry_run lib [] s = ([], s)"
| "telemetry_run lib (c # cs) s =
     (case telemetry_do lib c s of (g, s1) \<Rightarrow>
        (case telemetry_run lib cs s1 of (gs, s2) \<Rightarrow> (g @ gs, s2)))"

definition returns ::
  "'m option \<Rightarrow> 'h option \<Rightarrow> 't option \<Rightarrow> ('m, 'h, 't) got \<Rightarrow> bool" where
  "returns m h t g \<longleftrightarrow>
     (case g of GotProvider m' \<Rightarrow> m' = m | GotHandler h' \<Rightarrow> h' = h | GotMeter t' \<Rightarrow> t' = t | Panicked _ \<Rightarrow> False)"

lemma ensureInit_done [simp]: "initOnce s \<Longrightarrow> ensureInit lib s = (None, s)"
  by (simp add: ensureInit_def)

lemma getters_done:
  assumes "initOnce s"
  shows "MeterProvider lib s = (Inr (meterProvider s), s)" "Handler lib s = (Inr (promHandler s), s)"
    "Meter lib s = (Inr (sharedMeter s), s)"
  using assms by (simp_all add: MeterProvider_def Handler_def Meter_def)

lemma do_after_init:
  assumes "initOnce s" and "telemetry_do lib c s = (g, s')"
  shows "list_all (returns (meterProvider s) (promHandler s) (sharedMeter s)) g"
    and "initOnce s'" "meterProvider s' = meterProvider s" "promHandler s' = promHandler s"
    "sharedMeter s' = sharedMeter s"
proof -
  obtain err s2 where sd: "telemetry_Shutdown lib s = (err, s2)" by fastforce
  then have "initOnce s2 = initOnce s \<and> meterProvider s2 = meterProvider s \<and>
      promHandler s2 = promHandler s \<and> sharedMeter s2 = sharedMeter s"
    by (auto simp: telemetry_Shutdown_def split: option.splits prod.splits)
  with assms sd show "list_all (returns (meterProvider s) (promHandler s) (sharedMeter s)) g"
    and "initOnce s'" "meterProvider s' = meterProvider s" "promHandler s' = promHandler s"
    "sharedMeter s' = sharedMeter s"
    by (cases c; force simp: telemetry_do_def getters_done got_by_def returns_def)+
qed

lemma run_after_init:
  "initOnce s \<Longrightarrow> telemetry_run lib cs s = (gs, s') \<Longrightarrow>
     list_all (returns (meterProvider s) (promHandler s) (sharedMeter s)) gs \<and>
     meterProvider s' = meterProvider s"
proof (induction cs arbitrary: s gs s')
  case (Cons c cs)
  obtain g s1 where d: "telemetry_do lib c s = (g, s1)" by fastforce
  obtain gs' s2 where r: "telemetry_run lib cs s1 = (gs', s2)" by fastforce
  note one = do_after_init [OF Cons.prems(1) d]
  from Cons.IH [OF one(2) r] Cons.prems(2) d r one show ?case by auto
qed simp

text \<open>After the first use every call returns the same provider, handler and meter, whatever
  is called in whatever order; a shutdown does not rebuild them.\<close>

theorem telemetry_shared:
  assumes "ensureInit lib (fresh_telemetry l) = (None, s1)"
    and "telemetry_run lib (cs0 @ c # cs) (fresh_telemetry l) = (gs, s')"
    and "set cs0 \<subseteq> {DoShutdown}" and "c \<noteq> DoShutdown"
  shows "\<exists>m h t. meterProvider s' = Some m \<and> list_all (returns (Some m) (Some h) (Some t)) gs"
proof -
  have skip: "telemetry_run lib (cs0 @ xs) (fresh_telemetry l) = telemetry_run lib xs (fresh_telemetry l)" for xs
    using assms(3)
    by (induction cs0) (auto simp: telemetry_do_def telemetry_Shutdown_def fresh_telemetry_def)
  obtain m h t where s1: "initOnce s1" "meterProvider s1 = Some m" "promHandler s1 = Some h" "sharedMeter s1 = Some t"
    using assms(1) by (auto simp: ensureInit_def fresh_telemetry_def split: prod.splits sum.splits)
  have "telemetry_do lib c (fresh_telemetry l) = telemetry_do lib c s1"
    using assms(1,4) s1 by (cases c) (simp_all add: telemetry_do_def MeterProvider_def Handler_def Meter_def)
  then have "telemetry_run lib (c # cs) (fresh_telemetry l) = telemetry_run lib (c # cs) s1" by simp
  with assms(2) skip have "telemetry_run lib (c # cs) s1 = (gs, s')" by metis
  from run_after_init [OF s1(1) this] s1 show ?thesis by auto
qed

lemma after_panic:
  assumes "ensureInit lib (fresh_telemetry l) = (Some p, s1)"
  shows "MeterProvider lib (fresh_telemetry l) = (Inl p, s1)" and "MeterProvider lib s1 = (Inr None, s1)"
    and "telemetry_Shutdown lib s1 = (None, s1)"
  using assms
  by (auto simp: MeterProvider_def telemetry_Shutdown_def ensureInit_def fresh_telemetry_def
      split: prod.splits sum.splits)

text \<open>A library that numbers what it makes.\<close>

definition counting_lib :: "(nat, nat, nat, nat, nat, nat) otel_lib" where
  "counting_lib =
     \<lparr>NewRegistry = (\<lambda>l. (l, Suc l)), NewExporter = (\<lambda>r l. (Inr l, Suc l)),
      NewMeterProvider = (\<lambda>es l. (l, Suc l)), HandlerFor = (\<lambda>r l. (l, Suc l)),
      ProviderMeter = (\<lambda>m n l. (l, Suc l)), RuntimeStart = (\<lambda>m l. (None, l)),
      ProviderShutdown = (\<lambda>m l. (None, l))\<rparr>"

lemma telemetry_shared_witness:
  "fst (telemetry_run counting_lib [DoShutdown, GetHandler, DoShutdown, GetHandler] (fresh_telemetry 0)) =
     [GotHandler (Some 3), GotHandler (Some 3)] \<and>
   (\<exists>h. list_all (returns (Some (2 :: nat)) (Some h) (Some (4 :: nat))) [GotHandler (Some (3 :: nat)), GotHandler (Some 3)])"
proof -
  obtain s1 where i: "ensureInit counting_lib (fresh_telemetry 0) = (None, s1)" and s1: "meterProvider s1 = Some 2"
    by (auto simp: ensureInit_def counting_lib_def fresh_telemetry_def newMeterProvider_def)
  have run: "telemetry_run counting_lib ([DoShutdown] @ GetHandler # [DoShutdown, GetHandler]) (fresh_telemetry 0) =
      ([GotHandler (Some 3), GotHandler (Some 3)],
       \<lparr>initOnce = True, meterProvider = Some 2, promHandler = Some 3, sharedMeter = Some 4, libs = 5\<rparr>)"
    by code_simp
  from telemetry_shared [OF i run] run show ?thesis by (auto simp: returns_def)
qed

end
