(* ===== verification/Spec2Isabelle.thy ===== *)
theory Spec2Isabelle
  imports Service_Alone Server_Http Command Ldap_Shared Server_Life Request_Language Symlink_Free Config_Watch Config_Ranges Log_Output Telemetry
begin

text \<open>
  \<^bold>\<open>The program.\<close> authzmtls is an authorization plugin for the Docker daemon. The daemon
  posts every API request, with the subject DN of the client's certificate, to
  \<open>/AuthZPlugin.AuthZReq\<close> and \<open>/AuthZPlugin.AuthZRes\<close>; the answer is allow or deny. A
  request goes through these parts, each of which relies on the next:

    \<^item> \<open>cmd/authzmtls/main.go\<close> loads the configuration, builds and starts the server, and
      reloads on SIGHUP: theory \<open>Command\<close>;
    \<^item> \<open>internal/config/config.go\<close> reads YAML layers, environment and flags, and validates:
      \<open>Config_Types\<close> (data), \<open>Config\<close> (operations), \<open>Config_Laws\<close> (lemmas), \<open>Config_Ranges\<close>
      (durations), \<open>Config_Watch\<close> (the store and the goroutine of \<open>Watch\<close> as a step relation);
    \<^item> \<open>internal/server/server.go\<close> holds the active state (decider, timeout, certificate) and
      swaps it on reload: \<open>Server\<close> (operations), \<open>Server_Life\<close> (calls of \<open>Start\<close>, the serving
      goroutine and its channel, \<open>Shutdown\<close>), \<open>Server_Run\<close> (the process as a step
      relation, one \<open>Decide\<close> per step), \<open>Service_Shared\<close> (the same process with every decision
      cut wherever it touches shared state) and \<open>Service_Alone\<close> (the second refines the first);
    \<^item> \<open>internal/dockerapi\<close> decodes a request, asks the decider and answers:
      \<open>Docker_Types\<close>, \<open>Docker_Api\<close>, and \<open>Server_Http\<close> (both routers, redirects included);
    \<^item> \<open>internal/rules\<close>: \<open>Docker_Shapes\<close> (what a request asks for), \<open>Allowlist\<close> (canonical
      paths, placeholders, the matcher), \<open>Symlink_Free\<close> (links in resolved paths), \<open>Rules\<close>
      (the seven rules and the chain), \<open>Policy\<close> (what the chain decides), \<open>Request_Language\<close>
      (which URI texts the rules recognise, and what becomes of the others), \<open>Rule_Plans\<close> (the
      rules cut where they wait for the datasources);
    \<^item> \<open>internal/datasources\<close>: \<open>Datasources\<close> (registry, sanitizing, fan-out, union),
      \<open>Cache\<close> (the caching decorator), \<open>Cache_Lru\<close> (an LRU that satisfies its interface),
      \<open>Cache_Shared\<close> (the decorator under concurrent callers);
    \<^item> \<open>internal/datasources/ldap\<close>: \<open>Ldap_Identity\<close> (DNs and filters), \<open>Ldap_Pool\<close> (the
      connection pool), \<open>Ldap\<close> (searches and \<open>Resolve\<close>), \<open>Ldap_Shared\<close> (resolutions at the
      same time over one pool, as a step relation);
    \<^item> \<open>internal/logging\<close>: \<open>Logging\<close> (levels, quoting) and \<open>Log_Output\<close> (what a logger writes);
    \<^item> \<open>internal/telemetry\<close>: \<open>Telemetry\<close>.

  \<open>Prelude\<close> and \<open>World\<close> hold what they share: errors, Go maps, the clock, and the trace of
  log lines and metrics. \<open>Go_Strings\<close>, \<open>Go_Utf8\<close>, \<open>Go_Path\<close>, \<open>Go_Symlinks\<close>, \<open>Go_Json\<close>,
  \<open>Go_Json_Io\<close> and \<open>Go_Duration\<close> model the parts of Go's standard library the program
  calls. \<open>Examples\<close> is the installation on which properties are instantiated. \<open>Service\<close> and this theory state the
  properties that span components.

  \<^bold>\<open>Correspondence.\<close> A definition has the name of the Go function or type it translates,
  or that name in lower case or with the receiver in front (\<open>cached_resolve\<close> is
  \<open>(*cachedProvider).Resolve\<close>) where it would clash. Structs are records; a returned
  \<open>error\<close> is the left side of a sum, with the text of \<open>Error()\<close> as its value; a panic is
  the constructor \<open>Panic\<close>. Byte strings are lists of 8-bit characters. State is passed
  explicitly: the datasource set with its caches, the pool's slots, the server, and the
  \<^typ>\<open>'b world\<close> (clock, event trace, and the state \<open>'b\<close> of the directories). Maps the code
  ranges over are association lists in the order of that iteration; theorems about them hold
  for every order. Goroutines that only write to their own slot (path checks, datasource
  fan-out) run in an order that is an argument, and the properties hold for every fair
  order.

  \<^bold>\<open>Interfaces.\<close> \<open>lru\<close> is what the cache asks of the LRU library (interpreted on a list of at
  most 4096 entries), \<open>flight\<close> what it asks of singleflight, \<open>shared_cache\<close> both
  together; \<open>rule\<close> is the interface \<open>Rule\<close> with the promises of its comments (interpreted on every built-in rule), \<open>rule_chain\<close> and \<open>policy_chain\<close> the chain over such
  rules (interpreted on the built-in order); \<open>decider\<close> is \<open>dockerapi.Decider\<close>, obtained
  from \<open>policy_chain\<close> by a sublocale and interpreted again on \<open>Server.Decide\<close>, so that
  the handler's lemmas hold for the running server.

  \<^bold>\<open>What is shown.\<close>
    \<^item> Policy: what the chain allows, exactly, on requests with mounts; that, admins apart, an
      allowed request's host paths lie under configured patterns filled with values the datasources
      have given, in that run, for that caller; admins; closed gates, and what they do not stop; the language of the recognisers,
      and that every request outside it is allowed.
    \<^item> Paths: the matcher is the prefix order on components; canonical paths are normalised
      and free of links, and resolving them ends on every file system; expansion gives exactly the safe instances of a pattern.
    \<^item> Datasources: results are merged in the configured order; bad identities reach no
      datasource; the cache's staleness, negative caching and flushing. With concurrent callers:
      one refresh per identity, everyone gets an answer, flushing revokes, failures without
      a known value are shared, and the sequential model is one of the interleavings.
    \<^item> Service: over HTTP the daemon reads the decision, and no other path or body reaches one; reloads are all or nothing; whatever
      requests, refreshes, reloads and directory changes are interleaved, each answer is one of the
      policy that was active when the request loaded its state, every decision can come to its
      answer, and one whose steps come together is the single step \<open>Decide\<close>; one \<open>Start\<close>
      succeeds, and its goroutine reports once.
    \<^item> Configuration: loaded configurations are valid; precedence of layers; durations survive
      being written and read and are \<open>int64\<close> from whichever layer; environment and flags never change
      the policy; every SIGHUP is answered by a reload begun after it, and the store holds the latest
      configuration that loaded; the command's store and server agree, and the first reload that
      fails, and nothing else, ends the command with exit code 1.
    \<^item> Logging: the values that sanitizing rejects are written visibly and within a bound (the
      request's URI and the identity in the lines of \<open>Chain.Decide\<close> have none).
    \<^item> LDAP: a resolution sends its two configured filters only, and they keep their structure
      whatever the identity; reversal of DNs; the pool is
      bounded and refines a counting semaphore; under any interleaving resolutions use it so,
      lose no slot on any path, can all come to their end, return values of their own accounts
      only, and are the function \<open>Resolve\<close> when their steps come together.

  \<^bold>\<open>Bounds.\<close> The code's own bounds are kept: 255 links per resolved path (the
  walk's termination measure), 10000 nested JSON containers, 4096 cache entries, 8 path checks
  at a time, 4096 bytes per variable value, LDAP size limits 200 and 500, default pool size 8,
  80 logged runes of a rejected value (at most 816 bytes once quoted), 30 seconds to shut down.
  Durations are integers of nanoseconds; \<open>ParseDuration\<close> builds them in 64 bits that wrap and
  returns an \<open>int64\<close> (\<open>ParseDuration_range\<close>), and \<open>Sub\<close> saturates. No definition uses fuel.

  \<^bold>\<open>Parameters.\<close> Arguments of the definitions, as their code is not part of the repository:
  the LRU library, the YAML parser (the node type and its decoding callbacks are modelled),
  the floating-point step of \<open>time.ParseDuration\<close>, files and environment variables, the table of printable runes
  (\<open>is_print\<close>), the texts of JSON errors, the file system (\<open>os_env\<close>), go-ldap, loading of key
  pairs, the listener, the argument parser, singleflight, the meter (which instruments it refuses), the
  OpenTelemetry and Prometheus libraries, and the verdict of \<open>ServeMux\<close> on patterns with wildcards
  or methods.

  \<^bold>\<open>Not modelled.\<close> The connections, handshakes and draining of net/http (what \<open>Serve\<close> and
  \<open>Shutdown\<close> return is a choice within their documentation), \<open>CONNECT\<close> requests and paths with
  percent signs in the router, the JSON handler of \<open>log/slog\<close>, benchmarks, images and charts. In
  \<open>Server_Run\<close> one \<open>Decide\<close> is one step, which has the caches to itself; \<open>Service_Shared\<close> drops
  that: there each access of a decision to the active state, to an LRU, to singleflight and to a
  backend is a step of its own. A call of a backend is one step there, as a backend is any
  \<open>Provider\<close>; for the LDAP backend \<open>Ldap_Shared\<close> divides it, at the pool, the dial and each
  search. A single path check, which shares nothing but the file system, is not divided.
\<close>

section \<open>The policy as a whole\<close>

text \<open>Serving any sequence of requests from a freshly built datasource set, a request
  that is allowed makes no host path reachable (container bind, mount source, or
  bind-style volume device) unless the caller is an admin or the path canonicalizes to a
  place under a configured pattern whose placeholders are filled with safe values; and
  every value used was given by a configured datasource for that caller's own identity.\<close>

theorem service_host_paths:
  assumes "lru ops peek" and "fair os"
    and "NewSet is_print meter reg c dscfgs = Inr s" and "\<forall>k. peek c k = None"
    and "(req, True, msg, err) \<in> set (fst (serve (chain_decide (builtin_chain os ops cfg)) reqs (s, w)))"
    and "p \<in> host_paths req"
  shows "is_admin (NewAdminRule (AdminUsers cfg) (AdminGroups cfg)) (vouched (answered s) (User req)) \<or>
         granted os (Allowlist cfg) (vouched (answered s) (User req)) p"
proof -
  have "set_inv peek (answered s) s" using new_set_inv [OF assms(3)] assms(4) by blast
  then have "policy_inv os peek (answered s) (s, w)" using assms(2) by (simp add: policy_inv_def)
  from decider.serve_all [OF lru.builtin_decider [OF assms(1)] assms(5) this,
      where Q = "\<lambda>req' ans. req' = req \<longrightarrow> ans = (True, msg, err) \<longrightarrow>
        is_admin (NewAdminRule (AdminUsers cfg) (AdminGroups cfg)) (vouched (answered s) (User req)) \<or>
        granted os (Allowlist cfg) (vouched (answered s) (User req)) p"]
  show ?thesis using lru.decide_host_paths [OF assms(1)] assms(6) by blast
qed

definition sample_registry :: "(unit, unit) registry" where
  "sample_registry = register ''ldap'' (\<lambda>_ _. Inr sample_provider) Map.empty"

definition sample_entry :: "unit ds_config" where
  "sample_entry = \<lparr>Name = ''ad'', Typ = ''ldap'', CacheTTL = 0, Raw = ()\<rparr>"

lemma sample_NewSet: "NewSet (\<lambda>_. False) (\<lambda>_. None) sample_registry [] [sample_entry] = Inr sample_set"
  by (simp add: NewSet_def new_provider_def sample_registry_def register_def lookup_def sample_entry_def
      newCachedProvider_def newCachedProviderWithClock_def newDatasourceMetrics_def sample_set_def)

lemma service_host_paths_witness:
  "is_admin (NewAdminRule (AdminUsers sample_config) (AdminGroups sample_config))
     (vouched (answered sample_set) ''CN=alice'') \<or>
   granted sample_os (Allowlist sample_config) (vouched (answered sample_set) ''CN=alice'') ''/home/alice''"
proof -
  have "(create_alice, True, ''mount path(s) /home/alice, /data/app1 allowed'', None) \<in>
      set (fst (serve (chain_decide (builtin_chain sample_os sample_ops sample_config))
        [(background, create_alice)] sample_state))"
    by (simp only: serve_one decide_alice) simp
  moreover have "''/home/alice'' \<in> host_paths create_alice"
    by (simp add: host_paths_def binds_alice)
  moreover have "User create_alice = ''CN=alice''" by (simp add: create_alice_def)
  ultimately show ?thesis
    using service_host_paths [OF lru4096.lru_axioms fair_sample sample_NewSet] by fastforce
qed

text \<open>Every answer of the decision interface is free of an error, and its message is one
  the request alone determines (possibly with the caller's identity in front): nothing a
  datasource said can reach the unauthenticated reply, in any state.\<close>

theorem decide_reply_public:
  "snd (snd (fst (chain_decide (builtin_chain os (list_lru defaultCacheSize) cfg) ctx req st))) = None \<and>
   fst (snd (fst (chain_decide (builtin_chain os (list_lru defaultCacheSize) cfg) ctx req st)))
     \<in> replies builtin_public req"
  by (rule builtin.answer_public)

text \<open>C4. A caller one of whose resolved \<open>$USER\<close>/\<open>$GROUP\<close> values is configured as an admin is
  allowed whatever the request is, with a fixed message that does not name the match.\<close>

theorem admin_bypass:
  assumes "resolveVars os ops ctx req st = (m, st')"
    and "is_admin (NewAdminRule (AdminUsers cfg) (AdminGroups cfg)) (resolved_value m)"
  shows "fst (chain_decide (builtin_chain os ops cfg) ctx req st) = (True, admin_msg, None)"
proof -
  let ?r = "NewAdminRule (AdminUsers cfg) (AdminGroups cfg)"
  have "users ?r \<noteq> {} \<or> groups ?r \<noteq> {}" using assms(2) by (auto simp: is_admin_def)
  from admin_decides [OF assms(1) this] assms(2) obtain detail where
    "admin_evaluate os ops ?r ctx req st = (Inr (adminAllow detail), st')" by auto
  then show ?thesis by (simp add: decide_fst builtin_chain_def)
qed

lemma admin_bypass_witness:
  "fst (chain_decide (builtin_chain sample_os sample_ops (sample_config\<lparr>AdminUsers := [''alice'']\<rparr>))
     background create_bob sample_state) = (True, admin_msg, None)"
proof -
  obtain m st' where m: "resolveVars sample_os sample_ops background create_bob sample_state = (m, st')"
    by (metis surj_pair)
  have "read_list (fst (resolveVars sample_os sample_ops background create_bob sample_state)) ''USER'' = [''alice'']"
    by code_simp
  then have "is_admin (NewAdminRule (AdminUsers (sample_config\<lparr>AdminUsers := [''alice'']\<rparr>))
      (AdminGroups (sample_config\<lparr>AdminUsers := [''alice'']\<rparr>))) (resolved_value m)"
    using m by (simp add: is_admin_def NewAdminRule_def toSet_def resolved_value_def)
  from admin_bypass [OF m this] show ?thesis .
qed

text \<open>C5. The exact decision on a container-create request with mounts, whatever the
  configuration: an admin is allowed; else it is allowed when every requested path is granted by
  the resolved values, and otherwise denied with the first path, in request order, that is not.
  The admin rule resolves the caller's values (\<open>ma\<close>) only when admins are configured, the mount
  rule resolves them (again), to \<open>m\<close>. The words of the denial are those of the source;
  \<open>docs/deny-test.log\<close> shows others.\<close>

theorem mount_decision:
  assumes "fair os"
    and "binds (RequestURI req) (RequestBody req) = paths" and "paths \<noteq> []"
    and "resolveVars os ops ctx req st = (ma, sta)"
    and "resolveVars os ops ctx req (if AdminUsers cfg = [] \<and> AdminGroups cfg = [] then st else sta) = (m, st')"
  shows "fst (chain_decide (builtin_chain os ops cfg) ctx req st) =
    (if is_admin (NewAdminRule (AdminUsers cfg) (AdminGroups cfg)) (resolved_value ma)
     then (True, admin_msg, None)
     else
       (case find (\<lambda>p. \<not> granted os (Allowlist cfg) (resolved_value m) p) paths of
          None \<Rightarrow> (True, mount_allow_msg paths, None)
        | Some p \<Rightarrow> (False, prefixIdentity (User req) (mount_deny_msg p), None)))"
proof -
  let ?r = "NewAdminRule (AdminUsers cfg) (AdminGroups cfg)"
  let ?st = "if AdminUsers cfg = [] \<and> AdminGroups cfg = [] then st else sta"
  have "\<exists>detail. admin_evaluate os ops ?r ctx req st =
      (Inr (if is_admin ?r (resolved_value ma) then adminAllow detail else abstain), ?st)"
  proof (cases "AdminUsers cfg = [] \<and> AdminGroups cfg = []")
    case True
    then show ?thesis by (simp add: admin_unused NewAdminRule_def toSet_def is_admin_def)
  next
    case False
    then have "users ?r \<noteq> {} \<or> groups ?r \<noteq> {}" by (auto simp: NewAdminRule_def toSet_def)
    from admin_decides [OF assms(4) this] False show ?thesis by auto
  qed
  then obtain detail where "admin_evaluate os ops ?r ctx req st =
      (Inr (if is_admin ?r (resolved_value ma) then adminAllow detail else abstain), ?st)" by blast
  with mount_decides [OF assms(1,2,3,5), of "Allowlist cfg"] show ?thesis
    by (auto simp: decide_fst builtin_chain_def split: option.splits)
qed

lemma mount_decision_witness:
  "\<exists>m. read_list m ''USER'' = [''alice''] \<and>
     \<not> granted sample_os [''/home/$USER'', ''/data/app1''] (resolved_value m) ''/home/bob''"
proof -
  obtain ma sta where ma: "resolveVars sample_os sample_ops background create_bob sample_state = (ma, sta)"
    by (metis surj_pair)
  obtain m st' where m: "resolveVars sample_os sample_ops background create_bob
      (if AdminUsers sample_config = [] \<and> AdminGroups sample_config = [] then sample_state else sta) = (m, st')"
    by (metis surj_pair)
  have conf: "AdminUsers sample_config = [''root'']" by (simp add: sample_config_def)
  have "read_list (fst (resolveVars sample_os sample_ops background create_bob
      (snd (resolveVars sample_os sample_ops background create_bob sample_state)))) ''USER'' = [''alice'']"
    by code_simp
  then have u: "read_list m ''USER'' = [''alice'']" using ma m by (simp add: conf)
  have "fst (chain_decide (builtin_chain sample_os sample_ops sample_config) background create_bob sample_state) =
     (False, ''CN=alice: mount path /home/bob not allowed'', None)"
    by code_simp
  moreover have "Allowlist sample_config = [''/home/$USER'', ''/data/app1'']" "User create_bob = ''CN=alice''"
    by (simp_all add: sample_config_def create_bob_def)
  ultimately have "find (\<lambda>p. \<not> granted sample_os [''/home/$USER'', ''/data/app1''] (resolved_value m) p)
      [''/home/alice'', ''/home/bob''] = Some ''/home/bob''"
    using mount_decision [OF fair_sample binds_bob _ ma m]
    by (auto simp: prefixIdentity_def mount_deny_msg_def split: option.splits if_splits)
  with u show ?thesis by (auto split: if_splits)
qed

text \<open>C6. A closed gate holds for every caller who is not an admin: no \<open>docker cp\<close>, no
  \<open>docker exec\<close>, and, for a container without mounts, neither host networking nor (host
  networking apart) privileged mode is allowed.\<close>

theorem closed_gates:
  assumes "lru ops peek" and "policy_inv os peek P st"
    and "fst (fst (chain_decide (builtin_chain os ops cfg) ctx req st))"
    and "\<not> is_admin (NewAdminRule (AdminUsers cfg) (AdminGroups cfg)) (vouched P (User req))"
  shows "\<not> (is_docker_cp (RequestMethod req) (RequestURI req) \<and> DockerCP (Checks cfg) = CheckDeny) \<and>
    \<not> (is_docker_exec_create (RequestMethod req) (RequestURI req) \<and> DockerExec (Checks cfg) = CheckDeny) \<and>
    (binds (RequestURI req) (RequestBody req) = [] \<longrightarrow>
       \<not> (network_mode (RequestURI req) (RequestBody req) = Some ''host'' \<and>
          HostNetwork (Checks cfg) = CheckDeny) \<and>
       \<not> (network_mode (RequestURI req) (RequestBody req) \<noteq> Some ''host'' \<and>
          privileged (RequestURI req) (RequestBody req) = Some True \<and>
          Privileged (Checks cfg) = CheckDeny))"
proof (cases "is_container_create (RequestURI req)")
  case True
  with lru.open_gates(1) [OF assms(1-4)] container_create_not_action show ?thesis
    by (auto simp: gate_defs split: if_splits)
next
  case False
  have "volume_bind_device (RequestURI req) (RequestBody req) = None"
    if "is_docker_cp (RequestMethod req) (RequestURI req) \<or> is_docker_exec_create (RequestMethod req) (RequestURI req)"
    using that volume_create_not_action volume_bind_device_not_create by blast
  with False lru.open_gates(2) [OF assms(1-4)] docker_cp_not_exec show ?thesis
    by (auto simp: gate_defs split: if_splits)
qed

lemma sample_answers: "answered sample_set k r \<Longrightarrow> r = sample_values"
  by (auto simp: answered_def sample_set_def decorated_def
      sample_provider_def split: if_splits)

definition cp_alice :: authz_req where
  "cp_alice = request ''CN=alice'' ''PUT'' ''/v1.43/containers/c1/archive?path=x'' []"

lemma closed_gates_witness:
  "DockerExec (Checks sample_config) = CheckDeny \<and>
   \<not> is_docker_exec_create (RequestMethod cp_alice) (RequestURI cp_alice)"
proof -
  have "\<not> is_admin (NewAdminRule (AdminUsers sample_config) (AdminGroups sample_config))
      (vouched (answered sample_set) (User cp_alice))"
    by (auto simp: is_admin_def vouched_def NewAdminRule_def toSet_def sample_config_def values_of_def
        sample_values_def dest!: sample_answers)
  moreover have "fst (fst (chain_decide (builtin_chain sample_os sample_ops sample_config) background
      cp_alice sample_state))"
    by code_simp
  moreover have "DockerExec (Checks sample_config) = CheckDeny" by (simp add: sample_config_def)
  ultimately show ?thesis using closed_gates [OF lru4096.lru_axioms sample_inv] by blast
qed

text \<open>C8. What a closed gate does not stop: the chain ends at the first active decision, and
  the mount rule is active on every request with a mount, so the four \<open>checks.*\<close>
  settings have no influence on such a request (a privileged container with one allowed
  mount is allowed although \<open>checks.privileged\<close> is \<open>deny\<close>).\<close>

theorem checks_ignored_with_mounts:
  assumes "binds (RequestURI req) (RequestBody req) \<noteq> []"
  shows "chain_decide (builtin_chain os ops cfg) ctx req st =
    chain_decide (builtin_chain os ops (cfg\<lparr>Checks := other\<rparr>)) ctx req st"
  by (simp only: chain_decide_def rules_with_mounts [OF assms]) simp

lemma checks_ignored_with_mounts_witness:
  "privileged (RequestURI create_alice) (RequestBody create_alice) = Some True \<and>
   fst (chain_decide (builtin_chain sample_os sample_ops
          (sample_config\<lparr>Checks := \<lparr>HostNetwork = CheckDeny, Privileged = CheckDeny,
             DockerCP = CheckDeny, DockerExec = CheckDeny\<rparr>\<rparr>)) background create_alice sample_state) =
     (True, ''mount path(s) /home/alice, /data/app1 allowed'', None)"
proof
  show "privileged (RequestURI create_alice) (RequestBody create_alice) = Some True" by code_simp
qed (simp add: binds_alice decide_alice
    checks_ignored_with_mounts [of create_alice sample_os sample_ops sample_config, symmetric])

text \<open>A chain nested in a chain decides as the flattened one, in the same order.\<close>

theorem nested_chain:
  "chain_evaluate (chain_evaluate as # bs) = chain_evaluate (as @ bs)"
  by (intro ext) (simp add: chain_append)

text \<open>With no admins configured, a request that brings in no host path is decided
  without asking any datasource: set and directory are untouched, only the decision's own
  events are appended.\<close>

theorem no_lookup_without_paths:
  assumes "AdminUsers cfg = []" and "AdminGroups cfg = []" and "host_paths req = {}"
  shows "\<exists>r. chain_decide (builtin_chain os ops cfg) ctx req (s, w) =
    (decide_answer req r, (s, emit_all (decide_events req r) w))"
proof -
  have paths: "binds (RequestURI req) (RequestBody req) = []"
    "volume_bind_device (RequestURI req) (RequestBody req) = None"
    using assms(3) by (auto simp: host_paths_def)
  have gates: "\<exists>r. chain_evaluate
      [host_network_evaluate (NewHostNetworkRule a), privileged_evaluate (NewPrivilegedRule b),
       docker_cp_evaluate (NewDockerCPRule c), docker_exec_evaluate (NewDockerExecRule d)]
      ctx req (s, w) = (r, (s, w))" for a b c d
    by (simp add: gate_defs)
  have "\<exists>r. chain_evaluate (builtin_chain os ops cfg) ctx req (s, w) = (r, (s, w))"
    using assms(1,2) paths gates
    by (simp add: builtin_chain_def admin_unused NewAdminRule_def toSet_def mount_abstains volume_abstains)
  then show ?thesis by (auto simp: chain_decide_def)
qed

lemma no_lookup_without_paths_witness:
  "fst (snd (chain_decide (builtin_chain sample_os sample_ops (sample_config\<lparr>AdminUsers := []\<rparr>))
      background create_privileged sample_state)) = sample_set"
proof -
  have "host_paths create_privileged = {}" unfolding host_paths_def by code_simp
  moreover have "AdminUsers (sample_config\<lparr>AdminUsers := []\<rparr>) = []"
    "AdminGroups (sample_config\<lparr>AdminUsers := []\<rparr>) = []"
    by (simp_all add: sample_config_def)
  ultimately obtain r where "chain_decide (builtin_chain sample_os sample_ops (sample_config\<lparr>AdminUsers := []\<rparr>))
      background create_privileged sample_state =
    (decide_answer create_privileged r, (sample_set, emit_all (decide_events create_privileged r) sample_world))"
    using no_lookup_without_paths by blast
  then show ?thesis by simp
qed

section \<open>The datasources\<close>

text \<open>C14. \<open>Set.Resolve\<close>, whatever order its goroutines run in: each provider is asked once,
  through its own cache and for the sanitized variables, and the result holds, for every
  name, the successful answers concatenated in the configured order with later duplicates
  dropped.\<close>

theorem set_resolve_merges:
  assumes "set_resolve_in_order order ops ctx vars s w = (m, s', w')"
    and "schedule order (length (providers s))"
    and "validVarValue (read_string vars identityVar) = None"
  shows "\<exists>answers. length answers = length (providers s) \<and>
    (\<forall>i<length (providers s). \<exists>kept u u'. read_string kept identityVar = read_string vars identityVar \<and>
       cached_resolve ops ctx kept (providers s ! i) u = (answers ! i, providers s' ! i, u')) \<and>
    (\<forall>n. read_list m n =
       dedup_onto [] (concat (map (\<lambda>r. case r of Inl _ \<Rightarrow> [] | Inr v \<Rightarrow> values_of v n) answers)))"
proof (cases "providers s = []")
  case True
  with assms(1,3) show ?thesis
    by (auto simp: set_resolve_in_order_def sanitize_def split: prod.splits)
next
  case False
  with set_resolve_asked [OF assms] obtain answers kept where
    a: "length answers = length (providers s)" "m = merge_results (map (slot []) answers)"
      "read_string kept identityVar = read_string vars identityVar"
      "\<forall>i<length (providers s). \<exists>u u'.
         cached_resolve ops ctx kept (providers s ! i) u = (answers ! i, providers s' ! i, u')" by blast
  have "values_of (slot [] r) n = (case r of Inl _ \<Rightarrow> [] | Inr v \<Rightarrow> values_of v n)" for r n
    by (cases r) simp_all
  then have "read_list m n =
      dedup_onto [] (concat (map (\<lambda>r. case r of Inl _ \<Rightarrow> [] | Inr v \<Rightarrow> values_of v n) answers))" for n
    by (simp add: a(2) merge_results_spec comp_def)
  with a show ?thesis by blast
qed

lemma set_resolve_merges_witness:
  "\<exists>answers. length answers = 1 \<and>
    [''alice''] = dedup_onto [] (concat (map (\<lambda>r. case r of Inl _ \<Rightarrow> [] | Inr v \<Rightarrow> values_of v ''USER'')
      (answers :: resolved result list)))"
proof -
  let ?vars = "[(''IDENTITY'', ''CN=alice'')]"
  obtain m s' w' where r:
    "set_resolve_in_order [0] sample_ops background ?vars sample_set sample_world = (m, s', w')"
    by (metis surj_pair)
  have "read_list (fst (set_resolve_in_order [0] sample_ops background ?vars sample_set sample_world)) ''USER''
      = [''alice'']" by code_simp
  then have "read_list m ''USER'' = [''alice'']" using r by simp
  moreover have "schedule [0] (length (providers sample_set))"
    by (auto simp: schedule_def sample_set_def)
  moreover have "length (providers sample_set) = 1" by (simp add: sample_set_def)
  moreover have "validVarValue (read_string ?vars identityVar) = None" by code_simp
  ultimately show ?thesis using set_resolve_merges [OF r] by metis
qed

text \<open>A request whose identity is empty, too long or contains a control character
  resolves to nothing: no datasource is asked, no cache is touched, and one warning with
  the quoted value is logged.\<close>

theorem bad_identity_resolves_nothing:
  assumes "validVarValue (User req) = Some reason"
  shows "resolveVars os ops ctx req (s, w) =
    (Map.empty, s, emit (Log LevelWarn ''rejected untrusted datasource input variable''
       [(''variable'', ''IDENTITY''), (''reason'', reason),
        (''value'', sanitizeForLog (print_table w) (User req)),
        (''request_method'', RequestMethod req), (''request_uri'', RequestURI req)]) w)"
proof -
  have "validVarValue (read_string (Extract req) identityVar) = Some reason" using assms by simp
  then show ?thesis
    by (simp only: resolveVars_def set_resolve_def set_resolve_invalid Let_def fst_conv snd_conv read_Extract)
      (simp add: warnRejected_def requestInfoFrom_def WithRequestContext_def identityVar_def)
qed

lemma bad_identity_resolves_nothing_witness:
  "fst (resolveVars sample_os sample_ops background (request [] ''GET'' ''/_ping'' []) sample_state) = Map.empty"
proof -
  have "validVarValue (User (request [] ''GET'' ''/_ping'' [])) = Some ''empty''" by code_simp
  from bad_identity_resolves_nothing [OF this, of sample_os sample_ops background sample_set sample_world]
  show ?thesis by simp
qed

text \<open>The rejected value in a warning.\<close>

definition logged_value :: "event \<Rightarrow> string option" where
  "logged_value ev = (case ev of Log level msg attrs \<Rightarrow> map_of attrs ''value'' | _ \<Rightarrow> None)"

text \<open>A value of 81 runes, the longest there are, and a control character.\<close>

definition flooding :: string where
  "flooding = concat (replicate 81 (encode_rune 0x10FFFF)) @ [CHR 0x00]"

text \<open>C15. No rejected value can forge, break or flood its log line: in every warning that
  sanitizing writes, the rejected value, however long it is, is logged without a byte below 0x20
  and without DEL and in at most 816 bytes, whatever the table of printable runes; and there is
  a value that takes all of them. The bound is that of the attribute \<open>value\<close>: the request's
  method and URI, which \<open>warnRejected\<close> adds, and the identity in the lines of \<open>Chain.Decide\<close>
  are passed to the logger as they are.\<close>

theorem logged_values_bounded:
  "list_all (\<lambda>ev. \<exists>v. logged_value ev = Some v \<and> list_all visible v \<and> length v \<le> 816)
     (snd (sanitize is_print ctx vars)) \<and>
   (\<exists>v. map logged_value (snd (sanitize (\<lambda>_. False) ctx [(identityVar, flooding)])) = [Some v] \<and> length v = 816)"
proof -
  have short: "length (sanitizeForLog is_print v) \<le> 816" and shown: "list_all visible (sanitizeForLog is_print v)"
    for v
  proof -
    have "length (quote is_print (concat (map encode_rune rs))) \<le> 802" if "length rs \<le> 80" for rs
      using length_quote_encoded [of is_print rs] that by (simp add: quote_def)
    from this [of "runes v"] this [of "take 80 (runes v)"] show "length (sanitizeForLog is_print v) \<le> 816"
      by (auto simp: sanitizeForLog_def Let_def maxLoggedRunes_def)
    show "list_all visible (sanitizeForLog is_print v)"
      by (auto simp: sanitizeForLog_def Let_def list_all_iff visible_quote) (auto simp: visible_def)
  qed
  have warned: "logged_value (warnRejected is_print ctx name v reason) = Some (sanitizeForLog is_print v)"
    for is_print ctx name v reason
    by (simp add: logged_value_def warnRejected_def)
  have "list_all (\<lambda>ev. \<exists>v. logged_value ev = Some v \<and> list_all visible v \<and> length v \<le> 816)
      (snd (sanitize_vars is_print ctx vars))"
    by (induction vars) (auto simp: warned short shown Let_def split: prod.split option.split)
  then have "list_all (\<lambda>ev. \<exists>v. logged_value ev = Some v \<and> list_all visible v \<and> length v \<le> 816)
      (snd (sanitize is_print ctx vars))"
    by (auto simp: sanitize_def Let_def warned short shown split: prod.split option.split)
  moreover have "length (sanitizeForLog (\<lambda>_. False) flooding) = 816" by code_simp
  moreover have "validVarValue flooding = Some ''contains control characters''" by code_simp
  then have "snd (sanitize (\<lambda>_. False) ctx [(identityVar, flooding)]) =
      [warnRejected (\<lambda>_. False) ctx identityVar flooding ''contains control characters'']"
    by (simp add: sanitize_def read_string_def)
  ultimately show ?thesis by (simp add: warned)
qed

text \<open>A fresh cache entry answers without asking the directory: the entry's value, no
  change of the directory's state, the cache still holding the same entries.\<close>

theorem fresh_entry_served:
  assumes "lru ops peek"
    and "cached_resolve ops ctx vars cp w = (r, cp', w')"
    and "read_string vars identityVar = k" and "k \<noteq> []"
    and "peek (cp_cache cp) k = Some e" and "hasValue e"
    and "time_sub (clock w (Suc (ticks w))) (fetchedAt e) < cp_ttl cp"
  shows "r = Inr (entry_value e) \<and> backend w' = backend w \<and> peek (cp_cache cp') = peek (cp_cache cp)"
proof -
  have "servedFresh e (clock w (Suc (ticks w))) (cp_ttl cp) = Some (Inr (entry_value e))"
    using assms(6,7) by (simp add: servedFresh_def)
  from lru.cached_resolve_served [OF assms(1,3,4,5) this assms(2)] show ?thesis by blast
qed

definition cp_with :: "cache_entry \<Rightarrow> (lru_list, unit) cached_provider" where
  "cp_with e = decorated ''ad'' ''ldap'' (60 * second) defaultNegativeCacheTTL (\<lambda>_ _ w. (Inl ''down'', w)) [(''k'', e)]"

lemma cp_with_fields [simp]:
  "cp_cache (cp_with e) = [(''k'', e)]" "cp_ttl (cp_with e) = 60 * second"
  "cp_provider (cp_with e) ctx vars u = (Inl ''down'', u)"
  by (simp_all add: cp_with_def decorated_def)

definition vars_k :: "string go_map" where
  "vars_k = [(''IDENTITY'', ''k'')]"

lemma vars_k_identity [simp]: "read_string vars_k identityVar = ''k''"
  by (simp add: vars_k_def read_string_def identityVar_def)

lemma sample_world_clock [simp]: "clock sample_world n = 1000000000 * int n" "ticks sample_world = 0"
  by (simp_all add: sample_world_def)

lemma fresh_entry_served_witness:
  "fst (cached_resolve sample_ops background vars_k (cp_with (positive_entry sample_values 0)) sample_world) =
     Inr sample_values"
proof -
  obtain r cp' w' where r: "cached_resolve sample_ops background vars_k
      (cp_with (positive_entry sample_values 0)) sample_world = (r, cp', w')" by (metis surj_pair)
  from fresh_entry_served [OF lru4096.lru_axioms r vars_k_identity] have "r = Inr sample_values"
    by (simp add: time_sub_def min_duration_def max_duration_def)
  with r show ?thesis by simp
qed

text \<open>C16. Stale-while-error: an expired entry is still served, unchanged, as long as the
  directory cannot be asked successfully.\<close>

theorem stale_entry_served:
  assumes "lru ops peek"
    and "cached_resolve ops ctx vars cp w = (r, cp', w')"
    and "read_string vars identityVar = k" and "k \<noteq> []"
    and "peek (cp_cache cp) k = Some e" and "hasValue e"
    and "cp_ttl cp \<le> time_sub (clock w (Suc (ticks w))) (fetchedAt e)"
    and "\<forall>u. \<exists>err u'. cp_provider cp ctx vars u = (Inl err, u')"
  shows "r = Inr (entry_value e) \<and> peek (cp_cache cp') = peek (cp_cache cp)"
  using lru.cached_resolve_stale [OF assms(1-7)] assms(8) by blast

lemma stale_entry_served_witness:
  "fst (cached_resolve sample_ops background vars_k (cp_with (positive_entry sample_values (- 61000000000)))
     sample_world) = Inr sample_values"
proof -
  obtain r cp' w' where r: "cached_resolve sample_ops background vars_k
      (cp_with (positive_entry sample_values (- 61000000000))) sample_world = (r, cp', w')" by (metis surj_pair)
  from stale_entry_served [OF lru4096.lru_axioms r vars_k_identity] have "r = Inr sample_values"
    by (simp add: time_sub_def min_duration_def max_duration_def)
  with r show ?thesis by simp
qed

text \<open>Negative caching: when an identity never seen fails to resolve, the failure is
  remembered, and until \<open>negTTL\<close> after it every lookup fails again without asking the
  directory.\<close>

theorem failure_remembered:
  assumes "lru ops peek"
    and "cached_resolve ops ctx vars cp w = (r, cp', w')"
    and "read_string vars identityVar = k" and "k \<noteq> []"
    and "peek (cp_cache cp) k = None"
    and "\<forall>u. \<exists>err u'. cp_provider cp ctx vars u = (Inl err, u')"
  shows "r = Inl errUnresolved \<and>
    (\<exists>t. peek (cp_cache cp') k = Some (negative_entry (t + cp_negTTL cp)) \<and>
       (\<forall>ctx2 w2. clock w2 (Suc (ticks w2)) < t + cp_negTTL cp \<longrightarrow> t + cp_negTTL cp \<noteq> 0 \<longrightarrow>
          fst (cached_resolve ops ctx2 vars cp' w2) = Inl errUnresolved \<and>
          backend (snd (snd (cached_resolve ops ctx2 vars cp' w2))) = backend w2))"
proof -
  from lru.cached_resolve_negative [OF assms(1-5)] assms(6) obtain t where
    r: "r = Inl errUnresolved" and e: "peek (cp_cache cp') k = Some (negative_entry (t + cp_negTTL cp))"
    by blast
  have "fst (cached_resolve ops ctx2 vars cp' w2) = Inl errUnresolved \<and>
      backend (snd (snd (cached_resolve ops ctx2 vars cp' w2))) = backend w2"
    if "clock w2 (Suc (ticks w2)) < t + cp_negTTL cp" "t + cp_negTTL cp \<noteq> 0" for ctx2 w2
  proof -
    have "servedFresh (negative_entry (t + cp_negTTL cp)) (clock w2 (Suc (ticks w2))) (cp_ttl cp') =
        Some (Inl errUnresolved)"
      using that by (simp add: servedFresh_def)
    from lru.cached_resolve_served [OF assms(1,3,4) e this] show ?thesis by (metis prod.collapse)
  qed
  with r e show ?thesis by blast
qed

lemma failure_remembered_witness:
  "fst (cached_resolve sample_ops background vars_k
      (cp_with (positive_entry sample_values 0)\<lparr>cp_cache := []\<rparr>) sample_world) = Inl errUnresolved"
proof -
  obtain r cp' w' where r: "cached_resolve sample_ops background vars_k
      (cp_with (positive_entry sample_values 0)\<lparr>cp_cache := []\<rparr>) sample_world = (r, cp', w')"
    by (metis surj_pair)
  from failure_remembered [OF lru4096.lru_axioms r vars_k_identity] have "r = Inl errUnresolved" by simp
  with r show ?thesis by simp
qed

text \<open>Revocation: from a flush on, in any history of lookups and flushes, every value
  served for an identity is one the provider gave after it, never one cached before.\<close>

theorem flush_revokes:
  assumes "lru ops peek"
    and "run_cache ops hist (cache_flush ops cp) w = (rs, cp', w')"
    and "provider_answers P (cp_provider cp)"
    and "(k, Inr v) \<in> set rs"
  shows "P k v"
  using lru.run_cache_sound [OF assms(1,2) lru.cache_flush_inv [OF assms(1)], of P] assms(3,4)
  by (simp add: cache_flush_def)

lemma flush_revokes_witness:
  "fst (run_cache sample_ops [Lookup background vars_k] (cache_flush sample_ops
      (cp_with (positive_entry sample_values 0)\<lparr>cp_provider := (\<lambda>_ _ w. (Inr [], w))\<rparr>)) sample_world) =
     [(''k'', Inr [])]"
proof -
  let ?cp = "cp_with (positive_entry sample_values 0)\<lparr>cp_provider := (\<lambda>_ _ w. (Inr [], w))\<rparr>"
  obtain rs cp' w' where r: "run_cache sample_ops [Lookup background vars_k] (cache_flush sample_ops ?cp)
      sample_world = (rs, cp', w')" by (metis surj_pair)
  have "provider_answers (\<lambda>_ v. v = []) (cp_provider ?cp)" by (simp add: provider_answers_def)
  note revoked = flush_revokes [OF lru4096.lru_axioms r this]
  have "map fst (fst (run_cache sample_ops [Lookup background vars_k] (cache_flush sample_ops ?cp) sample_world)) = [''k''] \<and>
      list_all is_ok (map snd (fst (run_cache sample_ops [Lookup background vars_k] (cache_flush sample_ops ?cp) sample_world)))"
    by code_simp
  then obtain v where "rs = [(''k'', Inr v)]" using r by (auto simp: is_ok_iff)
  with revoked r show ?thesis by simp
qed

end
